(* ===== verification/Prelude.thy ===== *)
theory Prelude
  imports Main "HOL-Library.Word" "HOL-Library.Monad_Syntax"
begin

text \<open>
  Shared vocabulary of the development.

  \<^item> Machine integers.  Where bits or widths matter (variable-length integers, packet
    numbers, the duplicate window) the model uses \<open>'n word\<close>; stream offsets, lengths and
    counters (\<open>u64\<close> and \<open>usize\<close> in the source) are \<open>nat\<close>, a subtraction of the
    source that would underflow is the checked \<open>csub\<close> whose \<open>None\<close> is the panic of
    the Rust program, and saturating operations are written out with \<open>u64_max\<close>.
  \<^item> Panics.  A function of the source that can panic has a result of type \<open>'a option\<close>,
    \<open>None\<close> being the panic; \<open>Result\<close> values are sums, \<open>Inl\<close> being \<open>Err\<close>.
  \<^item> Ranges.  \<open>Range<u64>\<close> is a pair of its start and its exclusive end.
  \<^item> Generic lemmas on lists, slices, options and words, and two interfaces
    (\<^theory_text>\<open>locale\<close>) that several components implement: a transition system with an
    invariant, and a byte codec.
\<close>

unbundle bit_operations_syntax

section \<open>Types\<close>

type_synonym byte = "8 word"
type_synonym u16 = "16 word"
type_synonym u32 = "32 word"
type_synonym u64 = "64 word"
type_synonym u128 = "128 word"
type_synonym range = "nat \<times> nat"

named_theorems panic_simps \<open>unfolding of checked operations\<close>
named_theorems codec_simps \<open>decoders applied to encodings\<close>

section \<open>Checked and saturating arithmetic\<close>

definition u64_max :: nat where
  "u64_max = 2 ^ 64 - 1"

definition csub :: "nat \<Rightarrow> nat \<Rightarrow> nat option" where
  "csub a b = (if b \<le> a then Some (a - b) else None)"

definition sat_add :: "nat \<Rightarrow> nat \<Rightarrow> nat" where
  "sat_add a b = min u64_max (a + b)"

definition assert_opt :: "bool \<Rightarrow> unit option" where
  "assert_opt b = (if b then Some () else None)"

lemma csub_Some [simp, panic_simps]: "b \<le> a \<Longrightarrow> csub a b = Some (a - b)"
  by (simp add: csub_def)

lemma csub_None [panic_simps]: "a < b \<Longrightarrow> csub a b = None"
  by (simp add: csub_def)

lemma csub_eq_Some [simp]: "csub a b = Some c \<longleftrightarrow> b \<le> a \<and> c = a - b"
  by (auto simp: csub_def)

lemma csub_eq_None [simp]: "csub a b = None \<longleftrightarrow> a < b"
  by (auto simp: csub_def)

lemma csub_self_0 [simp]: "csub a 0 = Some a"
  by (simp add: csub_def)

lemma assert_opt_simps [simp, panic_simps]:
  "assert_opt True = Some ()"
  "assert_opt False = None"
  by (simp_all add: assert_opt_def)

lemma assert_opt_eq_Some [simp]: "assert_opt b = Some u \<longleftrightarrow> b"
  by (simp add: assert_opt_def)

lemma sat_add_small: "a + b \<le> u64_max \<Longrightarrow> sat_add a b = a + b"
  by (simp add: sat_add_def)

lemma sat_add_le: "sat_add a b \<le> a + b"
  by (simp add: sat_add_def)

lemma sat_add_mono: "a \<le> u64_max \<Longrightarrow> a \<le> sat_add a b"
  by (simp add: sat_add_def)

section \<open>Option and list lemmas\<close>

lemma bind_Some_elim:
  assumes "Option.bind m f = Some y"
  obtains x where "m = Some x" and "f x = Some y"
  using assms by (auto simp: Option.bind_eq_Some_conv)

definition slice :: "nat \<Rightarrow> nat \<Rightarrow> 'a list \<Rightarrow> 'a list" where
  "slice s e xs = take (e - s) (drop s xs)"

lemma length_slice: "e \<le> length xs \<Longrightarrow> length (slice s e xs) = e - s"
  by (simp add: slice_def)

lemma slice_empty [simp]: "e \<le> s \<Longrightarrow> slice s e xs = []"
  by (simp add: slice_def)

lemma slice_nth:
  "i < e - s \<Longrightarrow> e \<le> length xs \<Longrightarrow> slice s e xs ! i = xs ! (s + i)"
  by (simp add: slice_def)

lemma slice_full [simp]: "slice 0 (length xs) xs = xs"
  by (simp add: slice_def)

lemma slice_split:
  "s \<le> m \<Longrightarrow> m \<le> e \<Longrightarrow> slice s e xs = slice s m xs @ slice m e xs"
proof -
  assume "s \<le> m" "m \<le> e"
  then have "take (e - s) (drop s xs) = take (m - s + (e - m)) (drop s xs)"
    by simp
  also have "\<dots> = take (m - s) (drop s xs) @ take (e - m) (drop (m - s) (drop s xs))"
    by (rule take_add)
  finally show ?thesis
    using \<open>s \<le> m\<close> by (simp add: slice_def)
qed

lemma slice_append:
  "slice s e (xs @ ys) = slice s (min e (length xs)) xs @ slice (s - length xs) (e - length xs) ys"
proof (cases "s \<le> length xs")
  case True
  then show ?thesis
    by (auto simp: slice_def min_def)
next
  case False
  then show ?thesis
    by (simp add: slice_def min_def)
qed

lemma drop_slice: "drop k (slice s e xs) = slice (s + k) e xs"
  by (simp add: slice_def drop_take add.commute)

lemma take_slice: "s \<le> e \<Longrightarrow> k \<le> e - s \<Longrightarrow> take k (slice s e xs) = slice s (s + k) xs"
  by (simp add: slice_def min_def)

lemma slice_drop: "slice s e (drop k xs) = slice (k + s) (k + e) xs"
  by (simp add: slice_def add.commute)

text \<open>
  \<open>slice::split_at\<close> and \<open>Bytes::split_to\<close>, and \<open>Buf::advance\<close>; they panic beyond the
  end of the data.
\<close>

definition split_at :: "nat \<Rightarrow> 'a list \<Rightarrow> ('a list \<times> 'a list) option" where
  "split_at n xs = (if n \<le> length xs then Some (take n xs, drop n xs) else None)"

definition advance :: "nat \<Rightarrow> 'a list \<Rightarrow> 'a list option" where
  "advance n xs = (if n \<le> length xs then Some (drop n xs) else None)"

lemma split_at_Some [simp]: "n \<le> length xs \<Longrightarrow> split_at n xs = Some (take n xs, drop n xs)"
  by (simp add: split_at_def)

lemma advance_Some [simp]: "n \<le> length xs \<Longrightarrow> advance n xs = Some (drop n xs)"
  by (simp add: advance_def)

text \<open>
  Bytes that agree with a stream from an offset on.  The stream gives the bytes allowed at each
  offset: a single one for a stream with known contents (\<open>only f\<close>), any byte where the contents
  do not matter.
\<close>

definition fits :: "(nat \<Rightarrow> byte set) \<Rightarrow> nat \<Rightarrow> byte list \<Rightarrow> bool" where
  "fits f n bs \<longleftrightarrow> (\<forall>i < length bs. bs ! i \<in> f (n + i))"

definition only :: "(nat \<Rightarrow> byte) \<Rightarrow> nat \<Rightarrow> byte set" where
  "only f i = {f i}"

lemma fits_Nil [simp]: "fits f n []"
  by (simp add: fits_def)

lemma all_less_add:
  "(\<forall>i < m + n. P i) \<longleftrightarrow> (\<forall>i < m. P i) \<and> (\<forall>i < n. P (m + i :: nat))"
proof (intro iffI conjI allI impI)
  fix i
  assume P: "(\<forall>i < m. P i) \<and> (\<forall>i < n. P (m + i))" and i: "i < m + n"
  show "P i"
  proof (cases "i < m")
    case False
    then have "i = m + (i - m)" "i - m < n"
      using i by auto
    then show ?thesis
      using P by metis
  qed (use P in blast)
qed auto

lemma fits_append: "fits f n (xs @ ys) \<longleftrightarrow> fits f n xs \<and> fits f (n + length xs) ys"
  unfolding fits_def length_append all_less_add by (simp add: nth_append add.assoc)

lemma fits_take: "fits f n bs \<Longrightarrow> fits f n (take k bs)"
  by (metis append_take_drop_id fits_append)

lemma fits_drop: "fits f n bs \<Longrightarrow> k \<le> length bs \<Longrightarrow> fits f (n + k) (drop k bs)"
  by (metis append_take_drop_id fits_append length_take min.absorb2)

lemma fits_UNIV [simp]: "fits (\<lambda>_. UNIV) n bs"
  by (simp add: fits_def)

lemma fits_only: "fits (only f) n bs \<longleftrightarrow> bs = map f [n..<n + length bs]"
  unfolding fits_def only_def list_eq_iff_nth_eq [of bs "map f [n..<n + length bs]"] by simp

lemma fits_map [simp]: "fits (only f) n (map f [n..<m])"
  by (auto simp: fits_def only_def)

section \<open>Sets of offsets\<close>

definition rset :: "range \<Rightarrow> nat set" where
  "rset r = {fst r..<snd r}"

definition rlen :: "range \<Rightarrow> nat" where
  "rlen r = snd r - fst r"

lemma rset_pair [simp]: "rset (s, e) = {s..<e}"
  by (simp add: rset_def)

lemma rlen_pair [simp]: "rlen (s, e) = e - s"
  by (simp add: rlen_def)

lemma card_rset: "card (rset r) = rlen r"
  by (simp add: rset_def rlen_def)

lemma finite_rset [simp]: "finite (rset r)"
  by (simp add: rset_def)

section \<open>Interface: a transition system with an invariant\<close>

text \<open>
  Used for every component whose operations are put together as a step relation: what
  holds initially and is kept by every step holds in every reachable state.
\<close>

locale invariant_system =
  fixes init :: "'s \<Rightarrow> bool"
    and step :: "'s \<Rightarrow> 's \<Rightarrow> bool"
    and inv :: "'s \<Rightarrow> bool"
  assumes inv_init: "init s \<Longrightarrow> inv s"
    and inv_step: "inv s \<Longrightarrow> step s t \<Longrightarrow> inv t"
begin

lemma inv_steps:
  assumes "step\<^sup>*\<^sup>* s t" and "inv s"
  shows "inv t"
  using assms by (induction rule: rtranclp_induct) (auto intro: inv_step)

lemma inv_reachable:
  assumes "init s" and "step\<^sup>*\<^sup>* s t"
  shows "inv t"
  using assms inv_init inv_steps by blast

end

section \<open>Interface: a byte codec\<close>

text \<open>
  \<open>enc\<close> appends the encoding of a value to a buffer, \<open>dec\<close> consumes a prefix of a
  buffer and returns the value and what is left (\<open>None\<close> for \<open>UnexpectedEnd\<close>).
  \<open>ok\<close> says which values can be encoded.
\<close>

locale codec =
  fixes ok :: "'a \<Rightarrow> bool"
    and enc :: "'a \<Rightarrow> byte list"
    and dec :: "byte list \<Rightarrow> ('a \<times> byte list) option"
  assumes dec_enc: "ok x \<Longrightarrow> dec (enc x @ rest) = Some (x, rest)"
    and dec_consumes: "dec bs = Some (x, rest) \<Longrightarrow> \<exists>used. bs = used @ rest \<and> used \<noteq> []"
begin

lemma dec_enc_Nil: "ok x \<Longrightarrow> dec (enc x) = Some (x, [])"
  using dec_enc [of x "[]"] by simp

lemma enc_inj: "ok x \<Longrightarrow> ok y \<Longrightarrow> enc x @ r = enc y @ r' \<Longrightarrow> x = y \<and> r = r'"
  by (metis dec_enc option.inject prod.inject)

lemma enc_prefix_free: "ok x \<Longrightarrow> ok y \<Longrightarrow> enc y = enc x @ s \<Longrightarrow> s = []"
  using enc_inj [of x y s "[]"] by auto

lemma enc_nonempty: "ok x \<Longrightarrow> enc x \<noteq> []"
  using dec_enc [of x "[]"] dec_consumes [of "enc x" x "[]"] by auto

lemma dec_shorter: "dec bs = Some (x, rest) \<Longrightarrow> length rest < length bs"
  by (auto dest!: dec_consumes)

end

section \<open>Big-endian integers\<close>

text \<open>The \<open>put_uN\<close> and \<open>get_uN\<close> functions of the \<open>bytes\<close> buffers.\<close>

lemma digit_bound:
  assumes "(q :: nat) < n" and "f < m"
  shows "q * m + f < n * m"
proof -
  have "q * m + f < Suc q * m" using assms(2) by simp
  also have "\<dots> \<le> n * m" using assms(1) by (intro mult_le_mono1) simp
  finally show ?thesis .
qed

primrec be_bytes :: "nat \<Rightarrow> nat \<Rightarrow> byte list" where
  "be_bytes 0 n = []"
| "be_bytes (Suc k) n = be_bytes k (n div 256) @ [of_nat (n mod 256)]"

definition from_be :: "byte list \<Rightarrow> nat" where
  "from_be bs = foldl (\<lambda>acc b. acc * 256 + unat b) 0 bs"

lemma length_be_bytes [simp]: "length (be_bytes k n) = k"
  by (induction k arbitrary: n) simp_all

lemma from_be_snoc [simp]: "from_be (bs @ [b]) = from_be bs * 256 + unat b"
  by (simp add: from_be_def)

lemma from_be_Nil [simp]: "from_be [] = 0"
  by (simp add: from_be_def)

lemma unat_of_nat_byte [simp]: "unat (of_nat (n mod 256) :: byte) = n mod 256"
  by (simp add: unat_of_nat)

lemma from_be_be_bytes: "from_be (be_bytes k n) = n mod 256 ^ k"
proof (induction k arbitrary: n)
  case (Suc k)
  have "n mod 256 ^ Suc k = 256 * (n div 256 mod 256 ^ k) + n mod 256"
    by (simp add: mod_mult2_eq)
  then show ?case by (simp add: Suc.IH)
qed simp

lemma from_be_less: "from_be bs < 256 ^ length bs"
proof (induction bs rule: rev_induct)
  case (snoc b bs)
  have "unat b < 256" using unsigned_less [of b] by simp
  moreover have "from_be bs * 256 + 256 \<le> 256 ^ length bs * 256"
    using snoc.IH by (metis Suc_leI add.commute mult_Suc mult_le_mono1)
  ultimately show ?case by simp
qed simp

lemma from_be_Cons: "from_be (b # bs) = unat b * 256 ^ length bs + from_be bs"
  by (induction bs rule: rev_induct) (simp_all flip: append_Cons add: from_be_def algebra_simps)

lemma be_bytes_from_be: "be_bytes (length bs) (from_be bs) = bs"
proof (induction bs rule: rev_induct)
  case (snoc b bs)
  have "unat b < 256" using unsigned_less [of b] by simp
  then have "(from_be bs * 256 + unat b) div 256 = from_be bs"
    and "(from_be bs * 256 + unat b) mod 256 = unat b" by simp_all
  with snoc.IH show ?case by simp
qed simp

declare be_bytes.simps [simp del]

definition get_be :: "nat \<Rightarrow> byte list \<Rightarrow> (nat \<times> byte list) option" where
  "get_be k bs = (if length bs < k then None else Some (from_be (take k bs), drop k bs))"

lemma get_be_be_bytes [codec_simps]:
  "n < 256 ^ k \<Longrightarrow> get_be k (be_bytes k n @ rest) = Some (n, rest)"
  by (simp add: get_be_def from_be_be_bytes)

lemma get_be_None: "get_be k bs = None \<longleftrightarrow> length bs < k"
  by (simp add: get_be_def)

lemma get_be_SomeD:
  "get_be k bs = Some (n, rest) \<Longrightarrow> n < 256 ^ k \<and> bs = be_bytes k n @ rest"
  using be_bytes_from_be [of "take k bs"] from_be_less [of "take k bs"]
  by (auto simp: get_be_def min_def split: if_splits)

lemma take_drop_consumes: "0 < k \<Longrightarrow> k \<le> length bs \<Longrightarrow> \<exists>used. bs = used @ drop k bs \<and> used \<noteq> []"
  by (rule exI [where x = "take k bs"]) auto

lemma get_be_consumes:
  "get_be k bs = Some (n, rest) \<Longrightarrow> 0 < k \<Longrightarrow> \<exists>used. bs = used @ rest \<and> used \<noteq> []"
  by (auto simp: get_be_def take_drop_consumes split: if_splits)

section \<open>Words\<close>

lemma unat_drop_bit_byte: "unat (drop_bit n (b :: byte)) = unat b div 2 ^ n"
  unfolding unat_drop_bit_eq by (simp add: drop_bit_eq_div)

lemma unat_and_63: "unat ((b :: byte) AND 63) = unat b mod 64"
proof -
  have "b AND 63 = take_bit 6 b"
    by (simp add: take_bit_eq_mask mask_eq_exp_minus_1)
  then show ?thesis
    by (simp add: unat_mod_distrib take_bit_eq_mod)
qed

end
