(* ===== verification/Var_Int.thy ===== *)
theory Var_Int
  imports Prelude
begin

text \<open>
  QUIC variable-length integers (\<open>noq-proto/src/varint.rs\<close>) and the primitive codecs of
  \<open>noq-proto/src/coding.rs\<close>.  A buffer that is read is the list of its remaining bytes, a
  buffer that is written is the list of the bytes appended; \<open>coding::Result\<close> is an
  \<open>option\<close>, its only error being \<open>UnexpectedEnd\<close>.  \<open>VarInt\<close> wraps a 64-bit word, so
  the shifts, masks and casts of the source are operations on words.
\<close>

section \<open>Definitions\<close>

datatype VarInt = VarInt (into_inner: u64)

datatype VarIntBoundsExceeded = VarIntBoundsExceeded

definition VarInt_MAX :: VarInt where
  "VarInt_MAX = VarInt (push_bit 62 1 - 1)"

definition VarInt_from_u32 :: "u32 \<Rightarrow> VarInt" where
  "VarInt_from_u32 x = VarInt (ucast x)"

definition VarInt_from_u64 :: "u64 \<Rightarrow> VarIntBoundsExceeded + VarInt" where
  "VarInt_from_u64 x = (if x < 2 ^ 62 then Inr (VarInt x) else Inl VarIntBoundsExceeded)"

definition VarInt_try_from_u128 :: "u128 \<Rightarrow> VarIntBoundsExceeded + VarInt" where
  "VarInt_try_from_u128 x =
     (if unat x < 2 ^ 64 then VarInt_from_u64 (ucast x) else Inl VarIntBoundsExceeded)"

definition u64_saturating_add :: "u64 \<Rightarrow> u64 \<Rightarrow> u64" where
  "u64_saturating_add a b = (if unat a + unat b < 2 ^ 64 then a + b else - 1)"

definition VarInt_saturating_add :: "VarInt \<Rightarrow> VarInt \<Rightarrow> VarInt" where
  "VarInt_saturating_add self rhs =
     VarInt (min (u64_saturating_add (into_inner self) (into_inner rhs)) (into_inner VarInt_MAX))"

definition VarInt_size :: "VarInt \<Rightarrow> nat option" where
  "VarInt_size self =
     (let x = into_inner self in
      if x < 2 ^ 6 then Some 1
      else if x < 2 ^ 14 then Some 2
      else if x < 2 ^ 30 then Some 4
      else if x < 2 ^ 62 then Some 8
      else None)"

definition put_u8 :: "byte \<Rightarrow> byte list" where
  "put_u8 w = be_bytes 1 (unat w)"

definition put_u16 :: "u16 \<Rightarrow> byte list" where
  "put_u16 w = be_bytes 2 (unat w)"

definition put_u32 :: "u32 \<Rightarrow> byte list" where
  "put_u32 w = be_bytes 4 (unat w)"

definition put_u64 :: "u64 \<Rightarrow> byte list" where
  "put_u64 w = be_bytes 8 (unat w)"

definition VarInt_encode :: "VarInt \<Rightarrow> byte list option" where
  "VarInt_encode self =
     (let x = into_inner self in
      if x < 2 ^ 6 then Some (put_u8 (ucast x))
      else if x < 2 ^ 14 then Some (put_u16 (push_bit 14 1 OR ucast x))
      else if x < 2 ^ 30 then Some (put_u32 (push_bit 30 2 OR ucast x))
      else if x < 2 ^ 62 then Some (put_u64 (push_bit 62 3 OR x))
      else None)"

definition VarInt_decode :: "byte list \<Rightarrow> (VarInt \<times> byte list) option" where
  "VarInt_decode r =
     (case r of
        [] \<Rightarrow> None
      | b # r \<Rightarrow>
          (let tag = drop_bit 6 b; b0 = b AND 63 in
           if tag = 0 then Some (VarInt (ucast b0), r)
           else if tag = 1 then
             (if length r < 1 then None
              else Some (VarInt (of_nat (from_be (b0 # take 1 r))), drop 1 r))
           else if tag = 2 then
             (if length r < 3 then None
              else Some (VarInt (of_nat (from_be (b0 # take 3 r))), drop 3 r))
           else
             (if length r < 7 then None
              else Some (VarInt (of_nat (from_be (b0 # take 7 r))), drop 7 r))))"

subsection \<open>Primitive codecs\<close>

definition u8_decode :: "byte list \<Rightarrow> (byte \<times> byte list) option" where
  "u8_decode buf = map_option (map_prod of_nat id) (get_be 1 buf)"

definition u16_decode :: "byte list \<Rightarrow> (u16 \<times> byte list) option" where
  "u16_decode buf = map_option (map_prod of_nat id) (get_be 2 buf)"

definition u32_decode :: "byte list \<Rightarrow> (u32 \<times> byte list) option" where
  "u32_decode buf = map_option (map_prod of_nat id) (get_be 4 buf)"

definition u64_decode :: "byte list \<Rightarrow> (u64 \<times> byte list) option" where
  "u64_decode buf = map_option (map_prod of_nat id) (get_be 8 buf)"

text \<open>IP addresses are their octets.\<close>

definition octets_decode :: "nat \<Rightarrow> byte list \<Rightarrow> (byte list \<times> byte list) option" where
  "octets_decode k buf = (if length buf < k then None else Some (take k buf, drop k buf))"

definition Ipv4Addr_decode :: "byte list \<Rightarrow> (byte list \<times> byte list) option" where
  "Ipv4Addr_decode = octets_decode 4"

definition Ipv6Addr_decode :: "byte list \<Rightarrow> (byte list \<times> byte list) option" where
  "Ipv6Addr_decode = octets_decode 16"

definition put_slice :: "byte list \<Rightarrow> byte list" where
  "put_slice octets = octets"

definition get_var :: "byte list \<Rightarrow> (u64 \<times> byte list) option" where
  "get_var buf = map_option (map_prod into_inner id) (VarInt_decode buf)"

text \<open>\<open>write_var\<close> unwraps: \<open>None\<close> is its panic.\<close>

definition write_var :: "u64 \<Rightarrow> byte list option" where
  "write_var x = (case VarInt_from_u64 x of Inl _ \<Rightarrow> None | Inr v \<Rightarrow> VarInt_encode v)"

section \<open>Well-formed values\<close>

definition VarInt_ok :: "VarInt \<Rightarrow> bool" where
  "VarInt_ok v \<longleftrightarrow> unat (into_inner v) < 2 ^ 62"

lemma word_less_pow [simp]:
  "(x :: u64) < 64 \<longleftrightarrow> unat x < 64"
  "(x :: u64) < 16384 \<longleftrightarrow> unat x < 16384"
  "(x :: u64) < 1073741824 \<longleftrightarrow> unat x < 1073741824"
  "(x :: u64) < 4611686018427387904 \<longleftrightarrow> unat x < 4611686018427387904"
  by (simp_all add: word_less_nat_alt)

lemma VarInt_from_u64_ok: "VarInt_from_u64 x = Inr v \<longleftrightarrow> v = VarInt x \<and> VarInt_ok v"
  by (auto simp: VarInt_from_u64_def VarInt_ok_def)

lemma unat_VarInt_MAX: "unat (into_inner VarInt_MAX) = 2 ^ 62 - 1"
  by (simp add: VarInt_MAX_def)

lemma VarInt_size_nat:
  "VarInt_size v =
     (let n = unat (into_inner v) in
      if n < 2 ^ 6 then Some 1 else if n < 2 ^ 14 then Some 2
      else if n < 2 ^ 30 then Some 4 else if n < 2 ^ 62 then Some 8 else None)"
  by (simp add: VarInt_size_def Let_def)

section \<open>Encoding at the level of numbers\<close>

text \<open>The tag is or-ed into bits the value leaves clear, so the or is an addition.\<close>

lemma or_nat_disjoint:
  assumes "(x :: nat) < 2 ^ n"
  shows "(t * 2 ^ n) OR x = t * 2 ^ n + x"
proof -
  have c: "t * 2 ^ n = push_bit n t" and x: "take_bit n x = x"
    using assms by (simp_all add: push_bit_eq_mult take_bit_nat_eq_self_iff)
  then have "\<not> bit (push_bit n t) m \<or> \<not> bit x m" for m
    by (metis bit_push_bit_iff bit_take_bit_iff not_le)
  then show ?thesis
    unfolding c by (simp add: disjunctive_add)
qed

lemma unat_or_tag:
  fixes c x :: "'a::len word"
  assumes "unat c = t * 2 ^ n" and "unat x < 2 ^ n"
  shows "unat (c OR x) = t * 2 ^ n + unat x"
  using assms by (simp add: unsigned_or_eq or_nat_disjoint)

lemma unat_ucast_small:
  "unat (x :: u64) < 2 ^ LENGTH('a) \<Longrightarrow> unat (ucast x :: 'a::len word) = unat x"
  by (simp add: unsigned_ucast_eq take_bit_eq_mod)

lemma VarInt_encode_be:
  "VarInt_encode (VarInt x) =
     (let n = unat x in
      if n < 2 ^ 6 then Some (be_bytes 1 n)
      else if n < 2 ^ 14 then Some (be_bytes 2 (2 ^ 14 + n))
      else if n < 2 ^ 30 then Some (be_bytes 4 (2 * 2 ^ 30 + n))
      else if n < 2 ^ 62 then Some (be_bytes 8 (3 * 2 ^ 62 + n))
      else None)"
proof -
  have "unat x < 2 ^ 6 \<Longrightarrow> put_u8 (ucast x) = be_bytes 1 (unat x)"
    by (simp add: put_u8_def unat_ucast_small)
  moreover have "unat x < 2 ^ 14 \<Longrightarrow> put_u16 (push_bit 14 1 OR ucast x) = be_bytes 2 (2 ^ 14 + unat x)"
    using unat_or_tag [of "push_bit 14 1 :: u16" 1 14 "ucast x"]
    by (simp add: put_u16_def unat_ucast_small)
  moreover have "unat x < 2 ^ 30 \<Longrightarrow> put_u32 (push_bit 30 2 OR ucast x) = be_bytes 4 (2 * 2 ^ 30 + unat x)"
    using unat_or_tag [of "push_bit 30 2 :: u32" 2 30 "ucast x"]
    by (simp add: put_u32_def unat_ucast_small)
  moreover have "unat x < 2 ^ 62 \<Longrightarrow> put_u64 (push_bit 62 3 OR x) = be_bytes 8 (3 * 2 ^ 62 + unat x)"
    using unat_or_tag [of "push_bit 62 3 :: u64" 3 62 x]
    by (simp add: put_u64_def)
  ultimately show ?thesis
    by (simp add: VarInt_encode_def Let_def)
qed

lemma be_bytes_Cons: "be_bytes (Suc k) n = of_nat (n div 256 ^ k mod 256) # be_bytes k n"
proof (induction k arbitrary: n)
  case (Suc k)
  have "be_bytes (Suc (Suc k)) n = be_bytes (Suc k) (n div 256) @ [of_nat (n mod 256)]"
    by (simp add: be_bytes.simps)
  also have "\<dots> = of_nat (n div 256 div 256 ^ k mod 256) # be_bytes (Suc k) n"
    using Suc.IH [of "n div 256"] by (simp add: be_bytes.simps)
  finally show ?case by (simp add: div_mult2_eq)
qed (simp add: be_bytes.simps)

lemma be_bytes_mod: "be_bytes k (n mod 256 ^ k) = be_bytes k n"
  using be_bytes_from_be [of "be_bytes k n"] by (simp add: from_be_be_bytes)

text \<open>
  Decoding a tagged big-endian integer: with \<open>8 k\<close> bits the tag is the top two bits and
  the value the rest.
\<close>

lemma tagged_first_byte:
  assumes "x < 64 * 256 ^ k" and "t < 4"
  defines "b \<equiv> (of_nat ((t * 64 * 256 ^ k + x) div 256 ^ k mod 256) :: byte)"
  shows "drop_bit 6 b = of_nat t" and "from_be ((b AND 63) # be_bytes k (t * 64 * 256 ^ k + x)) = x"
proof -
  define q where "q = x div 256 ^ k"
  have q: "q < 64"
    using assms(1) by (simp add: q_def less_mult_imp_div_less)
  have "(t * 64 * 256 ^ k + x) div 256 ^ k = t * 64 + q"
    by (simp add: q_def)
  moreover have "t * 64 + q < 256"
    using q assms(2) by simp
  ultimately have ub: "unat b = t * 64 + q"
    unfolding b_def unat_of_nat_byte by simp
  have "unat (drop_bit 6 b) = t"
    using q by (simp add: unat_drop_bit_byte ub)
  then show "drop_bit 6 b = of_nat t"
    by (metis of_nat_unat ucast_id)
  have u63: "unat (b AND 63) = q"
    using q by (simp add: unat_and_63 ub)
  have "of_nat q = b AND 63"
    unfolding u63 [symmetric] by simp
  moreover have "q mod 256 = q"
    using q by simp
  moreover have "be_bytes (Suc k) x = of_nat (q mod 256) # be_bytes k x"
    by (simp only: be_bytes_Cons q_def)
  moreover have "be_bytes k (t * 64 * 256 ^ k + x) = be_bytes k x"
    using be_bytes_mod [of k "t * 64 * 256 ^ k + x"] be_bytes_mod [of k x] by simp
  moreover have "x < 256 ^ Suc k"
    using assms(1) by simp
  ultimately show "from_be ((b AND 63) # be_bytes k (t * 64 * 256 ^ k + x)) = x"
    using from_be_be_bytes [of "Suc k" x] by (metis mod_less)
qed

lemma VarInt_decode_Cons:
  assumes "(t, k) \<in> {(0, 0), (1, 1), (2, 3), (3, 7)}" and "drop_bit 6 b = of_nat t"
    and "length bs = k"
  shows "VarInt_decode (b # bs @ rest) =
    Some (VarInt (of_nat (from_be ((b AND 63) # bs))), rest)"
proof -
  have one: "(ucast (b AND 63) :: u64) = of_nat (from_be [b AND 63])"
    by (simp add: from_be_def)
  from assms(1) consider "t = 0" "k = 0" | "t = 1" "k = 1" | "t = 2" "k = 3" | "t = 3" "k = 7"
    by auto
  then show ?thesis
    using assms(2,3) by cases (auto simp add: VarInt_decode_def Let_def one simp del: of_nat_unat)
qed

lemma VarInt_decode_tagged:
  assumes "x < 64 * 256 ^ k" and "(t, k) \<in> {(0, 0), (1, 1), (2, 3), (3, 7)}" and "n = Suc k"
  shows "VarInt_decode (be_bytes n (t * 64 * 256 ^ k + x) @ rest) =
    Some (VarInt (of_nat x), rest)"
proof -
  have "t < 4" using assms(2) by auto
  note fb = tagged_first_byte [OF assms(1) this]
  show ?thesis
    unfolding assms(3) be_bytes_Cons append_Cons
    using VarInt_decode_Cons [OF assms(2) fb(1), of "be_bytes k (t * 64 * 256 ^ k + x)" rest]
    by (simp only: fb(2) length_be_bytes)
qed

lemma VarInt_dec_enc:
  assumes "VarInt_ok v"
  shows "\<exists>bs. VarInt_encode v = Some bs \<and> VarInt_size v = Some (length bs) \<and>
           VarInt_decode (bs @ rest) = Some (v, rest)"
proof (cases v)
  case (VarInt x)
  have "unat x < 2 ^ 62" using assms VarInt by (simp add: VarInt_ok_def)
  then consider "unat x < 2 ^ 6" | "\<not> unat x < 2 ^ 6" "unat x < 2 ^ 14"
    | "\<not> unat x < 2 ^ 6" "\<not> unat x < 2 ^ 14" "unat x < 2 ^ 30"
    | "\<not> unat x < 2 ^ 6" "\<not> unat x < 2 ^ 14" "\<not> unat x < 2 ^ 30" "unat x < 2 ^ 62"
    by blast
  then show ?thesis
  proof cases
    case 1
    have "VarInt_decode (be_bytes 1 (0 * 64 * 256 ^ 0 + unat x) @ rest) =
        Some (VarInt (of_nat (unat x)), rest)"
      by (rule VarInt_decode_tagged) (use 1 in simp_all)
    with 1 VarInt show ?thesis
      by (simp add: VarInt_encode_be VarInt_size_nat)
  next
    case 2
    have "VarInt_decode (be_bytes 2 (1 * 64 * 256 ^ 1 + unat x) @ rest) =
        Some (VarInt (of_nat (unat x)), rest)"
      by (rule VarInt_decode_tagged) (use 2 in simp_all)
    with 2 VarInt show ?thesis
      by (simp add: VarInt_encode_be VarInt_size_nat)
  next
    case 3
    have "VarInt_decode (be_bytes 4 (2 * 64 * 256 ^ 3 + unat x) @ rest) =
        Some (VarInt (of_nat (unat x)), rest)"
      by (rule VarInt_decode_tagged) (use 3 in simp_all)
    with 3 VarInt show ?thesis
      by (simp add: VarInt_encode_be VarInt_size_nat)
  next
    case 4
    have "VarInt_decode (be_bytes 8 (3 * 64 * 256 ^ 7 + unat x) @ rest) =
        Some (VarInt (of_nat (unat x)), rest)"
      by (rule VarInt_decode_tagged) (use 4 in simp_all)
    with 4 VarInt show ?thesis
      by (simp add: VarInt_encode_be VarInt_size_nat)
  qed
qed


text \<open>The four cases of the decoder as one: the tag gives the number of bytes that follow.\<close>

definition varint_tail :: "byte \<Rightarrow> nat" where
  "varint_tail b =
     (if drop_bit 6 b = 0 then 0 else if drop_bit 6 b = 1 then 1 else if drop_bit 6 b = 2 then 3 else 7)"

lemma varint_tail_le: "varint_tail b \<le> 7"
  by (simp add: varint_tail_def)

lemma VarInt_decode_uniform:
  "VarInt_decode (b # r) =
     (if length r < varint_tail b then None
      else Some (VarInt (of_nat (from_be ((b AND 63) # take (varint_tail b) r))), drop (varint_tail b) r))"
proof -
  have one: "(ucast (b AND 63) :: u64) = of_nat (from_be [b AND 63])"
    by (simp add: from_be_def)
  show ?thesis
    by (simp add: VarInt_decode_def varint_tail_def Let_def one del: of_nat_unat)
qed

lemma VarInt_decode_bound:
  assumes "VarInt_decode (b # r) = Some (v, rest)"
  shows "unat (into_inner v) < 64 * 256 ^ varint_tail b"
    and "varint_tail b \<le> length r" and "rest = drop (varint_tail b) r"
proof -
  define k where "k = varint_tail b"
  define x where "x = from_be ((b AND 63) # take k r)"
  have v: "into_inner v = of_nat x" and k: "k \<le> length r" and rest: "rest = drop k r"
    using assms by (auto simp: VarInt_decode_uniform k_def x_def split: if_splits)
  show "varint_tail b \<le> length r" "rest = drop (varint_tail b) r"
    using k rest by (simp_all add: k_def)
  have "from_be (take k r) < 256 ^ k"
    using from_be_less [of "take k r"] k by simp
  moreover have "x = unat b mod 64 * 256 ^ k + from_be (take k r)"
    using k by (simp add: x_def from_be_Cons unat_and_63)
  ultimately have "x < 64 * 256 ^ k"
    using digit_bound [of "unat b mod 64" 64 "from_be (take k r)" "256 ^ k"] by simp
  moreover have "unat (of_nat x :: u64) \<le> x"
    by (simp add: unat_of_nat)
  ultimately show "unat (into_inner v) < 64 * 256 ^ varint_tail b"
    by (simp add: v k_def)
qed

lemma VarInt_decode_ok:
  assumes "VarInt_decode bs = Some (v, rest)"
  shows "VarInt_ok v"
proof (cases bs)
  case (Cons b r)
  then have "unat (into_inner v) < 64 * 256 ^ varint_tail b"
    using assms VarInt_decode_bound by blast
  also have "\<dots> \<le> 64 * 256 ^ 7"
    by (intro mult_le_mono2 power_increasing varint_tail_le) simp
  finally show ?thesis
    by (simp add: VarInt_ok_def)
qed (use assms in \<open>simp add: VarInt_decode_def\<close>)

section \<open>The codec interface\<close>

interpretation varint: codec VarInt_ok "\<lambda>v. the (VarInt_encode v)" VarInt_decode
proof unfold_locales
  show "VarInt_decode (the (VarInt_encode v) @ rest) = Some (v, rest)" if "VarInt_ok v" for v rest
    using VarInt_dec_enc [OF that, of rest] by auto
  show "\<exists>used. bs = used @ rest \<and> used \<noteq> []" if dec: "VarInt_decode bs = Some (v, rest)" for bs v rest
  proof (cases bs)
    case (Cons b r)
    then show ?thesis
      using dec VarInt_decode_bound(2,3) [of b r v rest] take_drop_consumes [of "Suc (varint_tail b)" bs]
      by simp
  qed (use dec in \<open>simp add: VarInt_decode_def\<close>)
qed

lemma be_codec:
  assumes "256 ^ k = (2 :: nat) ^ LENGTH('a::len)"
  shows "map_option (map_prod of_nat id) (get_be k (be_bytes k (unat (w :: 'a word)) @ rest)) = Some (w, rest)"
  using assms by (simp add: codec_simps)

lemmas be_codec_defs =
  put_u8_def put_u16_def put_u32_def put_u64_def u8_decode_def u16_decode_def u32_decode_def u64_decode_def

interpretation u8: codec "\<lambda>_. True" put_u8 u8_decode
  by unfold_locales (auto simp: be_codec_defs be_codec intro: get_be_consumes)

interpretation u16: codec "\<lambda>_. True" put_u16 u16_decode
  by unfold_locales (auto simp: be_codec_defs be_codec intro: get_be_consumes)

interpretation u32: codec "\<lambda>_. True" put_u32 u32_decode
  by unfold_locales (auto simp: be_codec_defs be_codec intro: get_be_consumes)

interpretation u64: codec "\<lambda>_. True" put_u64 u64_decode
  by unfold_locales (auto simp: be_codec_defs be_codec intro: get_be_consumes)

interpretation ipv4: codec "\<lambda>a. length a = 4" put_slice Ipv4Addr_decode
  by unfold_locales
    (auto simp: put_slice_def Ipv4Addr_decode_def octets_decode_def split: if_splits
      intro: take_drop_consumes)

interpretation ipv6: codec "\<lambda>a. length a = 16" put_slice Ipv6Addr_decode
  by unfold_locales
    (auto simp: put_slice_def Ipv6Addr_decode_def octets_decode_def split: if_splits
      intro: take_drop_consumes)

lemma write_var_get_var:
  assumes "unat x < 2 ^ 62"
  shows "\<exists>bs. write_var x = Some bs \<and> get_var (bs @ rest) = Some (x, rest)"
proof -
  have "VarInt_ok (VarInt x)" using assms by (simp add: VarInt_ok_def)
  then obtain bs where "VarInt_encode (VarInt x) = Some bs"
    and "VarInt_decode (bs @ rest) = Some (VarInt x, rest)"
    using VarInt_dec_enc by blast
  moreover have "VarInt_from_u64 x = Inr (VarInt x)"
    using assms by (simp add: VarInt_from_u64_def)
  ultimately show ?thesis
    by (simp add: write_var_def get_var_def)
qed

section \<open>Properties\<close>

text \<open>
  C21. Every value accepted by \<open>VarInt::from_u64\<close> is encoded without panic into exactly
  \<open>VarInt::size\<close> bytes, 1, 2, 4 or 8 of them, and decoding that encoding in front of any
  further bytes gives the value back and leaves the further bytes.
\<close>

theorem VarInt_roundtrip:
  assumes "VarInt_from_u64 x = Inr v"
  shows "\<exists>bs. VarInt_encode v = Some bs \<and> VarInt_size v = Some (length bs) \<and>
           length bs \<in> {1, 2, 4, 8} \<and> VarInt_decode (bs @ rest) = Some (v, rest)"
proof -
  have "VarInt_ok v" using assms VarInt_from_u64_ok by blast
  then obtain bs where "VarInt_encode v = Some bs" "VarInt_size v = Some (length bs)"
    "VarInt_decode (bs @ rest) = Some (v, rest)"
    using VarInt_dec_enc by blast
  moreover from this have "length bs \<in> {1, 2, 4, 8}"
    by (auto simp: VarInt_size_nat Let_def split: if_splits)
  ultimately show ?thesis by blast
qed

theorem VarInt_roundtrip_witness:
  "\<exists>bs. VarInt_encode (VarInt 15293) = Some bs \<and> VarInt_size (VarInt 15293) = Some (length bs) \<and>
     length bs \<in> {1, 2, 4, 8} \<and> VarInt_decode (bs @ [7]) = Some (VarInt 15293, [7])"
  by (rule VarInt_roundtrip [of 15293]) (simp add: VarInt_from_u64_def)

text \<open>
  Whatever bytes arrive, a successful decode yields a value below \<open>2^62\<close>: it can be
  encoded again without panic, and its encoding is never longer than the bytes the decoder
  consumed (a peer may use a longer form than necessary, this implementation never does).
\<close>

theorem VarInt_decode_minimal:
  assumes "VarInt_decode bs = Some (v, rest)"
  shows "\<exists>used enc. bs = used @ rest \<and> VarInt_encode v = Some enc \<and> length enc \<le> length used"
proof (cases bs)
  case (Cons b r)
  note bound = VarInt_decode_bound [OF assms [unfolded Cons]]
  obtain enc where enc: "VarInt_encode v = Some enc" and size: "VarInt_size v = Some (length enc)"
    using VarInt_dec_enc [OF VarInt_decode_ok [OF assms]] by blast
  have "varint_tail b \<in> {0, 1, 3, 7}"
    by (simp add: varint_tail_def)
  then have "length enc \<le> Suc (varint_tail b)"
    using size bound(1) by (auto simp: VarInt_size_nat Let_def split: if_splits)
  moreover have "bs = (b # take (varint_tail b) r) @ rest"
    using Cons bound(3) by simp
  ultimately show ?thesis
    using enc bound(2) by (intro exI [where x = "b # take (varint_tail b) r"] exI [where x = enc]) simp
qed (use assms in \<open>simp add: VarInt_decode_def\<close>)

theorem VarInt_decode_minimal_witness:
  "\<exists>used enc. [0x40, 0x25, 9 :: byte] = used @ [9] \<and> VarInt_encode (VarInt 37) = Some enc \<and>
     length enc \<le> length used"
  by (rule VarInt_decode_minimal) code_simp

end
