(* ===== verification/Range_Set.thy ===== *)
theory Range_Set
  imports Prelude
begin

text \<open>
  \<open>ArrayRangeSet\<close> (\<open>noq-proto/src/range_set/array_range_set.rs\<close>): a set of offsets kept as
  an array of ranges.  The array is a list; a loop over the index \<open>idx\<close> is a recursion over
  the part of the list from \<open>idx\<close> on.  The invariant says that the ranges are non-empty,
  sorted and separated by gaps; every operation keeps it and implements the operation on
  sets of offsets.
\<close>

section \<open>Definitions\<close>

type_synonym ArrayRangeSet = "range list"

definition range_is_empty :: "range \<Rightarrow> bool" where
  "range_is_empty x = (\<not> fst x < snd x)"

text \<open>The inner loop of \<open>insert\<close>: merge the follow-up ranges that overlap.\<close>

fun ars_merge :: "range \<Rightarrow> range list \<Rightarrow> range list" where
  "ars_merge cur [] = [cur]"
| "ars_merge cur (nxt # rest) =
     (if snd cur \<ge> fst nxt then ars_merge (fst cur, max (snd nxt) (snd cur)) rest
      else cur # nxt # rest)"

text \<open>The outer loop of \<open>insert\<close>; \<open>result\<close> is the flag of the source.\<close>

fun ars_insert_loop :: "bool \<Rightarrow> range \<Rightarrow> range list \<Rightarrow> bool \<times> range list" where
  "ars_insert_loop result x [] = (True, [x])"
| "ars_insert_loop result x (r # rs) =
     (if fst r > snd x then (True, x # r # rs)
      else
        let (result, r) = (if fst r > fst x then (True, (fst x, snd r)) else (result, r)) in
        if snd x \<le> snd r then (result, r # rs)
        else if fst x \<le> snd r then (True, ars_merge (fst r, snd x) rs)
        else let (b, rs') = ars_insert_loop result x rs in (b, r # rs'))"

definition ars_insert :: "range \<Rightarrow> ArrayRangeSet \<Rightarrow> bool \<times> ArrayRangeSet" where
  "ars_insert x s = (if range_is_empty x then (False, s) else ars_insert_loop False x s)"

definition ars_insert_one :: "nat \<Rightarrow> ArrayRangeSet \<Rightarrow> bool \<times> ArrayRangeSet" where
  "ars_insert_one x s = ars_insert (x, x + 1) s"

fun ars_remove_loop :: "bool \<Rightarrow> range \<Rightarrow> range list \<Rightarrow> bool \<times> range list" where
  "ars_remove_loop result x [] = (result, [])"
| "ars_remove_loop result x (r # rs) =
     (if fst x = snd x then (result, r # rs)
      else if snd x \<le> fst r then (result, r # rs)
      else if fst x \<ge> snd r then
        let (b, rs') = ars_remove_loop result x rs in (b, r # rs')
      else
        let left = (fst r, fst x); right = (snd x, snd r);
            (b, rs') = ars_remove_loop True x rs in
        if range_is_empty left \<and> range_is_empty right then (b, rs')
        else if range_is_empty left then (b, right # rs')
        else if range_is_empty right then (b, left # rs')
        else (b, left # right # rs'))"

definition ars_remove :: "range \<Rightarrow> ArrayRangeSet \<Rightarrow> bool \<times> ArrayRangeSet" where
  "ars_remove x s = (if range_is_empty x then (False, s) else ars_remove_loop False x s)"

fun ars_contains :: "nat \<Rightarrow> ArrayRangeSet \<Rightarrow> bool" where
  "ars_contains x [] = False"
| "ars_contains x (r # rs) =
     (if fst r > x then False else if fst r \<le> x \<and> x < snd r then True else ars_contains x rs)"

definition ars_iter_range :: "range \<Rightarrow> ArrayRangeSet \<Rightarrow> range list" where
  "ars_iter_range q s =
     List.map_filter (\<lambda>r. if snd r > fst q \<and> fst r < snd q
                     then Some (max (fst r) (fst q), min (snd r) (snd q)) else None) s"

definition ars_elts :: "ArrayRangeSet \<Rightarrow> nat list" where
  "ars_elts s = concat (map (\<lambda>r. [fst r..<snd r]) s)"

definition ars_is_empty :: "ArrayRangeSet \<Rightarrow> bool" where
  "ars_is_empty s = (s = [])"

definition ars_pop_min :: "ArrayRangeSet \<Rightarrow> range option \<times> ArrayRangeSet" where
  "ars_pop_min s = (case s of [] \<Rightarrow> (None, []) | r # rs \<Rightarrow> (Some r, rs))"

definition ars_min :: "ArrayRangeSet \<Rightarrow> nat option" where
  "ars_min s = (case s of [] \<Rightarrow> None | r # _ \<Rightarrow> Some (fst r))"

text \<open>\<open>x.end - 1\<close> is an unsigned subtraction: the outer option is \<open>None\<close> where it panics.\<close>

definition ars_max :: "ArrayRangeSet \<Rightarrow> nat option option" where
  "ars_max s = (if s = [] then Some None else map_option Some (csub (snd (last s)) 1))"

section \<open>Invariant and abstraction\<close>

definition ars_set :: "ArrayRangeSet \<Rightarrow> nat set" where
  "ars_set s = (\<Union>r \<in> set s. rset r)"

fun ars_inv :: "ArrayRangeSet \<Rightarrow> bool" where
  "ars_inv [] = True"
| "ars_inv (r # rs) = (fst r < snd r \<and> (\<forall>q \<in> set rs. snd r < fst q) \<and> ars_inv rs)"

lemma ars_set_Nil [simp]: "ars_set [] = {}"
  by (simp add: ars_set_def)

lemma ars_set_Cons [simp]: "ars_set (r # rs) = {fst r..<snd r} \<union> ars_set rs"
  by (auto simp: ars_set_def rset_def)

lemma ars_set_append [simp]: "ars_set (xs @ ys) = ars_set xs \<union> ars_set ys"
  by (simp add: ars_set_def)

lemma ars_inv_bounds: "ars_inv rs \<Longrightarrow> q \<in> set rs \<Longrightarrow> fst q < snd q"
  by (induction rs) auto

lemma ars_set_lower: "\<forall>q \<in> set rs. m < fst q \<Longrightarrow> x \<in> ars_set rs \<Longrightarrow> m < x"
  by (auto simp: ars_set_def rset_def)

lemma ars_inv_disjoint: "ars_inv (r # rs) \<Longrightarrow> {fst r..<snd r} \<inter> ars_set rs = {}"
  using ars_set_lower [of rs "snd r"] by fastforce

lemma finite_ars_set [simp]: "finite (ars_set s)"
  by (simp add: ars_set_def)

section \<open>Insertion\<close>

lemma ars_merge_spec:
  assumes "ars_inv rs" and "fst c < snd c" and "\<forall>q \<in> set rs. fst c \<le> fst q"
  shows "ars_inv (ars_merge c rs) \<and> ars_set (ars_merge c rs) = {fst c..<snd c} \<union> ars_set rs \<and>
         (\<forall>q \<in> set (ars_merge c rs). fst c \<le> fst q)"
  using assms
proof (induction c rs rule: ars_merge.induct)
  case (2 c n rs)
  show ?case
  proof (cases "snd c \<ge> fst n")
    case True
    have "{fst c..<snd c} \<union> {fst n..<snd n} = {fst c..<max (snd n) (snd c)}"
      using True "2.prems" by auto
    then show ?thesis
      using True "2.IH" "2.prems" by (auto simp: Un_assoc [symmetric])
  next
    case False
    then show ?thesis
      using "2.prems" by force
  qed
qed auto

lemma ars_insert_loop_spec:
  assumes "ars_inv s" and "fst x < snd x"
  shows "ars_inv (snd (ars_insert_loop b x s)) \<and>
         ars_set (snd (ars_insert_loop b x s)) = ars_set s \<union> {fst x..<snd x} \<and>
         (\<forall>m. m < fst x \<longrightarrow> (\<forall>q \<in> set s. m < fst q) \<longrightarrow>
            (\<forall>q \<in> set (snd (ars_insert_loop b x s)). m < fst q)) \<and>
         fst (ars_insert_loop b x s) = ({fst x..<snd x} \<subseteq> ars_set s \<longrightarrow> b)"
  using assms
proof (induction b x s rule: ars_insert_loop.induct)
  case (2 b x r rs)
  have r: "fst r < snd r" and sep: "\<forall>q \<in> set rs. snd r < fst q" and rs: "ars_inv rs"
    and x: "fst x < snd x"
    using "2.prems" by auto
  have out: "y \<notin> ars_set rs" if "y \<le> snd r" for y
    using ars_set_lower [OF sep] that by (meson not_le)
  consider (before) "fst r > snd x"
    | (left) "fst r \<le> snd x" "snd x \<le> snd r" "fst x < fst r"
    | (inside) "fst r \<le> fst x" "snd x \<le> snd r"
    | (extend) "fst r \<le> snd x" "snd x > snd r" "fst x \<le> snd r"
    | (after) "snd r < fst x"
    by linarith
  then show ?case
  proof cases
    case before
    have eq: "ars_insert_loop b x (r # rs) = (True, x # r # rs)"
      using before by simp
    have "fst x \<notin> ars_set (r # rs)"
      using before x r out by simp
    then have "\<not> {fst x..<snd x} \<subseteq> ars_set (r # rs)"
      using x by (metis atLeastLessThan_iff le_refl subsetD)
    moreover have "\<forall>q \<in> set (r # rs). snd x < fst q"
      using before sep r by fastforce
    ultimately show ?thesis
      unfolding eq using "2.prems" x by (simp add: Un_commute)
  next
    case left
    have eq: "ars_insert_loop b x (r # rs) = (True, (fst x, snd r) # rs)"
      using left by simp
    have "fst x \<notin> ars_set (r # rs)"
      using left r out by simp
    then have "\<not> {fst x..<snd x} \<subseteq> ars_set (r # rs)"
      using x by (metis atLeastLessThan_iff le_refl subsetD)
    moreover have "{fst x..<snd r} = {fst r..<snd r} \<union> {fst x..<snd x}"
      using left r by auto
    ultimately show ?thesis
      unfolding eq using left "2.prems" by (simp add: Un_ac)
  next
    case inside
    have eq: "ars_insert_loop b x (r # rs) = (b, r # rs)"
      using inside x by simp
    have "{fst x..<snd x} \<subseteq> {fst r..<snd r}"
      using inside by simp
    then have "{fst x..<snd x} \<subseteq> ars_set (r # rs)"
      by (simp add: le_supI1)
    then show ?thesis
      unfolding eq using "2.prems" by (simp add: Un_absorb2)
  next
    case extend
    define c where "c = (min (fst x) (fst r), snd x)"
    have eq: "ars_insert_loop b x (r # rs) = (True, ars_merge c rs)"
      using extend by (simp add: c_def min_def)
    have c: "fst c < snd c" "\<forall>q \<in> set rs. fst c \<le> fst q"
      using sep r x extend by (auto simp: c_def)
    note merged = ars_merge_spec [OF rs this]
    have "{fst c..<snd c} = {fst r..<snd r} \<union> {fst x..<snd x}"
      using extend r x by (auto simp: c_def)
    moreover have "snd r \<notin> ars_set (r # rs)" and "snd r \<in> {fst x..<snd x}"
      using out extend by auto
    moreover have "\<forall>q \<in> set (ars_merge c rs). m < fst q" if "m < fst x" "m < fst r" for m
      using merged that by (force simp: c_def)
    ultimately show ?thesis
      unfolding eq using merged by auto
  next
    case after
    then have g: "\<not> fst r > snd x" "\<not> fst r > fst x" "\<not> snd x \<le> snd r" "\<not> fst x \<le> snd r"
      using r x by auto
    then have eq: "ars_insert_loop b x (r # rs) =
        (fst (ars_insert_loop b x rs), r # snd (ars_insert_loop b x rs))"
      by (simp add: split_beta)
    have "{fst x..<snd x} \<subseteq> ars_set (r # rs) \<longleftrightarrow> {fst x..<snd x} \<subseteq> ars_set rs"
      using after by auto
    moreover have IH: "ars_inv (snd (ars_insert_loop b x rs)) \<and>
       ars_set (snd (ars_insert_loop b x rs)) = ars_set rs \<union> {fst x..<snd x} \<and>
       (\<forall>m. m < fst x \<longrightarrow> (\<forall>q \<in> set rs. m < fst q) \<longrightarrow>
            (\<forall>q \<in> set (snd (ars_insert_loop b x rs)). m < fst q)) \<and>
       fst (ars_insert_loop b x rs) = ({fst x..<snd x} \<subseteq> ars_set rs \<longrightarrow> b)"
      by (rule "2.IH" [of "(b, r)" b r]) (use g rs x in simp_all)
    ultimately show ?thesis
      unfolding eq using r sep after by (simp add: Un_assoc)
  qed
qed auto

lemma ars_insert_inv: "ars_inv s \<Longrightarrow> ars_inv (snd (ars_insert x s))"
  and ars_insert_set: "ars_inv s \<Longrightarrow> ars_set (snd (ars_insert x s)) = ars_set s \<union> rset x"
  and ars_insert_flag: "ars_inv s \<Longrightarrow> fst (ars_insert x s) \<longleftrightarrow> \<not> rset x \<subseteq> ars_set s"
  using ars_insert_loop_spec [of s x False]
  by (auto simp: ars_insert_def range_is_empty_def rset_def)

section \<open>Removal\<close>

lemma ars_remove_loop_spec:
  assumes "ars_inv s" and "fst x < snd x"
  shows "ars_inv (snd (ars_remove_loop b x s)) \<and>
         ars_set (snd (ars_remove_loop b x s)) = ars_set s - {fst x..<snd x} \<and>
         (\<forall>m. (\<forall>q \<in> set s. m < fst q) \<longrightarrow> (\<forall>q \<in> set (snd (ars_remove_loop b x s)). m < fst q)) \<and>
         fst (ars_remove_loop b x s) = (b \<or> {fst x..<snd x} \<inter> ars_set s \<noteq> {})"
  using assms
proof (induction b x s rule: ars_remove_loop.induct)
  case (2 b x r rs)
  have r: "fst r < snd r" and sep: "\<forall>q \<in> set rs. snd r < fst q" and rs: "ars_inv rs"
    and x: "fst x < snd x"
    using "2.prems" by auto
  consider (before) "snd x \<le> fst r" | (after) "snd r \<le> fst x"
    | (overlap) "fst r < snd x" "fst x < snd r"
    by linarith
  then show ?case
  proof cases
    case before
    have eq: "ars_remove_loop b x (r # rs) = (b, r # rs)"
      using before x by simp
    have "{fst x..<snd x} \<inter> ars_set (r # rs) = {}"
      using before r ars_set_lower [OF sep] by fastforce
    then show ?thesis
      unfolding eq using "2.prems" by (simp add: Diff_triv inf_commute)
  next
    case after
    then have g: "fst x \<noteq> snd x" "\<not> snd x \<le> fst r" "fst x \<ge> snd r"
      using x r by auto
    then have eq: "ars_remove_loop b x (r # rs) =
        (fst (ars_remove_loop b x rs), r # snd (ars_remove_loop b x rs))"
      by (simp add: split_beta)
    have "{fst r..<snd r} \<inter> {fst x..<snd x} = {}"
      using after by auto
    then have "ars_set (r # rs) - {fst x..<snd x} = {fst r..<snd r} \<union> (ars_set rs - {fst x..<snd x})"
      and "{fst x..<snd x} \<inter> ars_set (r # rs) = {fst x..<snd x} \<inter> ars_set rs"
      by auto
    moreover note "2.IH"(1) [OF g rs x]
    ultimately show ?thesis
      unfolding eq using r sep by simp
  next
    case overlap
    then have g: "fst x \<noteq> snd x" "\<not> snd x \<le> fst r" "\<not> fst x \<ge> snd r"
      using x by auto
    obtain b' rs' where call: "ars_remove_loop True x rs = (b', rs')"
      by fastforce
    have IH: "ars_inv rs'" "ars_set rs' = ars_set rs - {fst x..<snd x}" "b'"
      "\<forall>q \<in> set rs'. snd r < fst q"
      using "2.IH"(2) [OF g refl refl rs x] sep by (simp_all add: call)
    define pieces where "pieces = filter (\<lambda>q. fst q < snd q) [(fst r, fst x), (snd x, snd r)]"
    have eq: "ars_remove_loop b x (r # rs) = (b', pieces @ rs')"
      using g by (simp add: call pieces_def range_is_empty_def)
    have "fst x \<in> {fst r..<snd r} \<or> fst r \<in> {fst x..<snd x}"
      using overlap by auto
    then have "{fst x..<snd x} \<inter> ars_set (r # rs) \<noteq> {}"
      using x r by auto
    moreover have "ars_set pieces = {fst r..<fst x} \<union> {snd x..<snd r}"
      by (simp add: pieces_def)
    moreover have "{fst r..<fst x} \<union> {snd x..<snd r} = {fst r..<snd r} - {fst x..<snd x}"
      using overlap x by auto
    ultimately have "ars_set (pieces @ rs') = ars_set (r # rs) - {fst x..<snd x}"
      and "{fst x..<snd x} \<inter> ars_set (r # rs) \<noteq> {}"
      using IH(2) by (simp_all add: Un_Diff)
    moreover have "\<forall>q \<in> set rs'. fst x < fst q"
      using overlap IH(4) by (meson less_trans)
    then have "ars_inv (pieces @ rs')"
      using IH(1,4) x by (simp add: pieces_def)
    moreover have "\<forall>q \<in> set (pieces @ rs'). m < fst q" if "m < fst r" for m
    proof -
      have "\<forall>q \<in> set rs'. m < fst q"
        using that IH(4) r by (meson less_trans)
      then show ?thesis
        using that overlap by (simp add: pieces_def)
    qed
    ultimately show ?thesis
      unfolding eq using IH(3) by simp
  qed
qed auto

lemma ars_remove_inv: "ars_inv s \<Longrightarrow> ars_inv (snd (ars_remove x s))"
  and ars_remove_set: "ars_inv s \<Longrightarrow> ars_set (snd (ars_remove x s)) = ars_set s - rset x"
  and ars_remove_flag: "ars_inv s \<Longrightarrow> fst (ars_remove x s) \<longleftrightarrow> rset x \<inter> ars_set s \<noteq> {}"
  using ars_remove_loop_spec [of s x False]
  by (auto simp: ars_remove_def range_is_empty_def rset_def)

section \<open>Queries\<close>

lemma ars_contains_set: "ars_inv s \<Longrightarrow> ars_contains x s \<longleftrightarrow> x \<in> ars_set s"
  by (induction x s rule: ars_contains.induct) (auto dest: ars_set_lower)

lemma ars_set_empty_iff: "ars_inv s \<Longrightarrow> ars_set s = {} \<longleftrightarrow> s = []"
  by (cases s) auto

lemma ars_min_set: "ars_inv s \<Longrightarrow> s \<noteq> [] \<Longrightarrow> ars_min s = Some (Min (ars_set s))"
proof (cases s)
  case (Cons r rs)
  moreover assume "ars_inv s"
  ultimately have "fst r \<le> y" if "y \<in> ars_set s" for y
    using that ars_set_lower [of rs "snd r" y] by auto
  then have "Min (ars_set s) = fst r"
    using Cons \<open>ars_inv s\<close> by (intro Min_eqI) auto
  then show ?thesis
    by (simp add: Cons ars_min_def)
qed simp

lemma ars_last_max:
  assumes "ars_inv s" and "s \<noteq> []"
  shows "snd (last s) > 0 \<and> snd (last s) - 1 \<in> ars_set s \<and> (\<forall>x \<in> ars_set s. x < snd (last s))"
  using assms
proof (induction s)
  case (Cons r rs)
  show ?case
  proof (cases "rs = []")
    case False
    then have "snd r < fst (last rs)" "fst (last rs) < snd (last rs)"
      using Cons.prems ars_inv_bounds by auto
    then have "x < snd (last rs)" if "x < snd r" for x
      using that by simp
    then show ?thesis
      using Cons False by auto
  qed (use Cons in auto)
qed simp

lemma ars_max_set: "ars_inv s \<Longrightarrow> s \<noteq> [] \<Longrightarrow> ars_max s = Some (Some (Max (ars_set s)))"
  using ars_last_max [of s]
  by (auto simp: ars_max_def csub_def intro!: Max_eqI [symmetric])

lemma ars_pop_min_Some:
  assumes "ars_inv s" and "ars_pop_min s = (Some r, s')"
  shows "fst r < snd r" and "ars_inv s'" and "ars_set s = rset r \<union> ars_set s'"
    and "\<forall>y \<in> ars_set s'. snd r < y" and "s = r # s'"
  using assms by (auto simp: ars_pop_min_def rset_def dest: ars_set_lower split: list.splits)

lemma ars_iter_range_set: "ars_set (ars_iter_range q s) = ars_set s \<inter> rset q"
proof -
  have "rset (max (fst r) (fst q), min (snd r) (snd q)) = rset r \<inter> rset q" for r
    by (auto simp: rset_def)
  moreover have "rset r \<inter> rset q = {}" if "\<not> (snd r > fst q \<and> fst r < snd q)" for r
    using that by (auto simp: rset_def)
  ultimately have "ars_set (ars_iter_range q (r # s)) = (rset r \<inter> rset q) \<union> ars_set (ars_iter_range q s)"
    for r s
    unfolding ars_iter_range_def map_filter_simps ars_set_def by simp
  then show ?thesis
    by (induction s) (simp_all add: ars_iter_range_def map_filter_simps Int_Un_distrib2 rset_def)
qed

lemma ars_elts_set: "set (ars_elts s) = ars_set s"
  by (auto simp: ars_elts_def ars_set_def rset_def)

lemma ars_elts_sorted: "ars_inv s \<Longrightarrow> sorted_wrt (<) (ars_elts s)"
  by (induction s) (fastforce simp: ars_elts_def sorted_wrt_append)+

text \<open>The number of offsets in the set is the sum of the lengths of the ranges.\<close>

lemma ars_card: "ars_inv s \<Longrightarrow> card (ars_set s) = sum_list (map rlen s)"
proof (induction s)
  case (Cons r rs)
  show ?case
    using Cons ars_inv_disjoint [OF Cons.prems] by (simp add: card_Un_disjoint rlen_def)
qed simp

section \<open>The interface of an offset set\<close>

text \<open>
  What the clients (the send buffer, the assembler, the acknowledgement state) rely on: a
  representation with an abstraction to a finite set of offsets, on which \<open>insert\<close> and
  \<open>remove\<close> are union and difference and \<open>pop_min\<close> splits off the first maximal range.
\<close>

locale offset_set =
  fixes inv :: "'s \<Rightarrow> bool" and abs :: "'s \<Rightarrow> nat set" and new :: 's
    and insert :: "range \<Rightarrow> 's \<Rightarrow> bool \<times> 's" and remove :: "range \<Rightarrow> 's \<Rightarrow> bool \<times> 's"
    and pop_min :: "'s \<Rightarrow> range option \<times> 's"
  assumes new_inv: "inv new" and new_abs: "abs new = {}"
    and finite_abs: "finite (abs s)"
    and insert_inv: "inv s \<Longrightarrow> inv (snd (insert r s))"
    and insert_abs: "inv s \<Longrightarrow> abs (snd (insert r s)) = abs s \<union> rset r"
    and remove_inv: "inv s \<Longrightarrow> inv (snd (remove r s))"
    and remove_abs: "inv s \<Longrightarrow> abs (snd (remove r s)) = abs s - rset r"
    and pop_min_inv: "inv s \<Longrightarrow> inv (snd (pop_min s))"
    and pop_min_None: "inv s \<Longrightarrow> fst (pop_min s) = None \<longleftrightarrow> abs s = {}"
    and pop_min_Some: "inv s \<Longrightarrow> fst (pop_min s) = Some r \<Longrightarrow>
      fst r < snd r \<and> abs s = rset r \<union> abs (snd (pop_min s)) \<and>
      (\<forall>y \<in> abs (snd (pop_min s)). snd r < y)"
begin

lemma fold_insert:
  "inv s \<Longrightarrow> inv (fold (\<lambda>r s. snd (insert r s)) rs s) \<and>
     abs (fold (\<lambda>r s. snd (insert r s)) rs s) = abs s \<union> (\<Union>r \<in> set rs. rset r)"
  by (induction rs arbitrary: s) (auto simp: insert_inv insert_abs)

lemma pop_min_card:
  assumes "inv s" and "fst (pop_min s) = Some r"
  shows "card (abs (snd (pop_min s))) < card (abs s)"
proof (rule psubset_card_mono [OF finite_abs])
  have "fst r \<in> abs s" "fst r \<notin> abs (snd (pop_min s))"
    using pop_min_Some [OF assms] by (auto simp: rset_def)
  then show "abs (snd (pop_min s)) \<subset> abs s"
    using pop_min_Some [OF assms] by auto
qed

lemma pop_min_subset: "inv s \<Longrightarrow> abs (snd (pop_min s)) \<subseteq> abs s \<or> fst (pop_min s) = None"
  using pop_min_Some [of s] by (cases "fst (pop_min s)") auto

text \<open>Taking a range out and putting the unused part back leaves exactly the part used out.\<close>

lemma pop_put_back:
  assumes "inv s" and "fst (pop_min s) = Some r" and "fst r \<le> e" and "e \<le> snd r"
  shows "abs (snd (insert (e, snd r) (snd (pop_min s)))) = abs s - {fst r..<e}"
  using pop_min_Some [OF assms(1,2)] assms
  by (auto simp: insert_abs pop_min_inv rset_def)

end

interpretation ars: offset_set ars_inv ars_set "[]" ars_insert ars_remove ars_pop_min
proof unfold_locales
  fix s r
  assume inv: "ars_inv s" and pop: "fst (ars_pop_min s) = Some r"
  then show "fst r < snd r \<and> ars_set s = rset r \<union> ars_set (snd (ars_pop_min s)) \<and>
      (\<forall>y \<in> ars_set (snd (ars_pop_min s)). snd r < y)"
    using ars_pop_min_Some [OF inv] by (metis prod.collapse)
qed (auto simp: ars_insert_inv ars_insert_set ars_remove_inv ars_remove_set ars_pop_min_def
       split: list.splits)

section \<open>Properties\<close>

lemma ars_set_least: "ars_inv (r # rs) \<Longrightarrow> x \<in> ars_set (r # rs) \<Longrightarrow> fst r \<le> x"
  using ars_set_lower [of rs "snd r" x] by auto

lemma ars_set_gap: "ars_inv (r # rs) \<Longrightarrow> snd r \<notin> ars_set (r # rs)"
  using ars_set_lower [of rs "snd r" "snd r"] by auto

lemma ars_head_unique:
  assumes "ars_inv (r # rs)" and "ars_inv (q # qs)" and eq: "ars_set (r # rs) = ars_set (q # qs)"
  shows "r = q"
proof -
  have in_set: "fst r \<in> ars_set (r # rs)" "fst q \<in> ars_set (q # qs)"
    using assms by auto
  then have fst: "fst r = fst q"
    using ars_set_least assms by (metis le_antisym)
  have "snd r \<notin> ars_set (q # qs)" "snd q \<notin> ars_set (r # rs)"
    using ars_set_gap assms by metis+
  then have "\<not> (fst q \<le> snd r \<and> snd r < snd q)" "\<not> (fst r \<le> snd q \<and> snd q < snd r)"
    by auto
  then have "snd r = snd q"
    using fst assms(1,2) by auto
  with fst show ?thesis
    by (simp add: prod_eq_iff)
qed

lemma ars_canonical_aux:
  "ars_inv s \<Longrightarrow> ars_inv t \<Longrightarrow> ars_set s = ars_set t \<Longrightarrow> s = t"
proof (induction s arbitrary: t)
  case Nil
  then show ?case
    using ars_set_empty_iff by metis
next
  case (Cons r rs)
  obtain q qs where t: "t = q # qs"
    using Cons.prems ars_set_empty_iff [of t] by (cases t) auto
  have q: "r = q"
    using Cons.prems t ars_head_unique by metis
  have "ars_set xs = ars_set (x # xs) - {fst x..<snd x}" if "ars_inv (x # xs)" for x xs
    using ars_inv_disjoint [OF that] by auto
  then have "ars_set rs = ars_set qs"
    using Cons.prems q t by metis
  then show ?case
    using Cons q t by simp
qed

text \<open>
  C22: \<open>ArrayRangeSet::insert\<close> keeps the array sorted with non-empty, non-adjacent ranges, adds exactly
  the offsets of the range to the set, and returns whether the set has changed.
\<close>

theorem ars_insert_correct:
  assumes "ars_inv s"
  shows "ars_inv (snd (ars_insert x s)) \<and> ars_set (snd (ars_insert x s)) = ars_set s \<union> rset x \<and>
         fst (ars_insert x s) = (ars_set (snd (ars_insert x s)) \<noteq> ars_set s)"
  using assms by (auto simp: ars_insert_inv ars_insert_set ars_insert_flag)

theorem ars_insert_correct_witness:
  "ars_inv (snd (ars_insert (3, 7) [(1, 4), (6, 8), (10, 12)])) \<and>
   ars_set (snd (ars_insert (3, 7) [(1, 4), (6, 8), (10, 12)])) =
     ars_set [(1, 4), (6, 8), (10, 12)] \<union> rset (3, 7) \<and>
   snd (ars_insert (3, 7) [(1, 4), (6, 8), (10, 12)]) = [(1, 8), (10, 12)]"
  using ars_insert_correct [of "[(1, 4), (6, 8), (10, 12)]" "(3, 7)"]
  by (simp add: ars_insert_def range_is_empty_def)

text \<open>
  \<open>ArrayRangeSet::remove\<close> keeps the representation invariant, deletes exactly the offsets of
  the range, and returns whether any of them was present.
\<close>

theorem ars_remove_correct:
  assumes "ars_inv s"
  shows "ars_inv (snd (ars_remove x s)) \<and> ars_set (snd (ars_remove x s)) = ars_set s - rset x \<and>
         fst (ars_remove x s) = (ars_set (snd (ars_remove x s)) \<noteq> ars_set s)"
  using assms by (auto simp: ars_remove_inv ars_remove_set ars_remove_flag)

theorem ars_remove_correct_witness:
  "ars_inv (snd (ars_remove (3, 7) [(1, 9), (10, 12)])) \<and>
   ars_set (snd (ars_remove (3, 7) [(1, 9), (10, 12)])) = ars_set [(1, 9), (10, 12)] - rset (3, 7) \<and>
   snd (ars_remove (3, 7) [(1, 9), (10, 12)]) = [(1, 3), (7, 9), (10, 12)]"
  using ars_remove_correct [of "[(1, 9), (10, 12)]" "(3, 7)"]
  by (simp add: ars_remove_def range_is_empty_def)

text \<open>
  the representation is canonical: two arrays that satisfy the invariant and hold the
  same offsets are the same array, so the result of any sequence of insertions and removals depends
  on the resulting set only.
\<close>

theorem ars_canonical:
  "ars_inv s \<Longrightarrow> ars_inv t \<Longrightarrow> ars_set s = ars_set t \<Longrightarrow> s = t"
  by (rule ars_canonical_aux)

theorem ars_canonical_witness:
  "snd (ars_insert (4, 6) (snd (ars_insert (0, 4) []))) = snd (ars_insert (0, 5) (snd (ars_insert (2, 6) [])))"
  by (rule ars_canonical) (auto simp: ars_insert_inv ars_insert_set rset_def)

end
