(* ===== verification/Send_Buffer.thy ===== *)
theory Send_Buffer
  imports Range_Set Var_Int
begin

text \<open>
  The send buffer of a stream (\<open>noq-proto/src/connection/send_buffer.rs\<close>).

  \<open>SendBufferData\<close> stores the bytes from the first unacknowledged offset on, in segments;
  it implements a byte queue with an absolute base offset.  \<open>SendBuffer\<close> adds which of these
  bytes have been sent, acknowledged, or declared lost.  The last part puts the operations
  together as the life of a stream: the application writes, packets are sent, acknowledged
  and lost, in any order.
\<close>

section \<open>Definitions\<close>

definition MAX_COMBINE :: nat where
  "MAX_COMBINE = 1452"

record SendBufferData =
  sbd_offset :: nat
  sbd_len :: nat
  sbd_segments :: "byte list list"
  sbd_last_segment :: "byte list"

definition sbd_new :: SendBufferData where
  "sbd_new = \<lparr>sbd_offset = 0, sbd_len = 0, sbd_segments = [], sbd_last_segment = []\<rparr>"

definition sbd_range :: "SendBufferData \<Rightarrow> range" where
  "sbd_range s = (sbd_offset s, sbd_offset s + sbd_len s)"

definition sbd_append :: "byte list \<Rightarrow> SendBufferData \<Rightarrow> SendBufferData option" where
  "sbd_append data s =
     (let s = s\<lparr>sbd_len := sbd_len s + length data\<rparr> in
      if length data > MAX_COMBINE then
        let s = (if sbd_last_segment s \<noteq> []
                 then s\<lparr>sbd_segments := sbd_segments s @ [sbd_last_segment s], sbd_last_segment := []\<rparr>
                 else s) in
        Some (s\<lparr>sbd_segments := sbd_segments s @ [data]\<rparr>)
      else do {
        (s, rest) \<leftarrow>
          (if length (sbd_last_segment s) + length data > MAX_COMBINE \<and> sbd_last_segment s \<noteq> []
           then do {
             let capacity = MAX_COMBINE - length (sbd_last_segment s);
             (cur, rest) \<leftarrow> split_at capacity data;
             Some (s\<lparr>sbd_segments := sbd_segments s @ [sbd_last_segment s @ cur],
                     sbd_last_segment := []\<rparr>, rest) }
           else Some (s, data));
        Some (s\<lparr>sbd_last_segment := sbd_last_segment s @ rest\<rparr>) })"

text \<open>The loop of \<open>pop_front\<close> over the full segments.\<close>

fun sbd_pop_segments :: "nat \<Rightarrow> byte list list \<Rightarrow> nat \<times> byte list list" where
  "sbd_pop_segments n [] = (n, [])"
| "sbd_pop_segments n (front # segs) =
     (if n > 0 then
        if length front \<le> n then sbd_pop_segments (n - length front) segs
        else (0, drop n front # segs)
      else (n, front # segs))"

definition sbd_pop_front :: "nat \<Rightarrow> SendBufferData \<Rightarrow> SendBufferData option" where
  "sbd_pop_front n s =
     (let n = min n (sbd_len s);
          (m, segs) = sbd_pop_segments n (sbd_segments s) in
      if m \<le> length (sbd_last_segment s) then
        Some \<lparr>sbd_offset = sbd_offset s + n, sbd_len = sbd_len s - n, sbd_segments = segs,
              sbd_last_segment = drop m (sbd_last_segment s)\<rparr>
      else None)"

definition sbd_segments_iter :: "SendBufferData \<Rightarrow> byte list list" where
  "sbd_segments_iter s = sbd_segments s @ [sbd_last_segment s]"

fun sbd_get_loop :: "range \<Rightarrow> nat \<Rightarrow> byte list list \<Rightarrow> byte list option" where
  "sbd_get_loop offsets segment_offset [] = None"
| "sbd_get_loop offsets segment_offset (segment # segs) =
     (if fst offsets \<ge> segment_offset \<and> fst offsets < segment_offset + length segment then do {
        let start = fst offsets - segment_offset;
        e \<leftarrow> csub (snd offsets) segment_offset;
        if start \<le> min e (length segment)
        then Some (slice start (min e (length segment)) segment) else None }
      else sbd_get_loop offsets (segment_offset + length segment) segs)"

definition sbd_get :: "range \<Rightarrow> SendBufferData \<Rightarrow> byte list option" where
  "sbd_get offsets s = do {
     assert_opt (fst offsets \<ge> fst (sbd_range s) \<and> snd offsets \<le> snd (sbd_range s));
     start \<leftarrow> csub (fst offsets) (sbd_offset s);
     e \<leftarrow> csub (snd offsets) (sbd_offset s);
     sbd_get_loop (start, e) 0 (sbd_segments_iter s) }"

fun sbd_get_into_loop :: "range \<Rightarrow> nat \<Rightarrow> byte list list \<Rightarrow> byte list" where
  "sbd_get_into_loop offsets segment_offset [] = []"
| "sbd_get_into_loop offsets segment_offset (segment # segs) =
     (let start = max segment_offset (fst offsets);
          e = min (segment_offset + length segment) (snd offsets);
          out = (if start < e then slice (start - segment_offset) (e - segment_offset) segment else []);
          segment_offset = segment_offset + length segment in
      if segment_offset \<ge> snd offsets then out
      else out @ sbd_get_into_loop offsets segment_offset segs)"

text \<open>The bytes that \<open>get_into\<close> appends to the packet.\<close>

definition sbd_get_into :: "range \<Rightarrow> SendBufferData \<Rightarrow> byte list option" where
  "sbd_get_into offsets s = do {
     assert_opt (fst offsets \<ge> fst (sbd_range s) \<and> snd offsets \<le> snd (sbd_range s));
     start \<leftarrow> csub (fst offsets) (sbd_offset s);
     e \<leftarrow> csub (snd offsets) (sbd_offset s);
     Some (sbd_get_into_loop (start, e) 0 (sbd_segments_iter s)) }"

definition sbd_to_vec :: "SendBufferData \<Rightarrow> byte list" where
  "sbd_to_vec s = concat (sbd_segments_iter s)"

record SendBuffer =
  sb_data :: SendBufferData
  sb_unsent :: nat
  sb_acks :: ArrayRangeSet
  sb_retransmits :: ArrayRangeSet

definition sb_new :: SendBuffer where
  "sb_new = \<lparr>sb_data = sbd_new, sb_unsent = 0, sb_acks = [], sb_retransmits = []\<rparr>"

definition sb_fully_acked_offset :: "SendBuffer \<Rightarrow> nat" where
  "sb_fully_acked_offset s = fst (sbd_range (sb_data s))"

definition sb_offset :: "SendBuffer \<Rightarrow> nat" where
  "sb_offset s = snd (sbd_range (sb_data s))"

definition sb_is_fully_acked :: "SendBuffer \<Rightarrow> bool" where
  "sb_is_fully_acked s = (sbd_len (sb_data s) = 0)"

definition sb_has_unsent_data :: "SendBuffer \<Rightarrow> bool" where
  "sb_has_unsent_data s = (sb_unsent s \<noteq> sb_offset s \<or> \<not> ars_is_empty (sb_retransmits s))"

definition sb_unacked :: "SendBuffer \<Rightarrow> nat option" where
  "sb_unacked s = csub (sbd_len (sb_data s)) (sum_list (map rlen (sb_acks s)))"

definition sb_write :: "byte list \<Rightarrow> SendBuffer \<Rightarrow> SendBuffer option" where
  "sb_write data s = do {
     d \<leftarrow> sbd_append data (sb_data s);
     Some (s\<lparr>sb_data := d\<rparr>) }"

text \<open>The loop of \<open>ack\<close> that discards the acknowledged prefix.\<close>

function sb_ack_loop :: "SendBufferData \<Rightarrow> ArrayRangeSet \<Rightarrow> (SendBufferData \<times> ArrayRangeSet) option" where
  "sb_ack_loop d acks =
     (if ars_min acks = Some (fst (sbd_range d)) then
        (case ars_pop_min acks of
           (None, _) \<Rightarrow> None
         | (Some prefix, acks') \<Rightarrow> do {
             to_advance \<leftarrow> csub (snd prefix) (fst prefix);
             d \<leftarrow> sbd_pop_front to_advance d;
             sb_ack_loop d acks' })
      else Some (d, acks))"
  by pat_completeness auto
termination
  by (relation "measure (\<lambda>(d, acks). length acks)")
     (auto simp: ars_pop_min_def split: list.splits)

definition sb_ack :: "range \<Rightarrow> SendBuffer \<Rightarrow> SendBuffer option" where
  "sb_ack r s = do {
     let base_offset = sb_fully_acked_offset s;
     let r = (max base_offset (fst r), max base_offset (snd r));
     let acks = snd (ars_insert r (sb_acks s));
     (d, acks) \<leftarrow> sb_ack_loop (sb_data s) acks;
     let s = s\<lparr>sb_data := d, sb_acks := acks\<rparr>;
     Some (s\<lparr>sb_retransmits := snd (ars_remove (0, sb_fully_acked_offset s) (sb_retransmits s))\<rparr>) }"

text \<open>
  \<open>max_len\<close> reduced by the size of the offset (nothing for offset 0), and by 8 for the
  length field if the data does not fill what is left.
\<close>

definition sb_transmit_len :: "nat \<Rightarrow> nat \<Rightarrow> nat \<Rightarrow> (nat \<times> bool) option" where
  "sb_transmit_len start e max_len = do {
     max_len \<leftarrow> (if start \<noteq> 0 then do {
                    n \<leftarrow> VarInt_size (VarInt (of_nat start));
                    csub max_len n }
                 else Some max_len);
     avail \<leftarrow> csub e start;
     if avail < max_len then do {
       max_len \<leftarrow> csub max_len 8;
       Some (max_len, True) }
     else Some (max_len, False) }"

definition sb_poll_transmit :: "nat \<Rightarrow> SendBuffer \<Rightarrow> ((range \<times> bool) \<times> SendBuffer) option" where
  "sb_poll_transmit max_len s = do {
     assert_opt (max_len \<ge> 8 + 8);
     case ars_pop_min (sb_retransmits s) of
       (Some r, retransmits) \<Rightarrow> do {
         (max_len, encode_length) \<leftarrow> sb_transmit_len (fst r) (snd r) max_len;
         let e = min (snd r) (sat_add max_len (fst r));
         let retransmits = (if e \<noteq> snd r then snd (ars_insert (e, snd r) retransmits) else retransmits);
         Some (((fst r, e), encode_length), s\<lparr>sb_retransmits := retransmits\<rparr>) }
     | (None, _) \<Rightarrow> do {
         (max_len, encode_length) \<leftarrow> sb_transmit_len (sb_unsent s) (sb_offset s) max_len;
         let e = min (sb_offset s) (sat_add max_len (sb_unsent s));
         Some (((sb_unsent s, e), encode_length), s\<lparr>sb_unsent := e\<rparr>) } }"

definition sb_get_into :: "range \<Rightarrow> SendBuffer \<Rightarrow> byte list option" where
  "sb_get_into offsets s = sbd_get_into offsets (sb_data s)"

definition sb_retransmit :: "range \<Rightarrow> SendBuffer \<Rightarrow> SendBuffer option" where
  "sb_retransmit r s = do {
     assert_opt (snd r \<le> sb_unsent s);
     let r = (max (fst r) (sb_fully_acked_offset s), snd r);
     Some (s\<lparr>sb_retransmits := snd (ars_insert r (sb_retransmits s))\<rparr>) }"

definition sb_retransmit_all_for_0rtt :: "SendBuffer \<Rightarrow> SendBuffer option" where
  "sb_retransmit_all_for_0rtt s = do {
     assert_opt (sb_fully_acked_offset s = 0);
     Some (s\<lparr>sb_unsent := 0\<rparr>) }"

section \<open>The segment store is a byte queue\<close>

text \<open>The number of bytes held is kept in \<open>len\<close>.\<close>

definition sbd_inv :: "SendBufferData \<Rightarrow> bool" where
  "sbd_inv s = (sbd_len s = length (sbd_to_vec s))"

text \<open>
  What \<open>SendBuffer\<close> relies on: the store behaves as the list of bytes \<open>content\<close> from
  offset \<open>base\<close> on.
\<close>

locale byte_queue =
  fixes inv :: "'q \<Rightarrow> bool" and base :: "'q \<Rightarrow> nat" and content :: "'q \<Rightarrow> byte list"
    and append :: "byte list \<Rightarrow> 'q \<Rightarrow> 'q option" and pop_front :: "nat \<Rightarrow> 'q \<Rightarrow> 'q option"
    and get_into :: "range \<Rightarrow> 'q \<Rightarrow> byte list option"
  assumes append_ok: "inv q \<Longrightarrow> \<exists>q'. append xs q = Some q' \<and> inv q' \<and> base q' = base q \<and>
        content q' = content q @ xs"
    and pop_front_ok: "inv q \<Longrightarrow> \<exists>q'. pop_front n q = Some q' \<and> inv q' \<and>
        base q' = base q + min n (length (content q)) \<and> content q' = drop n (content q)"
    and get_into_ok: "inv q \<Longrightarrow> base q \<le> s \<Longrightarrow> s \<le> e \<Longrightarrow> e \<le> base q + length (content q) \<Longrightarrow>
        get_into (s, e) q = Some (slice (s - base q) (e - base q) (content q))"
begin

text \<open>
  \<open>holds q xs\<close>: the queue holds the part of the stream \<open>xs\<close> from its base on.  Appending
  extends the stream, popping keeps it, and reading returns the bytes of the stream at their
  absolute offsets.
\<close>

definition holds :: "'q \<Rightarrow> byte list \<Rightarrow> bool" where
  "holds q xs \<longleftrightarrow> inv q \<and> base q \<le> length xs \<and> content q = drop (base q) xs"

lemma holds_length: "holds q xs \<Longrightarrow> base q + length (content q) = length xs"
  by (simp add: holds_def)

lemma holds_append: "holds q xs \<Longrightarrow> \<exists>q'. append ys q = Some q' \<and> holds q' (xs @ ys) \<and> base q' = base q"
  using append_ok [of q ys] by (auto simp: holds_def)

lemma holds_pop_front:
  "holds q xs \<Longrightarrow> \<exists>q'. pop_front n q = Some q' \<and> holds q' xs \<and> base q' = min (length xs) (base q + n)"
  using pop_front_ok [of q n] by (auto simp: holds_def min_def add.commute)

lemma holds_get_into:
  assumes "holds q xs" and "base q \<le> s" and "s \<le> e" and "e \<le> length xs"
  shows "get_into (s, e) q = Some (slice s e xs)"
  using get_into_ok [of q s e] assms by (simp add: holds_def slice_drop)

end

lemma sbd_pop_segments_spec:
  assumes "sbd_pop_segments n segs = (m, segs')" and "n \<le> length (concat segs @ lst)"
  shows "m \<le> length lst \<and> concat segs' @ drop m lst = drop n (concat segs @ lst)"
  using assms
  by (induction n segs rule: sbd_pop_segments.induct) (auto split: if_splits)

lemma sbd_get_into_loop_spec:
  assumes "off \<le> e"
  shows "sbd_get_into_loop (s, e) off segs =
         slice (s - off) (min (e - off) (length (concat segs))) (concat segs)"
  using assms
proof (induction "(s, e)" off segs rule: sbd_get_into_loop.induct)
  case (2 off seg segs)
  let ?n = "length seg"
  have out: "(if max off s < min (off + ?n) e
        then slice (max off s - off) (min (off + ?n) e - off) seg else []) =
      slice (s - off) (min (e - off) ?n) seg"
  proof -
    have "max off s - off = s - off" and "min (off + ?n) e - off = min (e - off) ?n"
      using 2(2) by auto
    then show ?thesis
      using 2(2) by (cases "max off s < min (off + ?n) e") (simp_all, auto)
  qed
  have step: "sbd_get_into_loop (s, e) off (seg # segs) = slice (s - off) (min (e - off) ?n) seg @
      (if off + ?n \<ge> e then [] else sbd_get_into_loop (s, e) (off + ?n) segs)"
    unfolding sbd_get_into_loop.simps Let_def fst_conv snd_conv out by simp
  show ?case
  proof (cases "off + ?n \<ge> e")
    case True
    then have "min (e - off) (length (concat (seg # segs))) - ?n = 0"
      and "min (min (e - off) (length (concat (seg # segs)))) ?n = min (e - off) ?n"
      by auto
    then show ?thesis
      unfolding step using True by (simp only: slice_append concat.simps) simp
  next
    case False
    then have "sbd_get_into_loop (s, e) (off + ?n) segs =
        slice (s - off - ?n) (min (e - off - ?n) (length (concat segs))) (concat segs)"
      using 2 by (simp add: Let_def)
    moreover have "min (e - off) (length (concat (seg # segs))) - ?n = min (e - off - ?n) (length (concat segs))"
      and "min (min (e - off) (length (concat (seg # segs)))) ?n = min (e - off) ?n"
      by auto
    ultimately show ?thesis
      unfolding step using False by (simp only: slice_append concat.simps) simp
  qed
qed simp

lemma sbd_append_spec:
  assumes "sbd_inv s"
  shows "\<exists>s'. sbd_append xs s = Some s' \<and> sbd_inv s' \<and> sbd_offset s' = sbd_offset s \<and>
           sbd_to_vec s' = sbd_to_vec s @ xs"
  using assms
  by (auto simp: sbd_append_def Let_def split_at_def sbd_inv_def sbd_to_vec_def sbd_segments_iter_def)

lemma sbd_pop_front_spec:
  assumes "sbd_inv s"
  shows "\<exists>s'. sbd_pop_front n s = Some s' \<and> sbd_inv s' \<and>
           sbd_offset s' = sbd_offset s + min n (length (sbd_to_vec s)) \<and>
           sbd_to_vec s' = drop n (sbd_to_vec s)"
proof -
  define k where "k = min n (sbd_len s)"
  obtain m segs where pop: "sbd_pop_segments k (sbd_segments s) = (m, segs)"
    by fastforce
  have vec: "sbd_to_vec s = concat (sbd_segments s) @ sbd_last_segment s"
    by (simp add: sbd_to_vec_def sbd_segments_iter_def)
  have "k \<le> length (concat (sbd_segments s) @ sbd_last_segment s)"
    using assms by (simp add: k_def sbd_inv_def vec)
  from sbd_pop_segments_spec [OF pop this]
  have m: "m \<le> length (sbd_last_segment s)"
    and segs: "concat segs @ drop m (sbd_last_segment s) = drop k (sbd_to_vec s)"
    by (simp_all add: vec)
  have eq: "sbd_pop_front n s = Some \<lparr>sbd_offset = sbd_offset s + k, sbd_len = sbd_len s - k,
      sbd_segments = segs, sbd_last_segment = drop m (sbd_last_segment s)\<rparr>"
    using m pop by (simp add: sbd_pop_front_def k_def Let_def)
  have "drop k (sbd_to_vec s) = drop n (sbd_to_vec s)"
    using assms by (auto simp: k_def sbd_inv_def min_def)
  then have "sbd_to_vec \<lparr>sbd_offset = sbd_offset s + k, sbd_len = sbd_len s - k,
      sbd_segments = segs, sbd_last_segment = drop m (sbd_last_segment s)\<rparr> = drop n (sbd_to_vec s)"
    using segs by (simp add: sbd_to_vec_def sbd_segments_iter_def)
  then show ?thesis
    unfolding eq using assms by (simp add: sbd_inv_def k_def)
qed

lemma sbd_get_into_spec:
  assumes "sbd_inv s"
  shows "sbd_get_into (a, e) s =
    (if sbd_offset s \<le> a \<and> e \<le> sbd_offset s + sbd_len s \<and> sbd_offset s \<le> e
     then Some (slice (a - sbd_offset s) (e - sbd_offset s) (sbd_to_vec s)) else None)"
  using assms
  by (auto simp: sbd_get_into_def sbd_range_def sbd_get_into_loop_spec sbd_inv_def sbd_to_vec_def min_def
        csub_def assert_opt_def)

interpretation sbd: byte_queue sbd_inv sbd_offset sbd_to_vec sbd_append sbd_pop_front sbd_get_into
proof unfold_locales
  show "\<exists>q'. sbd_append xs q = Some q' \<and> sbd_inv q' \<and> sbd_offset q' = sbd_offset q \<and>
        sbd_to_vec q' = sbd_to_vec q @ xs" if "sbd_inv q" for q xs
    using that by (rule sbd_append_spec)
  show "\<exists>q'. sbd_pop_front n q = Some q' \<and> sbd_inv q' \<and>
        sbd_offset q' = sbd_offset q + min n (length (sbd_to_vec q)) \<and>
        sbd_to_vec q' = drop n (sbd_to_vec q)" if "sbd_inv q" for q n
    using that by (rule sbd_pop_front_spec)
qed (simp add: sbd_get_into_spec sbd_inv_def)

section \<open>The invariant of the send buffer\<close>

text \<open>
  \<open>sb_inv xs s\<close>: the buffer holds what is left of the stream \<open>xs\<close> that the application
  has written; everything acknowledged or queued for retransmission has been sent and not been
  discarded yet, and the acknowledged ranges do not touch the first byte.
\<close>

definition sb_inv :: "byte list \<Rightarrow> SendBuffer \<Rightarrow> bool" where
  "sb_inv xs s \<longleftrightarrow>
     sbd.holds (sb_data s) xs \<and> sb_unsent s \<le> length xs \<and> sbd_offset (sb_data s) \<le> sb_unsent s \<and>
     ars_inv (sb_acks s) \<and> ars_inv (sb_retransmits s) \<and>
     ars_set (sb_acks s) \<subseteq> {sbd_offset (sb_data s)<..<sb_unsent s} \<and>
     ars_set (sb_retransmits s) \<subseteq> {sbd_offset (sb_data s)..<sb_unsent s}"

lemma sb_offset_inv: "sb_inv xs s \<Longrightarrow> sb_offset s = length xs"
  using sbd.holds_length [of "sb_data s" xs]
  by (simp add: sb_inv_def sb_offset_def sbd_range_def sbd.holds_def sbd_inv_def)

lemma sb_inv_new: "sb_inv [] sb_new"
  by (simp add: sb_inv_def sb_new_def sbd.holds_def sbd_inv_def sbd_new_def sbd_to_vec_def
        sbd_segments_iter_def)

lemma sb_write_spec:
  assumes "sb_inv xs s"
  shows "\<exists>s'. sb_write ys s = Some s' \<and> sb_inv (xs @ ys) s' \<and> sb_unsent s' = sb_unsent s \<and>
     sb_acks s' = sb_acks s \<and> sb_retransmits s' = sb_retransmits s \<and>
     sbd_offset (sb_data s') = sbd_offset (sb_data s)"
  using sbd.holds_append [of "sb_data s" xs ys] assms by (auto simp: sb_write_def sb_inv_def)

text \<open>
  The loop of \<open>ack\<close>: from offset \<open>b\<close> on it discards exactly the acknowledged prefix, so
  the new base is the first offset that is not acknowledged.
\<close>

declare sb_ack_loop.simps [simp del]

lemma sb_ack_loop_spec:
  assumes "ars_inv acks" and "sbd.holds d xs" and "ars_set acks \<subseteq> {sbd_offset d..<n}" and "n \<le> length xs"
  shows "\<exists>d' acks'. sb_ack_loop d acks = Some (d', acks') \<and> sbd.holds d' xs \<and> ars_inv acks' \<and>
     sbd_offset d \<le> sbd_offset d' \<and>
     ars_set acks = {sbd_offset d..<sbd_offset d'} \<union> ars_set acks' \<and>
     (\<forall>y \<in> ars_set acks'. sbd_offset d' < y)"
proof (cases acks)
  case Nil
  then show ?thesis
    using assms by (subst sb_ack_loop.simps) (auto simp: ars_min_def)
next
  case (Cons r rs)
  have "fst r < snd r" "ars_inv rs" and above: "\<forall>y \<in> ars_set rs. snd r < y"
    using assms(1) Cons ars_set_lower [of rs "snd r"] by auto
  moreover from this have "snd r - 1 \<in> ars_set acks"
    using Cons by auto
  then have "snd r - 1 < n"
    using assms(3) by (meson atLeastLessThan_iff subsetD)
  ultimately have r: "fst r < snd r" "snd r \<le> n" "ars_inv rs"
    by auto
  show ?thesis
  proof (cases "fst r = sbd_offset d")
    case True
    obtain d1 where d1: "sbd_pop_front (snd r - fst r) d = Some d1" "sbd.holds d1 xs" "sbd_offset d1 = snd r"
      using sbd.holds_pop_front [OF assms(2), of "snd r - fst r"] r True assms(4) by auto
    have "sb_ack_loop d1 rs = Some (d1, rs)"
      using above r(3) by (subst sb_ack_loop.simps)
        (auto simp: ars_min_def sbd_range_def d1 split: list.splits)
    then have "sb_ack_loop d acks = Some (d1, rs)"
      using True r d1 Cons
      by (subst sb_ack_loop.simps) (simp add: ars_min_def ars_pop_min_def sbd_range_def)
    then show ?thesis
      using d1 above r True Cons by auto
  next
    case False
    then have "sb_ack_loop d acks = Some (d, acks)"
      using Cons by (subst sb_ack_loop.simps) (simp add: ars_min_def sbd_range_def)
    moreover have "sbd_offset d < fst r"
      using False assms(3) Cons r(1) by (simp add: le_neq_implies_less subset_eq)
    then have "\<forall>y \<in> ars_set acks. sbd_offset d < y"
      using Cons above r(1) by fastforce
    ultimately show ?thesis
      using assms by auto
  qed
qed

text \<open>The offsets that the peer is known to have.\<close>

definition sb_acked :: "SendBuffer \<Rightarrow> nat set" where
  "sb_acked s = {0..<sbd_offset (sb_data s)} \<union> ars_set (sb_acks s)"

lemma sb_ack_spec:
  assumes inv: "sb_inv xs s" and r: "snd r \<le> sb_unsent s"
  shows "\<exists>s'. sb_ack r s = Some s' \<and> sb_inv xs s' \<and> sb_unsent s' = sb_unsent s \<and>
     sb_acked s' = sb_acked s \<union> rset r \<and>
     ars_set (sb_retransmits s') = ars_set (sb_retransmits s) - {0..<sbd_offset (sb_data s')} \<and>
     sbd_offset (sb_data s) \<le> sbd_offset (sb_data s')"
proof -
  let ?b = "sbd_offset (sb_data s)"
  define q where "q = (max ?b (fst r), max ?b (snd r))"
  define acks where "acks = snd (ars_insert q (sb_acks s))"
  have base: "?b \<le> sb_unsent s" "sb_unsent s \<le> length xs" "sbd.holds (sb_data s) xs"
    using inv by (auto simp: sb_inv_def)
  have acks: "ars_inv acks" "ars_set acks = ars_set (sb_acks s) \<union> {max ?b (fst r)..<max ?b (snd r)}"
    using inv by (simp_all add: acks_def q_def ars_insert_inv ars_insert_set sb_inv_def)
  then have "ars_set acks \<subseteq> {?b..<sb_unsent s}"
    using inv r base by (auto simp: sb_inv_def subset_eq)
  from sb_ack_loop_spec [OF acks(1) base(3) this base(2)]
  obtain d acks' where loop: "sb_ack_loop (sb_data s) acks = Some (d, acks')"
    and d: "sbd.holds d xs" "ars_inv acks'" "?b \<le> sbd_offset d"
      "ars_set acks = {?b..<sbd_offset d} \<union> ars_set acks'" "\<forall>y \<in> ars_set acks'. sbd_offset d < y"
    by blast
  define t where "t = s\<lparr>sb_data := d, sb_acks := acks',
      sb_retransmits := snd (ars_remove (0, sbd_offset d) (sb_retransmits s))\<rparr>"
  have ack: "sb_ack r s = Some t"
    using loop by (simp add: sb_ack_def sb_fully_acked_offset_def sbd_range_def Let_def t_def
        acks_def q_def)
  have sub: "{?b..<sbd_offset d} \<union> ars_set acks' \<subseteq> {?b..<sb_unsent s}"
    using d(4) \<open>ars_set acks \<subseteq> _\<close> by simp
  have "sbd_offset d \<le> sb_unsent s"
  proof (cases "?b < sbd_offset d")
    case True
    then have "sbd_offset d - 1 \<in> {?b..<sbd_offset d}"
      by auto
    then have "sbd_offset d - 1 < sb_unsent s"
      using sub by (meson UnI1 atLeastLessThan_iff subsetD)
    then show ?thesis
      using True by simp
  qed (use base in simp)
  moreover have "ars_inv (sb_retransmits t)"
    "ars_set (sb_retransmits t) = ars_set (sb_retransmits s) - {0..<sbd_offset d}"
    using inv by (simp_all add: t_def sb_inv_def ars_remove_inv ars_remove_set)
  moreover have "ars_set acks' \<subseteq> {sbd_offset d<..<sb_unsent s}"
    using d(5) sub by auto
  ultimately have "sb_inv xs t"
    using d inv by (auto simp: sb_inv_def t_def ars_remove_inv ars_remove_set)
  moreover have "sb_acked t = sb_acked s \<union> rset r"
  proof -
    have "sb_acked t = {0..<?b} \<union> ars_set acks"
      unfolding d(4) sb_acked_def t_def using d(3) by auto
    also have "\<dots> = sb_acked s \<union> rset r"
      by (auto simp: acks(2) sb_acked_def rset_def)
    finally show ?thesis .
  qed
  ultimately show ?thesis
    using ack d(3) \<open>ars_set (sb_retransmits t) = _\<close> by (simp add: t_def)
qed

lemma sb_retransmit_spec:
  assumes "sb_inv xs s" and "snd r \<le> sb_unsent s"
  shows "\<exists>s'. sb_retransmit r s = Some s' \<and> sb_inv xs s' \<and> sb_unsent s' = sb_unsent s \<and>
     sb_acked s' = sb_acked s \<and> sbd_offset (sb_data s') = sbd_offset (sb_data s) \<and>
     ars_set (sb_retransmits s') = ars_set (sb_retransmits s) \<union> (rset r - {0..<sbd_offset (sb_data s)})"
  using assms
  by (auto simp: sb_retransmit_def sb_inv_def sb_acked_def sb_fully_acked_offset_def sbd_range_def
        ars_insert_inv ars_insert_set rset_def)

section \<open>Frame sizes\<close>

text \<open>The bytes that the offset field of a STREAM frame takes: none for offset 0.\<close>

definition offset_field_size :: "nat \<Rightarrow> nat" where
  "offset_field_size start =
     (if start = 0 then 0 else case VarInt_size (VarInt (of_nat start)) of Some n \<Rightarrow> n | None \<Rightarrow> 0)"

lemma VarInt_size_of_nat:
  assumes "n < 2 ^ 62"
  shows "\<exists>k. VarInt_size (VarInt (of_nat n)) = Some k \<and> 0 < k \<and> k \<le> 8"
proof -
  have "unat (of_nat n :: u64) = n"
    using assms by (simp add: unsigned_of_nat take_bit_nat_eq_self)
  then show ?thesis
    using assms by (simp add: VarInt_size_nat Let_def)
qed

lemma sb_transmit_len_spec:
  assumes "start \<le> e" and "start < 2 ^ 62" and "16 \<le> max_len"
  shows "\<exists>ml enc. sb_transmit_len start e max_len = Some (ml, enc) \<and>
     offset_field_size start + (if enc then 8 else 0) + ml = max_len \<and>
     (\<not> enc \<longrightarrow> ml \<le> e - start) \<and> (16 < max_len \<longrightarrow> 0 < ml)"
proof -
  obtain k where "VarInt_size (VarInt (of_nat start)) = Some k" "k \<le> 8"
    using VarInt_size_of_nat [OF assms(2)] by auto
  then show ?thesis
    using assms(1,3) by (auto simp: sb_transmit_len_def offset_field_size_def not_less)
qed

text \<open>What is waiting to be sent: lost data and data never sent.\<close>

definition sb_pending :: "byte list \<Rightarrow> SendBuffer \<Rightarrow> nat set" where
  "sb_pending xs s = ars_set (sb_retransmits s) \<union> {sb_unsent s..<length xs}"

lemma sb_has_unsent_data_pending:
  assumes "sb_inv xs s"
  shows "sb_has_unsent_data s \<longleftrightarrow> sb_pending xs s \<noteq> {}"
  using assms sb_offset_inv [OF assms] ars_set_empty_iff [of "sb_retransmits s"]
  by (auto simp: sb_has_unsent_data_def sb_pending_def ars_is_empty_def sb_inv_def)

text \<open>The range that one call chooses between \<open>start\<close> and \<open>e\<close>.\<close>

lemma sb_transmit_range:
  assumes "start \<le> e" and "start < 2 ^ 62" and "e \<le> 2 ^ 62" and "16 \<le> max_len"
  shows "\<exists>ml enc f. sb_transmit_len start e max_len = Some (ml, enc) \<and> f = min e (sat_add ml start) \<and>
     start \<le> f \<and> f \<le> e \<and> (start < e \<longrightarrow> 16 < max_len \<longrightarrow> start < f) \<and>
     offset_field_size start + (if enc then 8 else 0) + (f - start) \<le> max_len \<and>
     (\<not> enc \<longrightarrow> offset_field_size start + (f - start) = max_len)"
proof -
  have sat: "min e (sat_add ml start) = min e (ml + start)" for ml
    using assms(3) by (simp add: sat_add_def u64_max_def min_def)
  obtain ml enc where "sb_transmit_len start e max_len = Some (ml, enc)"
    "offset_field_size start + (if enc then 8 else 0) + ml = max_len"
    "\<not> enc \<longrightarrow> ml \<le> e - start" "16 < max_len \<longrightarrow> 0 < ml"
    using sb_transmit_len_spec [OF assms(1,2,4)] by blast
  then show ?thesis
    using assms(1) unfolding sat
    by (intro exI [where x = ml] exI [where x = enc] exI [where x = "min e (ml + start)"]) auto
qed

text \<open>
  \<open>sb_takes xs s a e s'\<close>: the step from \<open>s\<close> to \<open>s'\<close> takes the range from \<open>a\<close>
  to \<open>e\<close> out of the pending data and changes nothing else.
\<close>

definition sb_takes :: "byte list \<Rightarrow> SendBuffer \<Rightarrow> nat \<Rightarrow> nat \<Rightarrow> SendBuffer \<Rightarrow> bool" where
  "sb_takes xs s a e s' \<longleftrightarrow>
     sb_inv xs s' \<and> sb_data s' = sb_data s \<and> sb_acks s' = sb_acks s \<and>
     sbd_offset (sb_data s) \<le> a \<and> a \<le> e \<and> e \<le> length xs \<and>
     {0..<sb_unsent s'} = {0..<sb_unsent s} \<union> {a..<e} \<and> e \<le> sb_unsent s' \<and>
     ars_set (sb_retransmits s') = ars_set (sb_retransmits s) - {a..<e} \<and> {a..<e} \<subseteq> sb_pending xs s"

lemma sb_poll_transmit_fresh:
  assumes inv: "sb_inv xs s" and len: "length xs < 2 ^ 62" and m: "16 \<le> max_len"
    and rt: "sb_retransmits s = []"
  shows "\<exists>e enc s'. sb_poll_transmit max_len s = Some (((sb_unsent s, e), enc), s') \<and>
     sb_takes xs s (sb_unsent s) e s' \<and> (sb_unsent s < length xs \<longrightarrow> 16 < max_len \<longrightarrow> sb_unsent s < e) \<and>
     offset_field_size (sb_unsent s) + (if enc then 8 else 0) + (e - sb_unsent s) \<le> max_len \<and>
     (\<not> enc \<longrightarrow> offset_field_size (sb_unsent s) + (e - sb_unsent s) = max_len)"
proof -
  have base: "sbd_offset (sb_data s) \<le> sb_unsent s" "sb_unsent s \<le> length xs" "sb_offset s = length xs"
    using inv sb_offset_inv by (auto simp: sb_inv_def)
  then have "sb_unsent s < 2 ^ 62" "length xs \<le> 2 ^ 62"
    using len by auto
  from sb_transmit_range [OF base(2) this m]
  obtain ml enc e where e: "sb_transmit_len (sb_unsent s) (length xs) max_len = Some (ml, enc)"
    "e = min (length xs) (sat_add ml (sb_unsent s))" "sb_unsent s \<le> e" "e \<le> length xs"
    and rest: "sb_unsent s < length xs \<longrightarrow> 16 < max_len \<longrightarrow> sb_unsent s < e"
    "offset_field_size (sb_unsent s) + (if enc then 8 else 0) + (e - sb_unsent s) \<le> max_len"
    "\<not> enc \<longrightarrow> offset_field_size (sb_unsent s) + (e - sb_unsent s) = max_len"
    by blast
  have "sb_poll_transmit max_len s = Some (((sb_unsent s, e), enc), s\<lparr>sb_unsent := e\<rparr>)"
    using m e(1,2) by (simp add: sb_poll_transmit_def base Let_def rt ars_pop_min_def)
  moreover have "sb_takes xs s (sb_unsent s) e (s\<lparr>sb_unsent := e\<rparr>)"
    using inv e(3,4) rt by (auto simp: sb_inv_def sb_takes_def sb_pending_def)
  ultimately show ?thesis
    using rest by blast
qed

lemma sb_poll_transmit_lost:
  assumes inv: "sb_inv xs s" and len: "length xs < 2 ^ 62" and m: "16 \<le> max_len"
    and rt: "sb_retransmits s = r # rs"
  shows "\<exists>e enc s'. sb_poll_transmit max_len s = Some (((fst r, e), enc), s') \<and>
     sb_takes xs s (fst r) e s' \<and> (16 < max_len \<longrightarrow> fst r < e) \<and>
     offset_field_size (fst r) + (if enc then 8 else 0) + (e - fst r) \<le> max_len \<and>
     (\<not> enc \<longrightarrow> offset_field_size (fst r) + (e - fst r) = max_len)"
proof -
  have rtinv: "ars_inv (r # rs)" and sub: "ars_set (r # rs) \<subseteq> {sbd_offset (sb_data s)..<sb_unsent s}"
    and unsent: "sb_unsent s \<le> length xs"
    using inv rt by (auto simp: sb_inv_def)
  have pop: "ars_pop_min (sb_retransmits s) = (Some r, rs)"
    using rt by (simp add: ars_pop_min_def)
  have "fst r \<in> ars_set (r # rs)" "snd r - 1 \<in> ars_set (r # rs)" and r: "fst r < snd r"
    using rtinv by auto
  then have lo: "sbd_offset (sb_data s) \<le> fst r" and hi: "snd r \<le> sb_unsent s"
    using subsetD [OF sub] by fastforce+
  then have "fst r \<le> snd r" "fst r < 2 ^ 62" "snd r \<le> 2 ^ 62"
    using r unsent len by auto
  from sb_transmit_range [OF this m]
  obtain ml enc e where e: "sb_transmit_len (fst r) (snd r) max_len = Some (ml, enc)"
    "e = min (snd r) (sat_add ml (fst r))" "fst r \<le> e" "e \<le> snd r"
    and rest: "fst r < snd r \<longrightarrow> 16 < max_len \<longrightarrow> fst r < e"
    "offset_field_size (fst r) + (if enc then 8 else 0) + (e - fst r) \<le> max_len"
    "\<not> enc \<longrightarrow> offset_field_size (fst r) + (e - fst r) = max_len"
    by blast
  define rt' where "rt' = (if e \<noteq> snd r then snd (ars_insert (e, snd r) rs) else rs)"
  have poll: "sb_poll_transmit max_len s = Some (((fst r, e), enc), s\<lparr>sb_retransmits := rt'\<rparr>)"
    using m pop e(1,2) by (simp add: sb_poll_transmit_def Let_def rt'_def)
  have "ars_set rs = ars_set (r # rs) - {fst r..<snd r}"
    using ars_inv_disjoint [OF rtinv] by auto
  then have "ars_set rt' = ars_set (r # rs) - {fst r..<e}" and "ars_inv rt'"
    using rtinv ars.pop_put_back [of "r # rs" r e] e(3,4)
    by (auto simp: rt'_def ars_insert_inv ars_pop_min_def)
  moreover have "{fst r..<e} \<subseteq> ars_set (r # rs)"
    using e(4) by auto
  ultimately have "sb_takes xs s (fst r) e (s\<lparr>sb_retransmits := rt'\<rparr>)"
    using inv rt e(3,4) lo hi unsent unfolding sb_takes_def sb_inv_def sb_pending_def
    by (simp add: le_supI1) auto
  then show ?thesis
    using poll rest r by blast
qed

lemma sb_poll_transmit_spec:
  assumes inv: "sb_inv xs s" and len: "length xs < 2 ^ 62" and m: "16 \<le> max_len"
  shows "\<exists>a e enc s'. sb_poll_transmit max_len s = Some (((a, e), enc), s') \<and>
     sb_takes xs s a e s' \<and> (sb_has_unsent_data s \<longrightarrow> 16 < max_len \<longrightarrow> a < e) \<and>
     offset_field_size a + (if enc then 8 else 0) + (e - a) \<le> max_len \<and>
     (\<not> enc \<longrightarrow> offset_field_size a + (e - a) = max_len)"
proof (cases "sb_retransmits s")
  case Nil
  then have "sb_has_unsent_data s \<longrightarrow> sb_unsent s < length xs"
    using inv sb_offset_inv [OF inv] by (auto simp: sb_has_unsent_data_def ars_is_empty_def sb_inv_def)
  then show ?thesis
    using sb_poll_transmit_fresh [OF assms Nil] by blast
next
  case (Cons r rs)
  then show ?thesis
    using sb_poll_transmit_lost [OF assms Cons] by blast
qed

lemma sb_takes_pending:
  assumes "sb_inv xs s" and t: "sb_takes xs s a e s'"
  shows "sb_pending xs s' = sb_pending xs s - {a..<e}"
proof -
  have unsent: "{0..<sb_unsent s'} = {0..<sb_unsent s} \<union> {a..<e}"
    and rt: "ars_set (sb_retransmits s') = ars_set (sb_retransmits s) - {a..<e}"
    using t by (auto simp: sb_takes_def)
  have "{sb_unsent s'..<length xs} = {0..<length xs} - {0..<sb_unsent s'}"
    by auto
  also have "\<dots> = {sb_unsent s..<length xs} - {a..<e}"
    unfolding unsent by auto
  finally show ?thesis
    unfolding sb_pending_def rt by auto
qed

lemma sb_get_into_spec:
  assumes "sb_inv xs s" and "sbd_offset (sb_data s) \<le> a" and "a \<le> e" and "e \<le> length xs"
  shows "sb_get_into (a, e) s = Some (slice a e xs)"
  using assms sbd.holds_get_into by (simp add: sb_get_into_def sb_inv_def)

section \<open>Properties\<close>

text \<open>
  C23: the segmented store refines a list of bytes.  With the length kept consistent,
  \<open>append\<close> and \<open>pop_front\<close> never panic and act on the list as append and drop while the
  base offset moves by the bytes dropped; \<open>get_into\<close> copies exactly the requested bytes, and
  panics exactly when the range is not inside the buffered range.
\<close>

theorem sbd_refines_bytes:
  assumes "sbd_inv s"
  shows "(\<exists>s'. sbd_append xs s = Some s' \<and> sbd_inv s' \<and> sbd_offset s' = sbd_offset s \<and>
            sbd_to_vec s' = sbd_to_vec s @ xs) \<and>
         (\<exists>s'. sbd_pop_front n s = Some s' \<and> sbd_inv s' \<and>
            sbd_offset s' = sbd_offset s + min n (length (sbd_to_vec s)) \<and>
            sbd_to_vec s' = drop n (sbd_to_vec s)) \<and>
         sbd_get_into (a, e) s =
           (if sbd_offset s \<le> a \<and> e \<le> sbd_offset s + sbd_len s \<and> sbd_offset s \<le> e
            then Some (slice (a - sbd_offset s) (e - sbd_offset s) (sbd_to_vec s)) else None)"
  using sbd_append_spec sbd_pop_front_spec sbd_get_into_spec assms by blast

theorem sbd_refines_bytes_witness:
  "sbd_get_into (11, 14) \<lparr>sbd_offset = 10, sbd_len = 5, sbd_segments = [[1, 2], [3, 4]], sbd_last_segment = [5]\<rparr>
     = Some [2, 3, 4]"
  using sbd_refines_bytes [of "\<lparr>sbd_offset = 10, sbd_len = 5, sbd_segments = [[1, 2], [3, 4]],
      sbd_last_segment = [5]\<rparr>" "[]" 0 11 14]
  by (simp add: sbd_inv_def sbd_to_vec_def sbd_segments_iter_def slice_def)

text \<open>
  C24: \<open>poll_transmit\<close> does not panic for a stream below the limit of 2^62 bytes, returns a
  range of buffered data that was waiting to be sent, and leaves enough room: the offset field,
  8 bytes for the length if it is to be encoded, and the data fit in \<open>max_len\<close>; the length is
  only omitted if the data fills \<open>max_len\<close> exactly; and with more than the minimal 16 bytes
  the frame is not empty while there is unsent data.
\<close>

theorem sb_poll_transmit_correct:
  assumes "sb_inv xs s" and "length xs < 2 ^ 62" and "16 \<le> max_len"
  shows "\<exists>a e enc s'. sb_poll_transmit max_len s = Some (((a, e), enc), s') \<and> sb_inv xs s' \<and>
     {a..<e} \<subseteq> sb_pending xs s \<and> sb_pending xs s' = sb_pending xs s - {a..<e} \<and>
     (sb_has_unsent_data s \<longrightarrow> 16 < max_len \<longrightarrow> a < e) \<and>
     sb_get_into (a, e) s' = Some (slice a e xs) \<and>
     offset_field_size a + (if enc then 8 else 0) + length (slice a e xs) \<le> max_len \<and>
     (\<not> enc \<longrightarrow> offset_field_size a + length (slice a e xs) = max_len)"
proof -
  obtain a e enc s' where poll: "sb_poll_transmit max_len s = Some (((a, e), enc), s')"
    and t: "sb_takes xs s a e s'" and prog: "sb_has_unsent_data s \<longrightarrow> 16 < max_len \<longrightarrow> a < e"
    and fit: "offset_field_size a + (if enc then 8 else 0) + (e - a) \<le> max_len"
      "\<not> enc \<longrightarrow> offset_field_size a + (e - a) = max_len"
    using sb_poll_transmit_spec [OF assms] by blast
  have bytes: "sb_get_into (a, e) s' = Some (slice a e xs)" "length (slice a e xs) = e - a"
    using t by (auto simp: sb_takes_def length_slice intro!: sb_get_into_spec)
  have "sb_pending xs s' = sb_pending xs s - {a..<e}"
    by (rule sb_takes_pending [OF assms(1) t])
  then show ?thesis
    using poll t prog fit bytes unfolding sb_takes_def
    by (intro exI [where x = a] exI [where x = e] exI [where x = enc] exI [where x = s']) simp
qed

theorem sb_poll_transmit_correct_witness:
  "\<exists>a e enc s'. sb_poll_transmit 17 \<lparr>sb_data = \<lparr>sbd_offset = 1, sbd_len = 4, sbd_segments = [[2, 3]],
      sbd_last_segment = [4, 5]\<rparr>, sb_unsent = 4, sb_acks = [(2, 3)], sb_retransmits = [(3, 4)]\<rparr> =
      Some (((a, e), enc), s') \<and> a < e \<and> sb_get_into (a, e) s' = Some (slice a e [1, 2, 3, 4, 5])"
proof -
  let ?s = "\<lparr>sb_data = \<lparr>sbd_offset = 1, sbd_len = 4, sbd_segments = [[2, 3]],
      sbd_last_segment = [4, 5]\<rparr>, sb_unsent = 4, sb_acks = [(2, 3)], sb_retransmits = [(3, 4)]\<rparr>"
  have "sb_inv [1, 2, 3, 4, 5] ?s"
    by (auto simp: sb_inv_def sbd.holds_def sbd_inv_def sbd_to_vec_def sbd_segments_iter_def)
  moreover have "sb_has_unsent_data ?s"
    by (simp add: sb_has_unsent_data_def ars_is_empty_def)
  ultimately show ?thesis
    using sb_poll_transmit_correct [of "[1, 2, 3, 4, 5]" ?s 17] by auto
qed

end
