(* ===== verification/Send_Reliability.thy ===== *)
theory Send_Reliability
  imports Send_Buffer
begin

text \<open>
  The life of a send buffer: the application writes, packets with stream data are sent,
  acknowledged or declared lost in any order.  The operations are those of \<open>SendBuffer\<close>; the
  ghost part of the state records what has been written, what is in flight (sent, and neither
  acknowledged nor lost: \<open>received_ack_of\<close> and \<open>retransmit\<close> in
  \<open>connection/streams/state.rs\<close> get the frames of a sent packet once), and the frames sent.
\<close>

section \<open>The transition system\<close>

record sb_sys =
  sys_buf :: SendBuffer
  sys_stream :: "byte list"
  sys_inflight :: "range list"
  sys_sent :: "(range \<times> byte list) list"

datatype sb_event =
    SbWrite "byte list"
  | SbTransmit nat
  | SbAck range
  | SbLose range
  | SbRestart0rtt

definition sb_sys_init :: sb_sys where
  "sb_sys_init = \<lparr>sys_buf = sb_new, sys_stream = [], sys_inflight = [], sys_sent = []\<rparr>"

text \<open>
  When an event may happen: the stream stays below the limit of 2^62 bytes, a frame has room for
  its maximal header (the contract of \<open>poll_transmit\<close>), only frames in flight are acknowledged
  or lost, and the restart after a Retry happens before any acknowledgement or loss.
\<close>

fun sb_enabled :: "sb_event \<Rightarrow> sb_sys \<Rightarrow> bool" where
  "sb_enabled (SbWrite xs) s = (length (sys_stream s) + length xs < 2 ^ 62)"
| "sb_enabled (SbTransmit max_len) s = (16 \<le> max_len)"
| "sb_enabled (SbAck r) s = (r \<in> set (sys_inflight s))"
| "sb_enabled (SbLose r) s = (r \<in> set (sys_inflight s))"
| "sb_enabled SbRestart0rtt s =
     (sb_fully_acked_offset (sys_buf s) = 0 \<and> sb_acks (sys_buf s) = [] \<and> sb_retransmits (sys_buf s) = [])"

fun sb_exec :: "sb_event \<Rightarrow> sb_sys \<Rightarrow> sb_sys option" where
  "sb_exec (SbWrite xs) s = do {
     b \<leftarrow> sb_write xs (sys_buf s);
     Some (s\<lparr>sys_buf := b, sys_stream := sys_stream s @ xs\<rparr>) }"
| "sb_exec (SbTransmit max_len) s = do {
     ((r, encode_length), b) \<leftarrow> sb_poll_transmit max_len (sys_buf s);
     bytes \<leftarrow> sb_get_into r b;
     Some (s\<lparr>sys_buf := b, sys_inflight := r # sys_inflight s, sys_sent := (r, bytes) # sys_sent s\<rparr>) }"
| "sb_exec (SbAck r) s = do {
     b \<leftarrow> sb_ack r (sys_buf s);
     Some (s\<lparr>sys_buf := b, sys_inflight := remove1 r (sys_inflight s)\<rparr>) }"
| "sb_exec (SbLose r) s = do {
     b \<leftarrow> sb_retransmit r (sys_buf s);
     Some (s\<lparr>sys_buf := b, sys_inflight := remove1 r (sys_inflight s)\<rparr>) }"
| "sb_exec SbRestart0rtt s = do {
     b \<leftarrow> sb_retransmit_all_for_0rtt (sys_buf s);
     Some (s\<lparr>sys_buf := b, sys_inflight := []\<rparr>) }"

inductive sb_step :: "sb_sys \<Rightarrow> sb_sys \<Rightarrow> bool" where
  "sb_enabled e s \<Longrightarrow> sb_exec e s = Some s' \<Longrightarrow> sb_step s s'"

inductive_cases sb_step_cases: "sb_step s s'"

section \<open>The invariant\<close>

text \<open>
  Every byte that has been sent is acknowledged, in flight, or queued for retransmission; the
  frames sent carry the bytes of the stream at their offsets.
\<close>

definition inflight_set :: "sb_sys \<Rightarrow> nat set" where
  "inflight_set s = (\<Union>r \<in> set (sys_inflight s). rset r)"

definition sb_sys_inv :: "sb_sys \<Rightarrow> bool" where
  "sb_sys_inv s \<longleftrightarrow>
     sb_inv (sys_stream s) (sys_buf s) \<and> length (sys_stream s) < 2 ^ 62 \<and>
     (\<forall>r \<in> set (sys_inflight s). snd r \<le> sb_unsent (sys_buf s)) \<and>
     {0..<sb_unsent (sys_buf s)} \<subseteq>
       sb_acked (sys_buf s) \<union> ars_set (sb_retransmits (sys_buf s)) \<union> inflight_set s \<and>
     (\<forall>(r, bytes) \<in> set (sys_sent s). snd r \<le> length (sys_stream s) \<and>
        bytes = slice (fst r) (snd r) (sys_stream s))"

lemma sb_sys_init_inv: "sb_sys_inv sb_sys_init"
  by (simp add: sb_sys_inv_def sb_sys_init_def sb_inv_new inflight_set_def) (simp add: sb_new_def)

lemma slice_prefix: "e \<le> length xs \<Longrightarrow> slice a e (xs @ ys) = slice a e xs"
  by (simp add: slice_append min_def)

lemma inflight_remove1:
  "r \<in> set rs \<Longrightarrow> (\<Union>q \<in> set rs. rset q) = rset r \<union> (\<Union>q \<in> set (remove1 r rs). rset q)"
  by (induction rs) auto

lemma cover_step:
  "U \<subseteq> A \<union> R \<union> I \<Longrightarrow> I = X \<union> I' \<Longrightarrow> A \<subseteq> A' \<Longrightarrow> R \<subseteq> A' \<union> R' \<Longrightarrow> X \<subseteq> A' \<union> R' \<Longrightarrow>
     U \<subseteq> A' \<union> R' \<union> I'"
  by blast

lemma sb_write_step:
  assumes "sb_sys_inv s" and "sb_enabled (SbWrite ys) s"
  shows "\<exists>s'. sb_exec (SbWrite ys) s = Some s' \<and> sb_sys_inv s'"
proof -
  have "sb_inv (sys_stream s) (sys_buf s)"
    using assms(1) by (simp add: sb_sys_inv_def)
  from sb_write_spec [OF this, of ys] obtain b where b: "sb_write ys (sys_buf s) = Some b"
    "sb_inv (sys_stream s @ ys) b" "sb_unsent b = sb_unsent (sys_buf s)"
    "sb_acked b = sb_acked (sys_buf s)" "sb_retransmits b = sb_retransmits (sys_buf s)"
    by (auto simp: sb_acked_def)
  define s' where "s' = s\<lparr>sys_buf := b, sys_stream := sys_stream s @ ys\<rparr>"
  have "inflight_set s' = inflight_set s"
    by (simp add: inflight_set_def s'_def)
  then have "sb_sys_inv s'"
    using assms b unfolding sb_sys_inv_def by (auto simp: s'_def slice_prefix)
  then show ?thesis
    using b(1) by (simp add: s'_def)
qed

lemma sb_transmit_step:
  assumes "sb_sys_inv s" and "sb_enabled (SbTransmit m) s"
  shows "\<exists>s' a e. sb_exec (SbTransmit m) s = Some s' \<and> sb_sys_inv s' \<and>
    sb_takes (sys_stream s) (sys_buf s) a e (sys_buf s') \<and> sys_stream s' = sys_stream s \<and>
    sys_inflight s' = (a, e) # sys_inflight s \<and>
    (sb_has_unsent_data (sys_buf s) \<longrightarrow> 16 < m \<longrightarrow> a < e)"
proof -
  let ?xs = "sys_stream s"
  obtain a e enc b where poll: "sb_poll_transmit m (sys_buf s) = Some (((a, e), enc), b)"
    and t: "sb_takes ?xs (sys_buf s) a e b" and prog: "sb_has_unsent_data (sys_buf s) \<longrightarrow> 16 < m \<longrightarrow> a < e"
    using sb_poll_transmit_spec [of ?xs "sys_buf s" m] assms by (auto simp: sb_sys_inv_def)
  have get: "sb_get_into (a, e) b = Some (slice a e ?xs)"
    using t by (auto simp: sb_takes_def intro!: sb_get_into_spec)
  define s' where "s' = s\<lparr>sys_buf := b, sys_inflight := (a, e) # sys_inflight s,
      sys_sent := ((a, e), slice a e ?xs) # sys_sent s\<rparr>"
  have unsent: "{0..<sb_unsent b} = {0..<sb_unsent (sys_buf s)} \<union> {a..<e}"
    and rt: "ars_set (sb_retransmits b) = ars_set (sb_retransmits (sys_buf s)) - {a..<e}"
    and acked: "sb_acked b = sb_acked (sys_buf s)"
    using t by (auto simp: sb_takes_def sb_acked_def)
  have "sb_unsent (sys_buf s) \<le> sb_unsent b"
    using unsent by (metis Un_upper1 atLeastLessThan_subset_iff le0 le_trans not_less)
  then have "\<forall>r \<in> set (sys_inflight s'). snd r \<le> sb_unsent b"
    using assms(1) t by (auto simp: sb_sys_inv_def s'_def sb_takes_def intro: order_trans)
  moreover have "{0..<sb_unsent b} \<subseteq> sb_acked b \<union> ars_set (sb_retransmits b) \<union> inflight_set s'"
    using assms(1) unfolding unsent rt acked sb_sys_inv_def inflight_set_def s'_def by auto
  ultimately have "sb_sys_inv s'"
    using assms(1) t by (auto simp: sb_sys_inv_def s'_def sb_takes_def)
  then show ?thesis
    using poll get t prog by (intro exI [where x = s']) (simp add: s'_def)
qed

lemma sb_ack_step:
  assumes "sb_sys_inv s" and "sb_enabled (SbAck r) s"
  shows "\<exists>s'. sb_exec (SbAck r) s = Some s' \<and> sb_sys_inv s' \<and> sys_stream s' = sys_stream s \<and>
    sys_inflight s' = remove1 r (sys_inflight s) \<and> sb_unsent (sys_buf s') = sb_unsent (sys_buf s) \<and>
    ars_set (sb_retransmits (sys_buf s')) \<subseteq> ars_set (sb_retransmits (sys_buf s))"
proof -
  have "snd r \<le> sb_unsent (sys_buf s)" "sb_inv (sys_stream s) (sys_buf s)"
    and cover: "{0..<sb_unsent (sys_buf s)} \<subseteq>
       sb_acked (sys_buf s) \<union> ars_set (sb_retransmits (sys_buf s)) \<union> inflight_set s"
    using assms by (auto simp: sb_sys_inv_def)
  from sb_ack_spec [OF this(2,1)] obtain b where b: "sb_ack r (sys_buf s) = Some b"
    "sb_inv (sys_stream s) b" "sb_unsent b = sb_unsent (sys_buf s)"
    "sb_acked b = sb_acked (sys_buf s) \<union> rset r"
    "ars_set (sb_retransmits b) = ars_set (sb_retransmits (sys_buf s)) - {0..<sbd_offset (sb_data b)}"
    by blast
  define s' where "s' = s\<lparr>sys_buf := b, sys_inflight := remove1 r (sys_inflight s)\<rparr>"
  have "inflight_set s = rset r \<union> inflight_set s'"
    using assms(2) inflight_remove1 by (simp add: inflight_set_def s'_def)
  moreover have "{0..<sbd_offset (sb_data b)} \<subseteq> sb_acked b"
    by (simp add: sb_acked_def)
  ultimately have "{0..<sb_unsent b} \<subseteq> sb_acked b \<union> ars_set (sb_retransmits b) \<union> inflight_set s'"
    unfolding b(3) by (intro cover_step [OF cover]) (auto simp: b(4,5))
  then have "sb_sys_inv s'"
    using assms(1) b(2,3) by (auto simp: sb_sys_inv_def s'_def dest: notin_set_remove1)
  then show ?thesis
    using b by (intro exI [where x = s']) (simp add: s'_def)
qed

lemma sb_lose_step:
  assumes "sb_sys_inv s" and "sb_enabled (SbLose r) s"
  shows "\<exists>s'. sb_exec (SbLose r) s = Some s' \<and> sb_sys_inv s'"
proof -
  have "snd r \<le> sb_unsent (sys_buf s)" "sb_inv (sys_stream s) (sys_buf s)"
    and cover: "{0..<sb_unsent (sys_buf s)} \<subseteq>
       sb_acked (sys_buf s) \<union> ars_set (sb_retransmits (sys_buf s)) \<union> inflight_set s"
    using assms by (auto simp: sb_sys_inv_def)
  from sb_retransmit_spec [OF this(2,1)] obtain b where b: "sb_retransmit r (sys_buf s) = Some b"
    "sb_inv (sys_stream s) b" "sb_unsent b = sb_unsent (sys_buf s)" "sb_acked b = sb_acked (sys_buf s)"
    "ars_set (sb_retransmits b) =
       ars_set (sb_retransmits (sys_buf s)) \<union> (rset r - {0..<sbd_offset (sb_data (sys_buf s))})"
    by blast
  define s' where "s' = s\<lparr>sys_buf := b, sys_inflight := remove1 r (sys_inflight s)\<rparr>"
  have "inflight_set s = rset r \<union> inflight_set s'"
    using assms(2) inflight_remove1 by (simp add: inflight_set_def s'_def)
  moreover have "{0..<sbd_offset (sb_data (sys_buf s))} \<subseteq> sb_acked (sys_buf s)"
    by (simp add: sb_acked_def)
  ultimately have "{0..<sb_unsent b} \<subseteq> sb_acked b \<union> ars_set (sb_retransmits b) \<union> inflight_set s'"
    unfolding b(3) by (intro cover_step [OF cover]) (auto simp: b(4,5))
  then have "sb_sys_inv s'"
    using assms(1) b(2,3) by (auto simp: sb_sys_inv_def s'_def dest: notin_set_remove1)
  then show ?thesis
    using b by (intro exI [where x = s']) (simp add: s'_def)
qed

lemma sb_restart_step:
  assumes "sb_sys_inv s" and "sb_enabled SbRestart0rtt s"
  shows "\<exists>s'. sb_exec SbRestart0rtt s = Some s' \<and> sb_sys_inv s'"
  using assms
  by (auto simp: sb_sys_inv_def sb_retransmit_all_for_0rtt_def sb_fully_acked_offset_def
        sbd_range_def sb_inv_def inflight_set_def)

lemma sb_exec_inv:
  assumes "sb_sys_inv s" and "sb_enabled e s"
  shows "\<exists>s'. sb_exec e s = Some s' \<and> sb_sys_inv s'"
proof (cases e)
  case (SbTransmit m)
  then show ?thesis using sb_transmit_step assms by blast
next
  case (SbAck r)
  then show ?thesis using sb_ack_step assms by blast
qed (use assms sb_write_step sb_lose_step sb_restart_step in blast)+

interpretation sb_life: invariant_system "\<lambda>s. s = sb_sys_init" sb_step sb_sys_inv
proof unfold_locales
  show "sb_sys_inv t" if "sb_sys_inv s" "sb_step s t" for s t
    using that(2) sb_exec_inv [OF that(1)] by (elim sb_step_cases) fastforce
qed (simp add: sb_sys_init_inv)

text \<open>What holds in every state that can be reached from the start.\<close>

lemmas sb_reachable_inv = sb_life.inv_reachable [OF refl]

lemma sb_sys_cover:
  assumes "sb_sys_inv s"
  shows "{0..<length (sys_stream s)} =
    sb_acked (sys_buf s) \<union> inflight_set s \<union> sb_pending (sys_stream s) (sys_buf s)"
proof
  let ?b = "sys_buf s"
  have inv: "sb_inv (sys_stream s) ?b"
    and cover: "{0..<sb_unsent ?b} \<subseteq> sb_acked ?b \<union> ars_set (sb_retransmits ?b) \<union> inflight_set s"
    and fl: "\<forall>r \<in> set (sys_inflight s). snd r \<le> sb_unsent ?b"
    using assms by (auto simp: sb_sys_inv_def)
  have "{0..<length (sys_stream s)} \<subseteq> {0..<sb_unsent ?b} \<union> {sb_unsent ?b..<length (sys_stream s)}"
    by auto
  then show "{0..<length (sys_stream s)} \<subseteq> sb_acked ?b \<union> inflight_set s \<union> sb_pending (sys_stream s) ?b"
    using cover unfolding sb_pending_def by blast
  have n: "sb_unsent ?b \<le> length (sys_stream s)"
    using inv by (simp add: sb_inv_def)
  have "sb_acked ?b \<subseteq> {0..<sb_unsent ?b}" "ars_set (sb_retransmits ?b) \<subseteq> {0..<sb_unsent ?b}"
    using inv by (auto simp: sb_inv_def sb_acked_def)
  moreover have "inflight_set s \<subseteq> {0..<sb_unsent ?b}"
    using fl by (fastforce simp: inflight_set_def rset_def)
  ultimately show "sb_acked ?b \<union> inflight_set s \<union> sb_pending (sys_stream s) ?b \<subseteq> {0..<length (sys_stream s)}"
    using n unfolding sb_pending_def by (fastforce dest: subsetD)
qed

lemma sb_unacked_count:
  assumes "sb_inv xs b"
  shows "sb_unacked b = Some (card ({0..<length xs} - sb_acked b))"
proof -
  let ?o = "sbd_offset (sb_data b)"
  have sub: "ars_set (sb_acks b) \<subseteq> {?o..<length xs}" and acks: "ars_inv (sb_acks b)"
    using assms by (auto simp: sb_inv_def)
  have len: "sbd_len (sb_data b) = card {?o..<length xs}"
    using sb_offset_inv [OF assms] by (auto simp: sb_offset_def sbd_range_def)
  have "{0..<length xs} - sb_acked b = {?o..<length xs} - ars_set (sb_acks b)"
    by (auto simp: sb_acked_def)
  moreover have "card (ars_set (sb_acks b)) \<le> card {?o..<length xs}"
    using sub by (intro card_mono) simp_all
  ultimately show ?thesis
    using sub by (simp add: sb_unacked_def len card_Diff_subset flip: ars_card [OF acks])
qed

section \<open>Completion\<close>

fun sb_run :: "sb_event list \<Rightarrow> sb_sys \<Rightarrow> sb_sys option" where
  "sb_run [] s = Some s"
| "sb_run (e # es) s = do {
     assert_opt (sb_enabled e s);
     s \<leftarrow> sb_exec e s;
     sb_run es s }"

lemma sb_fully_acked_when_idle:
  assumes "sb_sys_inv s" and "sys_inflight s = []" and "\<not> sb_has_unsent_data (sys_buf s)"
  shows "sb_is_fully_acked (sys_buf s)"
proof -
  let ?b = "sys_buf s" and ?n = "length (sys_stream s)"
  have inv: "sb_inv (sys_stream s) ?b"
    and cover: "{0..<sb_unsent ?b} \<subseteq> sb_acked ?b \<union> ars_set (sb_retransmits ?b) \<union> inflight_set s"
    using assms(1) by (auto simp: sb_sys_inv_def)
  have "sb_unsent ?b = ?n" "sb_retransmits ?b = []"
    using assms(3) sb_offset_inv [OF inv] by (auto simp: sb_has_unsent_data_def ars_is_empty_def)
  then have "{0..<?n} \<subseteq> sb_acked ?b"
    using cover assms(2) by (auto simp: inflight_set_def)
  moreover have "sbd_offset (sb_data ?b) \<notin> sb_acked ?b"
    using inv by (auto simp: sb_acked_def sb_inv_def)
  ultimately have "?n \<le> sbd_offset (sb_data ?b)"
    by (meson atLeastLessThan_iff le0 not_le subsetD)
  then show ?thesis
    using sb_offset_inv [OF inv] by (simp add: sb_is_fully_acked_def sb_offset_def sbd_range_def)
qed

lemma sb_transmits_drain:
  assumes "sb_sys_inv s" and "16 < m"
  shows "\<exists>n s'. sb_run (replicate n (SbTransmit m)) s = Some s' \<and> sb_sys_inv s' \<and>
    sys_stream s' = sys_stream s \<and> \<not> sb_has_unsent_data (sys_buf s')"
  using assms(1)
proof (induction "card (sb_pending (sys_stream s) (sys_buf s))" arbitrary: s rule: less_induct)
  case less
  show ?case
  proof (cases "sb_has_unsent_data (sys_buf s)")
    case False
    then show ?thesis
      using less.prems by (intro exI [where x = 0] exI [where x = s]) simp
  next
    case True
    have inv: "sb_inv (sys_stream s) (sys_buf s)"
      using less.prems by (simp add: sb_sys_inv_def)
    obtain t a e where t: "sb_exec (SbTransmit m) s = Some t" "sb_sys_inv t" "sys_stream t = sys_stream s"
      "sb_takes (sys_stream s) (sys_buf s) a e (sys_buf t)" "a < e"
      using sb_transmit_step [OF less.prems, of m] assms(2) True by auto
    have "sb_pending (sys_stream t) (sys_buf t) = sb_pending (sys_stream s) (sys_buf s) - {a..<e}"
      using sb_takes_pending [OF inv t(4)] t(3) by simp
    moreover have "a \<in> sb_pending (sys_stream s) (sys_buf s)"
      using t(4,5) by (auto simp: sb_takes_def)
    ultimately have "sb_pending (sys_stream t) (sys_buf t) \<subset> sb_pending (sys_stream s) (sys_buf s)"
      using t(5) by auto
    then have "card (sb_pending (sys_stream t) (sys_buf t)) < card (sb_pending (sys_stream s) (sys_buf s))"
      by (intro psubset_card_mono) (simp_all add: sb_pending_def)
    from less.hyps [OF this t(2)] obtain n s' where
      "sb_run (replicate n (SbTransmit m)) t = Some s'" "sb_sys_inv s'" "sys_stream s' = sys_stream s"
      "\<not> sb_has_unsent_data (sys_buf s')"
      using t(3) by auto
    then show ?thesis
      using t(1) assms(2) by (intro exI [where x = "Suc n"] exI [where x = s']) simp
  qed
qed

lemma sb_acks_finish:
  assumes "sb_sys_inv s" and "\<not> sb_has_unsent_data (sys_buf s)"
  shows "\<exists>s'. sb_run (map SbAck (sys_inflight s)) s = Some s' \<and> sys_stream s' = sys_stream s \<and>
    sb_is_fully_acked (sys_buf s')"
  using assms
proof (induction "sys_inflight s" arbitrary: s)
  case Nil
  then show ?case
    using sb_fully_acked_when_idle by simp
next
  case (Cons r rs)
  have "r \<in> set (sys_inflight s)"
    using Cons.hyps(2) by (metis list.set_intros(1))
  then have en: "sb_enabled (SbAck r) s"
    by simp
  from sb_ack_step [OF Cons.prems(1) this] obtain t where t: "sb_exec (SbAck r) s = Some t"
    "sb_sys_inv t" "sys_stream t = sys_stream s" "sys_inflight t = remove1 r (sys_inflight s)"
    "sb_unsent (sys_buf t) = sb_unsent (sys_buf s)"
    "ars_set (sb_retransmits (sys_buf t)) \<subseteq> ars_set (sb_retransmits (sys_buf s))"
    by blast
  have invs: "sb_inv (sys_stream s) (sys_buf s)" "sb_inv (sys_stream t) (sys_buf t)"
    using Cons.prems(1) t(2) by (simp_all add: sb_sys_inv_def)
  have "sb_pending (sys_stream t) (sys_buf t) \<subseteq> sb_pending (sys_stream s) (sys_buf s)"
    unfolding sb_pending_def t(3,5) using t(6) by blast
  then have idle: "\<not> sb_has_unsent_data (sys_buf t)"
    using Cons.prems(2) sb_has_unsent_data_pending invs by auto
  have "rs = sys_inflight t"
    using t(4) Cons.hyps(2) by (metis remove1.simps(2))
  from Cons.hyps(1) [OF this t(2) idle] obtain s' where
    "sb_run (map SbAck rs) t = Some s'" "sys_stream s' = sys_stream s" "sb_is_fully_acked (sys_buf s')"
    using t(3) \<open>rs = sys_inflight t\<close> by auto
  moreover have "map SbAck (sys_inflight s) = SbAck r # map SbAck rs"
    using Cons.hyps(2) by (metis list.simps(9))
  ultimately show ?case
    using en t(1) by simp
qed

text \<open>A sample run: a write, a transmission, its loss, and the retransmission.\<close>

definition sb_demo :: "sb_event list" where
  "sb_demo = [SbWrite [1, 2, 3, 4, 5], SbTransmit 20, SbLose (0, 5), SbTransmit 17, SbWrite [6]]"

lemma sb_run_steps: "sb_run es s = Some t \<Longrightarrow> sb_step\<^sup>*\<^sup>* s t"
proof (induction es arbitrary: s)
  case (Cons e es)
  then obtain u where "sb_enabled e s" "sb_exec e s = Some u" "sb_run es u = Some t"
    by (auto elim!: bind_Some_elim)
  then show ?case
    using Cons.IH sb_step.intros by (meson converse_rtranclp_into_rtranclp)
qed simp

lemmas sb_eval = sb_sys_init_def sb_new_def sbd_new_def sb_write_def sbd_append_def MAX_COMBINE_def
  sb_poll_transmit_def sb_transmit_len_def Let_def sb_get_into_def sbd_get_into_def sbd_range_def
  sbd_segments_iter_def sat_add_def u64_max_def ars_pop_min_def sb_retransmit_def
  sb_fully_acked_offset_def ars_insert_def range_is_empty_def sb_offset_def

lemma sb_demo_runs:
  "\<exists>s bytes. sb_run sb_demo sb_sys_init = Some s \<and> ((0, 5), bytes) \<in> set (sys_sent s)"
  by (simp add: sb_demo_def sb_eval)

section \<open>Properties\<close>

text \<open>
  the send buffer does not panic: whatever sequence of writes, transmissions, acknowledgements,
  losses and a 0-RTT restart has happened, every further event that may happen is executed.
\<close>

theorem sb_never_panics:
  assumes "sb_step\<^sup>*\<^sup>* sb_sys_init s" and "sb_enabled e s"
  shows "\<exists>s'. sb_exec e s = Some s' \<and> sb_step s s'"
  using sb_exec_inv [OF sb_reachable_inv [OF assms(1)] assms(2)] assms(2) sb_step.intros by blast

theorem sb_never_panics_witness:
  "\<exists>s'. sb_exec (SbWrite [1, 2, 3]) sb_sys_init = Some s' \<and> sb_step sb_sys_init s'"
  by (rule sb_never_panics) (simp_all add: sb_sys_init_def)

text \<open>
  C25: integrity of what is sent: every STREAM frame ever sent, first transmissions and
  retransmissions alike, carries the bytes that the application wrote at the offsets of the frame.
\<close>

theorem sb_frames_carry_stream:
  assumes "sb_step\<^sup>*\<^sup>* sb_sys_init s" and "(r, bytes) \<in> set (sys_sent s)"
  shows "snd r \<le> length (sys_stream s) \<and> bytes = slice (fst r) (snd r) (sys_stream s)"
  using sb_reachable_inv [OF assms(1)] assms(2) by (auto simp: sb_sys_inv_def)

theorem sb_frames_carry_stream_witness:
  "\<exists>s bytes. sb_run sb_demo sb_sys_init = Some s \<and> ((0, 5), bytes) \<in> set (sys_sent s) \<and>
     bytes = slice 0 5 (sys_stream s)"
  using sb_demo_runs sb_frames_carry_stream [OF sb_run_steps] by fastforce



text \<open>
  C7: the buffer completes: from every reachable state, sending frames of more than the minimal
  size reaches a state without unsent data after finitely many frames, and when these and the
  frames in flight are acknowledged the whole stream is acknowledged.
\<close>

theorem sb_completes:
  assumes "sb_step\<^sup>*\<^sup>* sb_sys_init s" and "16 < m"
  shows "\<exists>n s' s''. sb_run (replicate n (SbTransmit m)) s = Some s' \<and>
    \<not> sb_has_unsent_data (sys_buf s') \<and> sb_run (map SbAck (sys_inflight s')) s' = Some s'' \<and>
    sb_is_fully_acked (sys_buf s'') \<and> sys_stream s'' = sys_stream s"
  using sb_transmits_drain [OF sb_reachable_inv [OF assms(1)] assms(2)] sb_acks_finish by metis

theorem sb_completes_witness:
  "\<exists>s n s' s''. sb_run sb_demo sb_sys_init = Some s \<and> sb_run (replicate n (SbTransmit 17)) s = Some s' \<and>
    sb_run (map SbAck (sys_inflight s')) s' = Some s'' \<and> sb_is_fully_acked (sys_buf s'')"
  using sb_demo_runs sb_completes [OF sb_run_steps, of sb_demo _ 17] by fastforce

end
