(* ===== verification/Assembler.thy ===== *)
theory Assembler
  imports Range_Set "HOL-Library.Multiset"
begin

text \<open>
  The assembler of received stream data (\<open>noq-proto/src/connection/assembler.rs\<close>).

  The binary heap of buffers is a list in the order in which the heap yields its elements: by
  offset, longer buffers first at the same offset (the \<open>Ord\<close> instance of \<open>Buffer\<close>).
  Buffers that compare equal leave a binary heap in no specified order; here the older one
  comes first.
\<close>

section \<open>Definitions\<close>

record Buffer =
  b_offset :: nat
  b_bytes :: "byte list"
  b_allocation_size :: nat
  b_defragmented :: bool

definition Buffer_new :: "nat \<Rightarrow> byte list \<Rightarrow> nat \<Rightarrow> Buffer" where
  "Buffer_new off bytes allocation_size =
     \<lparr>b_offset = off, b_bytes = bytes, b_allocation_size = allocation_size, b_defragmented = False\<rparr>"

definition Buffer_new_defragmented :: "nat \<Rightarrow> byte list \<Rightarrow> Buffer" where
  "Buffer_new_defragmented off bytes =
     \<lparr>b_offset = off, b_bytes = bytes, b_allocation_size = length bytes, b_defragmented = True\<rparr>"

definition try_mark_defragment :: "nat \<Rightarrow> Buffer \<Rightarrow> Buffer" where
  "try_mark_defragment off b =
     (let duplicate = off - b_offset b;
          b = b\<lparr>b_offset := max (b_offset b) off\<rparr> in
      if duplicate \<ge> length (b_bytes b) then
        b\<lparr>b_bytes := [], b_defragmented := True, b_allocation_size := 0\<rparr>
      else
        let b = b\<lparr>b_bytes := drop duplicate (b_bytes b)\<rparr>;
            b = b\<lparr>b_defragmented := b_defragmented b \<or> length (b_bytes b) * 6 div 5 \<ge> b_allocation_size b\<rparr> in
        if b_defragmented b then b\<lparr>b_allocation_size := length (b_bytes b)\<rparr> else b)"

text \<open>\<open>a\<close> is yielded before \<open>b\<close>: \<open>a\<close> is greater in the \<open>Ord\<close> instance.\<close>

definition Buffer_before :: "Buffer \<Rightarrow> Buffer \<Rightarrow> bool" where
  "Buffer_before a b =
     (b_offset a < b_offset b \<or> b_offset a = b_offset b \<and> length (b_bytes a) > length (b_bytes b))"

fun heap_push :: "Buffer \<Rightarrow> Buffer list \<Rightarrow> Buffer list" where
  "heap_push b [] = [b]"
| "heap_push b (c # cs) = (if Buffer_before b c then b # c # cs else c # heap_push b cs)"

datatype State = Ordered | Unordered ArrayRangeSet

definition State_is_ordered :: "State \<Rightarrow> bool" where
  "State_is_ordered st = (case st of Ordered \<Rightarrow> True | Unordered _ \<Rightarrow> False)"

record Assembler =
  a_state :: State
  a_data :: "Buffer list"
  a_buffered :: nat
  a_allocated :: nat
  a_bytes_read :: nat
  a_end :: nat

definition Assembler_new :: Assembler where
  "Assembler_new = \<lparr>a_state = Ordered, a_data = [], a_buffered = 0, a_allocated = 0,
     a_bytes_read = 0, a_end = 0\<rparr>"

definition Assembler_reinit :: "Assembler \<Rightarrow> Assembler" where
  "Assembler_reinit s = Assembler_new\<lparr>a_data := []\<rparr>"

definition Assembler_clear :: "Assembler \<Rightarrow> Assembler" where
  "Assembler_clear s = s\<lparr>a_data := [], a_buffered := 0, a_allocated := 0\<rparr>"

text \<open>The two loops of \<open>defragment\<close>; the second returns the buffers it pushes, in order.\<close>

fun defragment_mark :: "nat \<Rightarrow> Buffer list \<Rightarrow> Buffer list" where
  "defragment_mark off [] = []"
| "defragment_mark off (chunk # chunks) =
     (let chunk = try_mark_defragment off chunk in
      chunk # defragment_mark (b_offset chunk + length (b_bytes chunk)) chunks)"

fun defragment_merge :: "nat \<Rightarrow> byte list \<Rightarrow> Buffer list \<Rightarrow> Buffer list" where
  "defragment_merge off buffer [] =
     (if buffer \<noteq> [] then [Buffer_new_defragmented off buffer] else [])"
| "defragment_merge off buffer (chunk # chunks) =
     (if b_defragmented chunk then
        (if b_bytes chunk \<noteq> [] then [chunk] else []) @ defragment_merge off buffer chunks
      else if b_offset chunk \<noteq> off + length buffer then
        (if buffer \<noteq> [] then [Buffer_new_defragmented off buffer] else []) @
        defragment_merge (b_offset chunk) (b_bytes chunk) chunks
      else defragment_merge off (buffer @ b_bytes chunk) chunks)"

definition Assembler_defragment :: "Assembler \<Rightarrow> Assembler" where
  "Assembler_defragment s =
     (let buffers = defragment_mark (a_bytes_read s) (a_data s);
          buffered = sum_list (map (\<lambda>b. length (b_bytes b)) buffers) in
      s\<lparr>a_buffered := buffered, a_allocated := buffered,
        a_data := fold heap_push (defragment_merge (a_bytes_read s) [] buffers) []\<rparr>)"

datatype IllegalOrderedRead = IllegalOrderedRead

definition Assembler_ensure_ordering :: "bool \<Rightarrow> Assembler \<Rightarrow> IllegalOrderedRead + Assembler" where
  "Assembler_ensure_ordering ordered s =
     (if ordered \<and> \<not> State_is_ordered (a_state s) then Inl IllegalOrderedRead
      else if \<not> ordered \<and> State_is_ordered (a_state s) then
        let s = (if a_data s \<noteq> [] then Assembler_defragment s else s);
            recvd = snd (ars_insert (0, a_bytes_read s) []);
            recvd = fold (\<lambda>chunk r. snd (ars_insert
                       (b_offset chunk, b_offset chunk + length (b_bytes chunk)) r)) (a_data s) recvd in
        Inr (s\<lparr>a_state := Unordered recvd\<rparr>)
      else Inr s)"

record Chunk =
  c_offset :: nat
  c_bytes :: "byte list"

text \<open>The last part of \<open>read\<close>: deliver from the first buffer; \<open>rest\<close> are the other buffers.\<close>

definition Assembler_take :: "nat \<Rightarrow> Buffer \<Rightarrow> Buffer list \<Rightarrow> Assembler \<Rightarrow> (Chunk \<times> Assembler) option" where
  "Assembler_take max_length chunk rest s =
     (if max_length < length (b_bytes chunk) then do {
        (bytes, left) \<leftarrow> split_at max_length (b_bytes chunk);
        buffered \<leftarrow> csub (a_buffered s) max_length;
        Some (\<lparr>c_offset = b_offset chunk, c_bytes = bytes\<rparr>,
          s\<lparr>a_bytes_read := a_bytes_read s + max_length, a_buffered := buffered,
            a_data := heap_push (chunk\<lparr>b_offset := b_offset chunk + max_length, b_bytes := left\<rparr>) rest\<rparr>) }
      else do {
        buffered \<leftarrow> csub (a_buffered s) (length (b_bytes chunk));
        allocated \<leftarrow> csub (a_allocated s) (b_allocation_size chunk);
        Some (\<lparr>c_offset = b_offset chunk, c_bytes = b_bytes chunk\<rparr>,
          s\<lparr>a_bytes_read := a_bytes_read s + length (b_bytes chunk), a_buffered := buffered,
            a_allocated := allocated, a_data := rest\<rparr>) })"

function Assembler_read :: "nat \<Rightarrow> bool \<Rightarrow> Assembler \<Rightarrow> (Chunk option \<times> Assembler) option" where
  "Assembler_read max_length ordered s =
     (case a_data s of
        [] \<Rightarrow> Some (None, s)
      | chunk # rest \<Rightarrow>
          if ordered \<and> b_offset chunk > a_bytes_read s then Some (None, s)
          else if ordered \<and> b_offset chunk + length (b_bytes chunk) \<le> a_bytes_read s then do {
            buffered \<leftarrow> csub (a_buffered s) (length (b_bytes chunk));
            allocated \<leftarrow> csub (a_allocated s) (b_allocation_size chunk);
            Assembler_read max_length ordered
              (s\<lparr>a_buffered := buffered, a_allocated := allocated, a_data := rest\<rparr>) }
          else if ordered \<and> a_bytes_read s - b_offset chunk > 0 then do {
            let start = a_bytes_read s - b_offset chunk;
            bytes \<leftarrow> advance start (b_bytes chunk);
            buffered \<leftarrow> csub (a_buffered s) start;
            (c, s) \<leftarrow> Assembler_take max_length
              (chunk\<lparr>b_bytes := bytes, b_offset := b_offset chunk + start\<rparr>) rest
              (s\<lparr>a_buffered := buffered\<rparr>);
            Some (Some c, s) }
          else do {
            (c, s) \<leftarrow> Assembler_take max_length chunk rest s;
            Some (Some c, s) })"
  by pat_completeness auto
termination
  by (relation "measure (\<lambda>(m, ordered, s). length (a_data s))") auto

text \<open>\<open>push\<close> of a new buffer together with the accounting.\<close>

definition Assembler_push :: "Buffer \<Rightarrow> Assembler \<Rightarrow> Assembler" where
  "Assembler_push b s =
     s\<lparr>a_buffered := a_buffered s + length (b_bytes b), a_allocated := a_allocated s + b_allocation_size b,
       a_data := heap_push b (a_data s)\<rparr>"

text \<open>The loop over the duplicate ranges in unordered mode.\<close>

fun Assembler_dedup :: "range list \<Rightarrow> nat \<Rightarrow> byte list \<Rightarrow> nat \<Rightarrow> Assembler \<Rightarrow>
    (nat \<times> byte list \<times> Assembler) option" where
  "Assembler_dedup [] off bytes allocation_size s = Some (off, bytes, s)"
| "Assembler_dedup (duplicate # ds) off bytes allocation_size s = do {
     (off, bytes, s) \<leftarrow>
       (if fst duplicate > off then do {
          (piece, bytes) \<leftarrow> split_at (fst duplicate - off) bytes;
          Some (fst duplicate, bytes, Assembler_push (Buffer_new off piece allocation_size) s) }
        else Some (off, bytes, s));
     n \<leftarrow> csub (snd duplicate) off;
     bytes \<leftarrow> advance n bytes;
     Assembler_dedup ds (snd duplicate) bytes allocation_size s }"

text \<open>The last part of \<open>insert\<close>: push what is left and limit the over-allocation.\<close>

definition Assembler_add :: "nat \<Rightarrow> byte list \<Rightarrow> nat \<Rightarrow> Assembler \<Rightarrow> Assembler option" where
  "Assembler_add off bytes allocation_size s =
     (if bytes = [] then Some s
      else do {
        let s = Assembler_push (Buffer_new off bytes allocation_size) s;
        unread \<leftarrow> csub (a_end s) (a_bytes_read s);
        let buffered = min (a_buffered s) unread;
        over_allocation \<leftarrow> csub (a_allocated s) buffered;
        let threshold = max 32768 (buffered * 3 div 2);
        if over_allocation > threshold then Some (Assembler_defragment s) else Some s })"

definition Assembler_insert :: "nat \<Rightarrow> byte list \<Rightarrow> nat \<Rightarrow> Assembler \<Rightarrow> Assembler option" where
  "Assembler_insert off bytes allocation_size s = do {
     assert_opt (length bytes \<le> allocation_size);
     let s = s\<lparr>a_end := max (a_end s) (off + length bytes)\<rparr>;
     case a_state s of
       Unordered recvd \<Rightarrow> do {
         let r = (off, off + length bytes);
         (off, bytes, s) \<leftarrow> Assembler_dedup (ars_iter_range r recvd) off bytes allocation_size s;
         let s = s\<lparr>a_state := Unordered (snd (ars_insert r recvd))\<rparr>;
         Assembler_add off bytes allocation_size s }
     | Ordered \<Rightarrow>
         if off < a_bytes_read s then
           if off + length bytes \<le> a_bytes_read s then Some s
           else do {
             let diff = a_bytes_read s - off;
             bytes \<leftarrow> advance diff bytes;
             Assembler_add (off + diff) bytes allocation_size s }
         else Assembler_add off bytes allocation_size s }"

declare Assembler_read.simps [simp del]

section \<open>Buffers\<close>

definition b_set :: "Buffer \<Rightarrow> nat set" where
  "b_set b = {b_offset b..<b_offset b + length (b_bytes b)}"

definition bs_set :: "Buffer list \<Rightarrow> nat set" where
  "bs_set bs = (\<Union>b \<in> set bs. b_set b)"

definition bs_len :: "Buffer list \<Rightarrow> nat" where
  "bs_len bs = sum_list (map (\<lambda>b. length (b_bytes b)) bs)"

definition bs_alloc :: "Buffer list \<Rightarrow> nat" where
  "bs_alloc bs = sum_list (map b_allocation_size bs)"

lemma bs_simps [simp]:
  "bs_set [] = {}" "bs_set (b # bs) = b_set b \<union> bs_set bs" "bs_set (bs @ cs) = bs_set bs \<union> bs_set cs"
  "bs_len [] = 0" "bs_len (b # bs) = length (b_bytes b) + bs_len bs" "bs_len (bs @ cs) = bs_len bs + bs_len cs"
  "bs_alloc [] = 0" "bs_alloc (b # bs) = b_allocation_size b + bs_alloc bs"
  "bs_alloc (bs @ cs) = bs_alloc bs + bs_alloc cs"
  by (auto simp: bs_set_def bs_len_def bs_alloc_def)

lemma finite_b_set [simp]: "finite (b_set b)" and card_b_set [simp]: "card (b_set b) = length (b_bytes b)"
  by (simp_all add: b_set_def)

lemma finite_bs_set [simp]: "finite (bs_set bs)"
  by (induction bs) simp_all

lemma card_bs_set_le: "card (bs_set bs) \<le> bs_len bs"
proof (induction bs)
  case (Cons b bs)
  have "card (b_set b \<union> bs_set bs) \<le> card (b_set b) + card (bs_set bs)"
    by (rule card_Un_le)
  then show ?case
    using Cons by simp
qed simp

text \<open>A well-formed buffer of the stream \<open>f\<close>: not empty, with the bytes of \<open>f\<close>, and no larger than its allocation.\<close>

definition b_ok :: "(nat \<Rightarrow> byte set) \<Rightarrow> Buffer \<Rightarrow> bool" where
  "b_ok f b \<longleftrightarrow> b_bytes b \<noteq> [] \<and> fits f (b_offset b) (b_bytes b) \<and> length (b_bytes b) \<le> b_allocation_size b"

text \<open>The order in which the heap yields buffers.\<close>

definition b_le :: "Buffer \<Rightarrow> Buffer \<Rightarrow> bool" where
  "b_le a b = (\<not> Buffer_before b a)"

lemma b_le_offset: "b_le a b \<Longrightarrow> b_offset a \<le> b_offset b"
  by (auto simp: b_le_def Buffer_before_def)

lemma b_le_trans: "b_le a b \<Longrightarrow> b_le b c \<Longrightarrow> b_le a c"
  unfolding b_le_def Buffer_before_def by linarith

lemma before_b_le: "Buffer_before a b \<Longrightarrow> b_le a b"
  unfolding b_le_def Buffer_before_def by linarith

lemma mset_heap_push [simp]: "mset (heap_push b bs) = add_mset b (mset bs)"
  by (induction bs) auto

lemma set_heap_push [simp]: "set (heap_push b bs) = insert b (set bs)"
  by (induction bs) auto

lemma sorted_heap_push: "sorted_wrt b_le bs \<Longrightarrow> sorted_wrt b_le (heap_push b bs)"
proof (induction bs)
  case (Cons c cs)
  show ?case
  proof (cases "Buffer_before b c")
    case True
    then have "\<forall>d \<in> set (c # cs). b_le b d"
      using Cons.prems b_le_trans [of b c] by (auto simp: before_b_le)
    then show ?thesis
      using Cons.prems True by simp
  next
    case False
    then show ?thesis
      using Cons by (simp add: b_le_def)
  qed
qed simp

lemma heap_push_simps [simp]:
  "bs_set (heap_push b bs) = b_set b \<union> bs_set bs"
  "bs_len (heap_push b bs) = length (b_bytes b) + bs_len bs"
  "bs_alloc (heap_push b bs) = b_allocation_size b + bs_alloc bs"
  by (induction bs) (simp_all add: Un_left_commute)

lemma fold_heap_push:
  assumes "sorted_wrt b_le h"
  shows "sorted_wrt b_le (fold heap_push bs h)" and "set (fold heap_push bs h) = set bs \<union> set h"
    and "bs_set (fold heap_push bs h) = bs_set bs \<union> bs_set h"
    and "bs_len (fold heap_push bs h) = bs_len bs + bs_len h"
    and "bs_alloc (fold heap_push bs h) = bs_alloc bs + bs_alloc h"
  using assms by (induction bs arbitrary: h) (auto simp: sorted_heap_push)

section \<open>Defragmentation\<close>

text \<open>What \<open>defragment\<close> keeps of a buffer that it may have emptied.\<close>

definition b_marked :: "(nat \<Rightarrow> byte set) \<Rightarrow> Buffer \<Rightarrow> bool" where
  "b_marked f b \<longleftrightarrow> fits f (b_offset b) (b_bytes b) \<and> (b_defragmented b \<longrightarrow> b_allocation_size b = length (b_bytes b))"

lemma try_mark_defragment_spec:
  assumes "b_ok f b"
  shows "b_marked f (try_mark_defragment off b)"
    and "b_offset (try_mark_defragment off b) = max (b_offset b) off"
    and "b_set (try_mark_defragment off b) = b_set b - {0..<off}"
    and "b_offset (try_mark_defragment off b) + length (b_bytes (try_mark_defragment off b)) =
         max off (b_offset b + length (b_bytes b))"
proof -
  have ne: "0 < length (b_bytes b)"
    using assms by (auto simp: b_ok_def)
  have drop: "fits f (max (b_offset b) off) (drop (off - b_offset b) (b_bytes b))"
    if "off - b_offset b < length (b_bytes b)"
  proof -
    have "b_offset b + (off - b_offset b) = max (b_offset b) off"
      by simp
    then show ?thesis
      using fits_drop [of f "b_offset b" "b_bytes b" "off - b_offset b"] assms that
      by (simp add: b_ok_def)
  qed
  then show "b_marked f (try_mark_defragment off b)"
    by (auto simp: b_marked_def try_mark_defragment_def Let_def)
  show "b_offset (try_mark_defragment off b) = max (b_offset b) off"
    by (auto simp: try_mark_defragment_def Let_def)
  have dup: "length (b_bytes b) \<le> off - b_offset b \<longleftrightarrow> b_offset b + length (b_bytes b) \<le> off"
    using ne by linarith
  show "b_set (try_mark_defragment off b) = b_set b - {0..<off}"
    by (auto simp: try_mark_defragment_def Let_def b_set_def dup)
  show "b_offset (try_mark_defragment off b) + length (b_bytes (try_mark_defragment off b)) =
         max off (b_offset b + length (b_bytes b))"
    by (auto simp: try_mark_defragment_def Let_def dup max_def)
qed

fun chained :: "nat \<Rightarrow> Buffer list \<Rightarrow> bool" where
  "chained off [] = True"
| "chained off (b # bs) = (off \<le> b_offset b \<and> chained (b_offset b + length (b_bytes b)) bs)"

lemma chained_lower: "chained off bs \<Longrightarrow> x \<in> bs_set bs \<Longrightarrow> off \<le> x"
  by (induction off bs rule: chained.induct) (fastforce simp: b_set_def)+

lemma chained_card: "chained off bs \<Longrightarrow> card (bs_set bs) = bs_len bs"
proof (induction off bs rule: chained.induct)
  case (2 off b bs)
  have "b_set b \<inter> bs_set bs = {}"
    using "2.prems" chained_lower by (fastforce simp: b_set_def)
  then show ?case
    using 2 by (simp add: card_Un_disjoint)
qed simp

lemma defragment_mark_chained:
  "\<forall>b \<in> set bs. b_ok f b \<Longrightarrow> chained off (defragment_mark off bs)"
  by (induction off bs rule: defragment_mark.induct)
     (auto simp: Let_def try_mark_defragment_spec)

lemma defragment_mark_marked:
  "\<forall>b \<in> set bs. b_ok f b \<Longrightarrow> \<forall>b \<in> set (defragment_mark off bs). b_marked f b"
  by (induction off bs rule: defragment_mark.induct)
     (auto simp: Let_def try_mark_defragment_spec)

text \<open>
  Everything before \<open>off\<close> from the lower bound \<open>l\<close> of the offsets on has been seen, so that
  marking drops nothing else.
\<close>

lemma defragment_mark_set:
  assumes "\<forall>b \<in> set bs. b_ok f b" and "sorted_wrt b_le bs" and "\<forall>b \<in> set bs. l \<le> b_offset b"
  shows "bs_set (defragment_mark off bs) \<union> {l..<off} = bs_set bs \<union> {l..<off}"
  using assms
proof (induction bs arbitrary: l off)
  case (Cons b bs)
  define off' where "off' = max off (b_offset b + length (b_bytes b))"
  have l: "l \<le> b_offset b" and ok: "b_ok f b"
    using Cons.prems by auto
  have step: "bs_set (defragment_mark off (b # bs)) = (b_set b - {0..<off}) \<union> bs_set (defragment_mark off' bs)"
    unfolding off'_def
    by (simp only: defragment_mark.simps Let_def bs_simps try_mark_defragment_spec(3,4) [OF ok])
  have "\<forall>c \<in> set bs. b_offset b \<le> b_offset c"
    using Cons.prems by (auto dest: b_le_offset)
  then have IH: "bs_set (defragment_mark off' bs) \<union> {b_offset b..<off'} = bs_set bs \<union> {b_offset b..<off'}"
    using Cons by auto
  have seen: "{b_offset b..<off'} \<subseteq> (b_set b - {0..<off}) \<union> {l..<off}" "{b_offset b..<off'} \<subseteq> b_set b \<union> {l..<off}"
    "b_set b \<subseteq> (b_set b - {0..<off}) \<union> {l..<off}"
    using l by (auto simp: off'_def b_set_def)
  have "bs_set (defragment_mark off (b # bs)) \<union> {l..<off} =
      (b_set b - {0..<off}) \<union> {l..<off} \<union> (bs_set (defragment_mark off' bs) \<union> {b_offset b..<off'})"
    unfolding step using seen by blast
  also have "\<dots> = bs_set (b # bs) \<union> {l..<off}"
    unfolding IH using seen by auto
  finally show ?case .
qed simp

lemma defragment_merge_spec:
  assumes "\<forall>b \<in> set bs. b_marked f b" and "fits f off buf"
  shows "(\<forall>b \<in> set (defragment_merge off buf bs). b_ok f b) \<and>
         bs_set (defragment_merge off buf bs) = {off..<off + length buf} \<union> bs_set bs \<and>
         bs_len (defragment_merge off buf bs) = length buf + bs_len bs \<and>
         bs_alloc (defragment_merge off buf bs) = bs_len (defragment_merge off buf bs)"
  using assms
proof (induction off buf bs rule: defragment_merge.induct)
  case (1 off buf)
  then show ?case
    by (auto simp: b_ok_def Buffer_new_defragmented_def b_set_def)
next
  case (2 off buf b bs)
  have b: "fits f (b_offset b) (b_bytes b)" "\<forall>c \<in> set bs. b_marked f c"
    "b_defragmented b \<Longrightarrow> b_allocation_size b = length (b_bytes b)"
    using "2.prems" by (auto simp: b_marked_def)
  consider (keep) "b_defragmented b" | (flush) "\<not> b_defragmented b" "b_offset b \<noteq> off + length buf"
    | (join) "\<not> b_defragmented b" "b_offset b = off + length buf"
    by blast
  then show ?case
  proof cases
    case keep
    then show ?thesis
      using "2.IH"(1) [OF keep b(2) "2.prems"(2)] b by (auto simp: b_ok_def b_set_def)
  next
    case flush
    then show ?thesis
      using "2.IH"(2) [OF flush b(2,1)] "2.prems"(2)
      by (auto simp: b_ok_def b_set_def Buffer_new_defragmented_def)
  next
    case join
    have "fits f off (buf @ b_bytes b)"
      using "2.prems"(2) b(1) join by (simp add: fits_append)
    then show ?thesis
      using "2.IH"(3) [of ] join b(2) by (auto simp: b_set_def)
  qed
qed

lemma Assembler_defragment_spec:
  assumes "\<forall>b \<in> set (a_data s). b_ok f b" and "sorted_wrt b_le (a_data s)"
  defines "s' \<equiv> Assembler_defragment s"
  shows "\<forall>b \<in> set (a_data s'). b_ok f b" and "sorted_wrt b_le (a_data s')"
    and "bs_set (a_data s') = bs_set (a_data s) - {0..<a_bytes_read s}"
    and "a_buffered s' = bs_len (a_data s')" and "bs_len (a_data s') = card (bs_set (a_data s'))"
    and "a_allocated s' = bs_len (a_data s')" and "bs_alloc (a_data s') = bs_len (a_data s')"
    and "a_state s' = a_state s" and "a_bytes_read s' = a_bytes_read s" and "a_end s' = a_end s"
proof -
  let ?r = "a_bytes_read s"
  define marked where "marked = defragment_mark ?r (a_data s)"
  define pushed where "pushed = defragment_merge ?r [] marked"
  have data: "a_data s' = fold heap_push pushed []"
    by (simp add: s'_def Assembler_defragment_def Let_def pushed_def marked_def)
  have counts: "a_buffered s' = bs_len marked" "a_allocated s' = bs_len marked"
    by (simp_all add: s'_def Assembler_defragment_def Let_def marked_def bs_len_def)
  have "\<forall>b \<in> set marked. b_marked f b"
    unfolding marked_def by (rule defragment_mark_marked [OF assms(1)])
  from defragment_merge_spec [OF this fits_Nil, of ?r]
  have merge: "\<forall>b \<in> set pushed. b_ok f b" "bs_set pushed = bs_set marked" "bs_len pushed = bs_len marked"
    "bs_alloc pushed = bs_len pushed"
    by (simp_all add: pushed_def)
  note heap = fold_heap_push [of "[]" pushed, folded data, simplified]
  have chained: "chained ?r marked"
    unfolding marked_def by (rule defragment_mark_chained [OF assms(1)])
  have "bs_set marked \<union> {0..<?r} = bs_set (a_data s) \<union> {0..<?r}"
    unfolding marked_def by (rule defragment_mark_set [OF assms(1,2)]) simp
  moreover have "bs_set marked \<inter> {0..<?r} = {}"
    using chained_lower [OF chained] by fastforce
  ultimately have marked: "bs_set marked = bs_set (a_data s) - {0..<?r}"
    by blast
  show "\<forall>b \<in> set (a_data s'). b_ok f b" "sorted_wrt b_le (a_data s')"
    "bs_set (a_data s') = bs_set (a_data s) - {0..<a_bytes_read s}"
    "a_buffered s' = bs_len (a_data s')" "bs_len (a_data s') = card (bs_set (a_data s'))"
    "a_allocated s' = bs_len (a_data s')" "bs_alloc (a_data s') = bs_len (a_data s')"
    using merge heap counts chained_card [OF chained] marked by simp_all
  show "a_state s' = a_state s" "a_bytes_read s' = a_bytes_read s" "a_end s' = a_end s"
    by (simp_all add: s'_def Assembler_defragment_def Let_def)
qed

end
