(* ===== verification/Reassembly.thy ===== *)
theory Reassembly
  imports Assembler
begin

text \<open>
  Correctness of the assembler: the invariant that relates its buffers to the offsets received
  and delivered so far, that every operation keeps it, and the properties of whole runs.
\<close>

section \<open>Invariants\<close>

text \<open>The accounting of the assembler and the contents of its buffers.\<close>

definition asm_wf :: "(nat \<Rightarrow> byte set) \<Rightarrow> Assembler \<Rightarrow> bool" where
  "asm_wf f s \<longleftrightarrow>
     (\<forall>b \<in> set (a_data s). b_ok f b) \<and> sorted_wrt b_le (a_data s) \<and>
     a_buffered s = bs_len (a_data s) \<and> a_allocated s = bs_alloc (a_data s) \<and>
     bs_set (a_data s) \<subseteq> {0..<a_end s}"

text \<open>
  \<open>asm_inv f R D s\<close>: the offsets \<open>R\<close> have been received and \<open>D\<close> delivered.  In ordered mode
  the delivered data is the prefix up to \<open>bytes_read\<close> and everything else that was received is in
  the buffers; in unordered mode the buffers are disjoint and hold undelivered data only.
\<close>

definition asm_inv :: "(nat \<Rightarrow> byte set) \<Rightarrow> nat set \<Rightarrow> nat set \<Rightarrow> Assembler \<Rightarrow> bool" where
  "asm_inv f R D s \<longleftrightarrow>
     asm_wf f s \<and> D \<subseteq> R \<and> R \<subseteq> {0..<a_end s} \<and> bs_set (a_data s) \<subseteq> R \<and>
     (case a_state s of
        Ordered \<Rightarrow> D = {0..<a_bytes_read s} \<and> R \<subseteq> D \<union> bs_set (a_data s)
      | Unordered recvd \<Rightarrow> ars_inv recvd \<and> ars_set recvd = R \<and> a_bytes_read s = card D \<and>
          bs_set (a_data s) \<inter> D = {} \<and> bs_len (a_data s) = card (bs_set (a_data s)))"

lemma asm_wf_alloc: "asm_wf f s \<Longrightarrow> a_buffered s \<le> a_allocated s"
  unfolding asm_wf_def bs_len_def bs_alloc_def by (auto simp: b_ok_def intro: sum_list_mono)

lemma asm_inv_read_le_end: "asm_inv f R D s \<Longrightarrow> a_bytes_read s \<le> a_end s"
proof (cases "a_state s")
  case Ordered
  assume inv: "asm_inv f R D s"
  then have "{0..<a_bytes_read s} \<subseteq> R" "R \<subseteq> {0..<a_end s}"
    using Ordered by (auto simp: asm_inv_def)
  then have "{0..<a_bytes_read s} \<subseteq> {0..<a_end s}"
    by (rule order_trans)
  then show ?thesis
    by (metis atLeastLessThan_subset_iff le0 le_trans not_less)
next
  case (Unordered r)
  assume inv: "asm_inv f R D s"
  then have "card D \<le> card {0..<a_end s}"
    by (intro card_mono) (auto simp: asm_inv_def)
  then show ?thesis
    using inv Unordered by (simp add: asm_inv_def)
qed

lemma asm_inv_new: "asm_inv f {} {} Assembler_new"
  by (simp add: asm_inv_def asm_wf_def Assembler_new_def)

section \<open>Reading\<close>

text \<open>The bytes of a buffer that a read of at most \<open>m\<close> bytes returns.\<close>

definition take_set :: "nat \<Rightarrow> Buffer \<Rightarrow> nat set" where
  "take_set m b = {b_offset b..<b_offset b + min m (length (b_bytes b))}"

lemma Assembler_take_spec:
  assumes "b_ok f b" and "\<forall>c \<in> set rest. b_ok f c" and "sorted_wrt b_le rest"
    and "a_buffered s = length (b_bytes b) + bs_len rest"
    and "a_allocated s = b_allocation_size b + bs_alloc rest"
    and "b_set b \<union> bs_set rest \<subseteq> {0..<a_end s}"
  shows "\<exists>s'. Assembler_take m b rest s = Some (\<lparr>c_offset = b_offset b, c_bytes = take m (b_bytes b)\<rparr>, s') \<and>
     asm_wf f s' \<and> a_bytes_read s' = a_bytes_read s + min m (length (b_bytes b)) \<and>
     a_state s' = a_state s \<and> a_end s' = a_end s \<and>
     bs_set (a_data s') = (b_set b - take_set m b) \<union> bs_set rest \<and>
     bs_len (a_data s') + min m (length (b_bytes b)) = length (b_bytes b) + bs_len rest"
proof (cases "m < length (b_bytes b)")
  case True
  define b' where "b' = b\<lparr>b_offset := b_offset b + m, b_bytes := drop m (b_bytes b)\<rparr>"
  have b': "b_ok f b'" "b_set b' = b_set b - take_set m b"
    using assms(1) True by (auto simp: b_ok_def b'_def b_set_def take_set_def fits_drop)
  then have "Assembler_take m b rest s = Some (\<lparr>c_offset = b_offset b, c_bytes = take m (b_bytes b)\<rparr>,
      s\<lparr>a_bytes_read := a_bytes_read s + m, a_buffered := a_buffered s - m, a_data := heap_push b' rest\<rparr>)"
    using True assms(4) by (simp add: Assembler_take_def b'_def)
  moreover have "length (b_bytes b') = length (b_bytes b) - m" "b_allocation_size b' = b_allocation_size b"
    by (simp_all add: b'_def)
  ultimately show ?thesis
    using True assms b' by (auto simp: asm_wf_def sorted_heap_push)
next
  case False
  then have "b_set b - take_set m b = {}"
    by (auto simp: b_set_def take_set_def)
  then show ?thesis
    using False assms by (auto simp: Assembler_take_def asm_wf_def)
qed

text \<open>What a read returns, as a set of offsets.\<close>

definition c_set :: "Chunk \<Rightarrow> nat set" where
  "c_set c = {c_offset c..<c_offset c + length (c_bytes c)}"

lemma Assembler_read_unordered:
  assumes inv: "asm_inv f R D s" and "\<not> State_is_ordered (a_state s)"
  shows "\<exists>res s'. Assembler_read m False s = Some (res, s') \<and> a_state s' = a_state s \<and>
     (case res of
        None \<Rightarrow> a_data s = [] \<and> s' = s
      | Some c \<Rightarrow> asm_inv f R (D \<union> c_set c) s' \<and> c_set c \<subseteq> R - D \<and> fits f (c_offset c) (c_bytes c) \<and>
          length (c_bytes c) \<le> m \<and> (0 < m \<longrightarrow> c_bytes c \<noteq> []) \<and>
          bs_set (a_data s') = bs_set (a_data s) - c_set c)"
proof (cases "a_data s")
  case Nil
  then show ?thesis
    by (subst Assembler_read.simps) simp
next
  case (Cons b rest)
  obtain recvd where st: "a_state s = Unordered recvd"
    using assms(2) by (cases "a_state s") (auto simp: State_is_ordered_def)
  have wf: "asm_wf f s"
    using inv by (simp add: asm_inv_def)
  have D: "D \<subseteq> R" "R \<subseteq> {0..<a_end s}" "a_bytes_read s = card D" "bs_set (a_data s) \<inter> D = {}"
    "bs_set (a_data s) \<subseteq> R" "bs_len (a_data s) = card (bs_set (a_data s))" "ars_inv recvd" "ars_set recvd = R"
    using inv st by (auto simp: asm_inv_def)
  then have fin: "finite D"
    using finite_subset [OF order_trans [OF D(1,2)]] by simp
  have "card (b_set b \<union> bs_set rest) = length (b_bytes b) + bs_len rest"
    using D(6) Cons by simp
  moreover have "card (b_set b \<union> bs_set rest) + card (b_set b \<inter> bs_set rest) = length (b_bytes b) + card (bs_set rest)"
    using card_Un_Int [of "b_set b" "bs_set rest"] by simp
  ultimately have "card (b_set b \<inter> bs_set rest) = 0"
    using card_bs_set_le [of rest] by linarith
  then have disj: "b_set b \<inter> bs_set rest = {}"
    by simp
  obtain s' where take: "Assembler_take m b rest s =
      Some (\<lparr>c_offset = b_offset b, c_bytes = take m (b_bytes b)\<rparr>, s')"
    and wf': "asm_wf f s'" and read: "a_bytes_read s' = a_bytes_read s + min m (length (b_bytes b))"
    and same: "a_state s' = a_state s" "a_end s' = a_end s"
    and data: "bs_set (a_data s') = (b_set b - take_set m b) \<union> bs_set rest"
    and len: "bs_len (a_data s') + min m (length (b_bytes b)) = length (b_bytes b) + bs_len rest"
    using Assembler_take_spec [of f b rest s m] wf Cons by (auto simp: asm_wf_def)
  define c where "c = \<lparr>c_offset = b_offset b, c_bytes = take m (b_bytes b)\<rparr>"
  have c: "c_set c = take_set m b" "take_set m b \<subseteq> b_set b" "card (take_set m b) = min m (length (b_bytes b))"
    "finite (take_set m b)"
    by (auto simp: c_def c_set_def take_set_def b_set_def min.commute)
  have data': "bs_set (a_data s') = bs_set (a_data s) - c_set c"
    using data disj c Cons by auto
  have "card (bs_set (a_data s) - c_set c) = card (bs_set (a_data s)) - card (c_set c)"
    using c Cons by (intro card_Diff_subset) auto
  then have cards: "bs_len (a_data s') = card (bs_set (a_data s'))"
    using len D(6) c(1,3) data' Cons by simp
  have "take_set m b \<inter> D = {}"
    using D(4) c(2) Cons by auto
  then have "card (D \<union> take_set m b) = a_bytes_read s'"
    using card_Un_disjoint [OF fin c(4)] read c(3) D(3) by (simp add: Int_commute)
  then have "asm_inv f R (D \<union> c_set c) s'"
    using wf' D st same data' cards c(1,2) Cons unfolding asm_inv_def by auto
  moreover have "Assembler_read m False s = Some (Some c, s')"
    using take Cons by (subst Assembler_read.simps) (simp add: c_def)
  moreover have "b_ok f b"
    using wf Cons by (simp add: asm_wf_def)
  ultimately show ?thesis
    using same data' c(1,2) D(4,5) Cons by (auto simp: c_def b_ok_def fits_take)
qed

text \<open>Dropping a buffer of already delivered data, and trimming one, keep the invariant in ordered mode.\<close>

lemma asm_inv_drop:
  assumes inv: "asm_inv f R D s" and st: "a_state s = Ordered" and data: "a_data s = b # rest"
    and old: "b_offset b + length (b_bytes b) \<le> a_bytes_read s"
  shows "asm_inv f R D (s\<lparr>a_buffered := a_buffered s - length (b_bytes b),
      a_allocated := a_allocated s - b_allocation_size b, a_data := rest\<rparr>)"
proof -
  have "b_set b \<subseteq> {0..<a_bytes_read s}"
    using old by (auto simp: b_set_def)
  then show ?thesis
    using inv st data by (auto simp: asm_inv_def asm_wf_def)
qed

lemma Assembler_read_front:
  assumes inv: "asm_inv f R D s" and st: "a_state s = Ordered" and data: "a_data s = b # rest"
    and le: "b_offset b \<le> a_bytes_read s" and new: "a_bytes_read s < b_offset b + length (b_bytes b)"
  shows "\<exists>c s'. Assembler_read m True s = Some (Some c, s') \<and> a_state s' = a_state s \<and>
     asm_inv f R (D \<union> c_set c) s' \<and> c_offset c = a_bytes_read s \<and> fits f (c_offset c) (c_bytes c) \<and>
     c_set c \<subseteq> R - D \<and> length (c_bytes c) \<le> m \<and> (0 < m \<longrightarrow> c_bytes c \<noteq> [])"
proof -
  let ?r = "a_bytes_read s"
  define start where "start = ?r - b_offset b"
  define b' where "b' = b\<lparr>b_bytes := drop start (b_bytes b), b_offset := b_offset b + start\<rparr>"
  define s1 where "s1 = s\<lparr>a_buffered := a_buffered s - start\<rparr>"
  have wf: "\<forall>c \<in> set (b # rest). b_ok f c" "sorted_wrt b_le (b # rest)"
    "a_buffered s = length (b_bytes b) + bs_len rest" "a_allocated s = b_allocation_size b + bs_alloc rest"
    "b_set b \<union> bs_set rest \<subseteq> {0..<a_end s}"
    and D: "D = {0..<?r}" "D \<subseteq> R" "R \<subseteq> {0..<a_end s}" "b_set b \<union> bs_set rest \<subseteq> R"
      "R \<subseteq> D \<union> (b_set b \<union> bs_set rest)"
    using inv st data by (auto simp: asm_inv_def asm_wf_def)
  have start: "start < length (b_bytes b)" "b_offset b + start = ?r"
    using le new by (auto simp: start_def)
  then have b': "b_ok f b'" "b_offset b' = ?r" "length (b_bytes b') = length (b_bytes b) - start"
    "b_set b' = b_set b - D" "b_allocation_size b' = b_allocation_size b"
    using wf(1) fits_drop [of f "b_offset b" "b_bytes b" start] D(1)
    by (auto simp: b_ok_def b'_def b_set_def)
  have "b_set b' \<union> bs_set rest \<subseteq> {0..<a_end s1}"
    using b'(4) wf(5) by (auto simp: s1_def)
  then obtain s' where take: "Assembler_take m b' rest s1 =
      Some (\<lparr>c_offset = b_offset b', c_bytes = take m (b_bytes b')\<rparr>, s')"
    and wf': "asm_wf f s'" and read: "a_bytes_read s' = ?r + min m (length (b_bytes b'))"
    and same: "a_state s' = a_state s" "a_end s' = a_end s"
    and data': "bs_set (a_data s') = (b_set b' - take_set m b') \<union> bs_set rest"
    using Assembler_take_spec [of f b' rest s1 m] wf b' start by (auto simp: s1_def)
  define c where "c = \<lparr>c_offset = b_offset b', c_bytes = take m (b_bytes b')\<rparr>"
  have c: "c_set c = take_set m b'" "c_set c \<subseteq> b_set b'" "D \<union> c_set c = {0..<a_bytes_read s'}"
    using read b'(2) D(1) by (auto simp: c_def c_set_def take_set_def b_set_def)
  have "D \<union> c_set c \<subseteq> R" "bs_set (a_data s') \<subseteq> R" "R \<subseteq> (D \<union> c_set c) \<union> bs_set (a_data s')"
    using c(1,2) D(2-5) b'(4) unfolding data' by blast+
  then have "asm_inv f R (D \<union> c_set c) s'"
    unfolding asm_inv_def same st using wf' D(3) c(3) by simp
  moreover have "Assembler_read m True s = Some (Some c, s')"
  proof (cases "start = 0")
    case True
    then have "b' = b" "s1 = s"
      by (simp_all add: b'_def s1_def)
    then show ?thesis
      using take data le new True by (subst Assembler_read.simps) (simp add: c_def start_def)
  next
    case False
    have eq: "a_bytes_read s - b_offset b = start"
      and adv: "advance start (b_bytes b) = Some (drop start (b_bytes b))"
      and sub: "csub (a_buffered s) start = Some (a_buffered s - start)"
      using start wf(3) by (simp_all add: start_def)
    show ?thesis
      unfolding Assembler_read.simps [of m True s] data list.case eq
      using le new False take by (simp add: adv sub c_def flip: b'_def s1_def)
  qed
  moreover have "c_set c \<subseteq> R - D"
    using c(2) b'(4) D(4) by auto
  ultimately show ?thesis
    using same b' start by (auto simp: c_def b_ok_def fits_take)
qed

lemma Assembler_read_ordered:
  assumes "asm_inv f R D s" and "a_state s = Ordered"
  shows "\<exists>res s'. Assembler_read m True s = Some (res, s') \<and> a_state s' = a_state s \<and>
     (case res of
        None \<Rightarrow> asm_inv f R D s' \<and> a_bytes_read s' = a_bytes_read s \<and> a_bytes_read s \<notin> R
      | Some c \<Rightarrow> asm_inv f R (D \<union> c_set c) s' \<and> c_offset c = a_bytes_read s \<and>
          fits f (c_offset c) (c_bytes c) \<and> c_set c \<subseteq> R - D \<and> length (c_bytes c) \<le> m \<and>
          (0 < m \<longrightarrow> c_bytes c \<noteq> []))"
  using assms
proof (induction "a_data s" arbitrary: s)
  case Nil
  then have "a_bytes_read s \<notin> R"
    by (auto simp: asm_inv_def)
  then show ?case
    using Nil by (subst Assembler_read.simps) simp
next
  case (Cons b rest)
  have data: "a_data s = b # rest"
    using Cons.hyps(2) by simp
  consider (later) "a_bytes_read s < b_offset b"
    | (old) "b_offset b + length (b_bytes b) \<le> a_bytes_read s"
    | (front) "b_offset b \<le> a_bytes_read s" "a_bytes_read s < b_offset b + length (b_bytes b)"
    by linarith
  then show ?case
  proof cases
    case later
    have "b_offset b \<le> b_offset c" if "c \<in> set rest" for c
      using Cons.prems(1) data that b_le_offset by (auto simp: asm_inv_def asm_wf_def)
    then have "a_bytes_read s \<notin> bs_set (a_data s)"
      using later data by (fastforce simp: bs_set_def b_set_def)
    then have "a_bytes_read s \<notin> R"
      using Cons.prems by (auto simp: asm_inv_def)
    moreover have "Assembler_read m True s = Some (None, s)"
      using later data by (subst Assembler_read.simps) simp
    ultimately show ?thesis
      using Cons.prems by simp
  next
    case old
    define t where "t = s\<lparr>a_buffered := a_buffered s - length (b_bytes b),
      a_allocated := a_allocated s - b_allocation_size b, a_data := rest\<rparr>"
    have "a_buffered s \<ge> length (b_bytes b)" "a_allocated s \<ge> b_allocation_size b"
      using Cons.prems(1) data by (auto simp: asm_inv_def asm_wf_def)
    then have eq: "Assembler_read m True s = Assembler_read m True t"
      using old data by (subst Assembler_read.simps) (simp add: t_def)
    have t: "rest = a_data t" "a_state t = a_state s" "a_bytes_read t = a_bytes_read s"
      by (simp_all add: t_def)
    have "asm_inv f R D t"
      unfolding t_def by (rule asm_inv_drop [OF Cons.prems data old])
    from Cons.hyps(1) [OF t(1) this] show ?thesis
      using Cons.prems(2) unfolding eq t(2,3) by blast
  next
    case front
    show ?thesis
      using Assembler_read_front [OF Cons.prems data front, of m] by fastforce
  qed
qed

section \<open>Insertion\<close>

lemma Assembler_push_wf:
  assumes "asm_wf f s" and "b_ok f b" and "b_set b \<subseteq> {0..<a_end s}"
  shows "asm_wf f (Assembler_push b s)"
  using assms by (auto simp: asm_wf_def Assembler_push_def sorted_heap_push)

lemma Assembler_push_simps [simp]:
  "a_state (Assembler_push b s) = a_state s" "a_bytes_read (Assembler_push b s) = a_bytes_read s"
  "a_end (Assembler_push b s) = a_end s" "bs_set (a_data (Assembler_push b s)) = b_set b \<union> bs_set (a_data s)"
  "bs_len (a_data (Assembler_push b s)) = length (b_bytes b) + bs_len (a_data s)"
  by (simp_all add: Assembler_push_def)

text \<open>The memory that an assembler may keep allocated for \<open>u\<close> bytes that can be buffered.\<close>

definition alloc_limit :: "nat \<Rightarrow> nat" where
  "alloc_limit u = u + max 32768 (u * 3 div 2)"

lemma alloc_limit_mono: "u \<le> v \<Longrightarrow> alloc_limit u \<le> alloc_limit v"
  by (auto simp: alloc_limit_def max_def div_le_mono intro: order_trans)

lemma defragment_wf:
  assumes "asm_wf f s"
  shows "asm_wf f (Assembler_defragment s)"
    and "a_allocated (Assembler_defragment s) \<le> a_end s - a_bytes_read s"
proof -
  have ok: "\<forall>b \<in> set (a_data s). b_ok f b" "sorted_wrt b_le (a_data s)" and sub: "bs_set (a_data s) \<subseteq> {0..<a_end s}"
    using assms by (auto simp: asm_wf_def)
  note d = Assembler_defragment_spec [OF ok]
  show "asm_wf f (Assembler_defragment s)"
    using d sub by (auto simp: asm_wf_def)
  have "bs_set (a_data (Assembler_defragment s)) \<subseteq> {a_bytes_read s..<a_end s}"
    using sub unfolding d(3) by auto
  then have "card (bs_set (a_data (Assembler_defragment s))) \<le> card {a_bytes_read s..<a_end s}"
    by (intro card_mono) simp_all
  then show "a_allocated (Assembler_defragment s) \<le> a_end s - a_bytes_read s"
    unfolding d(5,6) by simp
qed

lemma Assembler_add_spec:
  assumes wf: "asm_wf f s" and bytes: "fits f off bs" "length bs \<le> al" "off + length bs \<le> a_end s"
    and read: "a_bytes_read s \<le> a_end s"
  shows "\<exists>s'. Assembler_add off bs al s = Some s' \<and> asm_wf f s' \<and> a_state s' = a_state s \<and>
     a_bytes_read s' = a_bytes_read s \<and> a_end s' = a_end s \<and>
     bs_set (a_data s') \<subseteq> bs_set (a_data s) \<union> {off..<off + length bs} \<and>
     bs_set (a_data s) \<union> {off..<off + length bs} \<subseteq> bs_set (a_data s') \<union> {0..<a_bytes_read s} \<and>
     (bs_len (a_data s) + length bs = card (bs_set (a_data s) \<union> {off..<off + length bs}) \<longrightarrow>
        bs_len (a_data s') = card (bs_set (a_data s'))) \<and>
     (bs \<noteq> [] \<longrightarrow> a_allocated s' \<le> alloc_limit (a_end s - a_bytes_read s))"
proof (cases "bs = []")
  case True
  then show ?thesis
    using wf by (simp add: Assembler_add_def)
next
  case False
  define b where "b = Buffer_new off bs al"
  define t where "t = Assembler_push b s"
  have b: "b_ok f b" "b_set b = {off..<off + length bs}" "b_bytes b = bs"
    using False bytes by (simp_all add: b_def b_ok_def Buffer_new_def b_set_def)
  have t: "asm_wf f t" "a_state t = a_state s" "a_bytes_read t = a_bytes_read s" "a_end t = a_end s"
    "bs_set (a_data t) = {off..<off + length bs} \<union> bs_set (a_data s)"
    "bs_len (a_data t) = length bs + bs_len (a_data s)"
    using Assembler_push_wf [OF wf b(1)] b bytes(3) by (simp_all add: t_def)
  define u where "u = a_end s - a_bytes_read s"
  define k where "k = min (a_buffered t) u"
  have k: "k \<le> a_allocated t"
    using asm_wf_alloc [OF t(1)] by (simp add: k_def)
  have "Assembler_add off bs al s =
      (if a_allocated t - k > max 32768 (k * 3 div 2) then Some (Assembler_defragment t) else Some t)"
    using False k read by (simp add: Assembler_add_def Let_def t u_def k_def flip: b_def t_def)
  then consider (defrag) "Assembler_add off bs al s = Some (Assembler_defragment t)"
    | (keep) "Assembler_add off bs al s = Some t" "a_allocated t - k \<le> max 32768 (k * 3 div 2)"
    by (metis not_less)
  then show ?thesis
  proof cases
    case defrag
    have ok: "\<forall>b \<in> set (a_data t). b_ok f b" "sorted_wrt b_le (a_data t)"
      using t(1) by (auto simp: asm_wf_def)
    note d = Assembler_defragment_spec [OF ok] and e = defragment_wf [OF t(1)]
    have "a_allocated (Assembler_defragment t) \<le> alloc_limit (a_end s - a_bytes_read s)"
      using e(2) t(3,4) by (simp add: alloc_limit_def)
    then show ?thesis
      unfolding defrag using e(1) d(3,5,8,9,10) t(2-5) by auto
  next
    case keep
    have "a_allocated t \<le> alloc_limit k"
      using keep(2) k by (simp add: alloc_limit_def)
    also have "\<dots> \<le> alloc_limit (a_end s - a_bytes_read s)"
      by (rule alloc_limit_mono) (simp add: k_def u_def)
    finally show ?thesis
      unfolding keep(1) using t by (auto simp: Un_commute add.commute)
  qed
qed

text \<open>The duplicate ranges within \<open>off..e\<close>, in order.\<close>

fun dup_chain :: "nat \<Rightarrow> nat \<Rightarrow> range list \<Rightarrow> bool" where
  "dup_chain off e [] = (off \<le> e)"
| "dup_chain off e (d # ds) = (off \<le> fst d \<and> fst d \<le> snd d \<and> snd d \<le> e \<and> dup_chain (snd d) e ds)"

lemma dup_chain_mono: "dup_chain off' e ds \<Longrightarrow> off \<le> off' \<Longrightarrow> dup_chain off e ds"
  by (cases ds) auto

lemma dup_chain_lower: "dup_chain off e ds \<Longrightarrow> x \<in> ars_set ds \<Longrightarrow> off \<le> x"
  by (induction off e ds rule: dup_chain.induct) auto

lemma ars_iter_range_chain:
  assumes "ars_inv rs" and "off \<le> e"
  shows "dup_chain off e (ars_iter_range (off, e) rs)"
proof -
  have "dup_chain (max off m) e (ars_iter_range (off, e) rs)" if "\<forall>r \<in> set rs. m \<le> fst r" "max off m \<le> e" for m
    using assms(1) that
  proof (induction rs arbitrary: m)
    case (Cons r rs)
    have step: "ars_iter_range (off, e) (r # rs) =
        (if snd r > off \<and> fst r < e then [(max (fst r) off, min (snd r) e)] else []) @ ars_iter_range (off, e) rs"
      by (simp add: ars_iter_range_def map_filter_simps)
    show ?case
    proof (cases "snd r > off \<and> fst r < e")
      case True
      show ?thesis
      proof (cases "snd r \<le> e")
        case True': True
        then have "dup_chain (max off (snd r)) e (ars_iter_range (off, e) rs)"
          using Cons.prems assms(2) by (intro Cons.IH) auto
        then show ?thesis
          unfolding step using True True' Cons.prems by auto
      next
        case False
        then have "\<forall>q \<in> set rs. \<not> fst q < e"
          using Cons.prems(1) by fastforce
        then have "ars_iter_range (off, e) rs = []"
          by (simp add: ars_iter_range_def map_filter_def filter_empty_conv)
        then show ?thesis
          unfolding step using True Cons.prems False by auto
      qed
    next
      case False
      then show ?thesis
        unfolding step using Cons by auto
    qed
  qed (simp add: ars_iter_range_def map_filter_simps)
  from this [of 0] show ?thesis
    using assms(2) by simp
qed

lemma Assembler_dedup_spec:
  assumes "asm_wf f s" and "fits f off bs" and "length bs \<le> al" and "dup_chain off (off + length bs) ds"
    and "off + length bs \<le> a_end s"
  shows "\<exists>off' bs' s'. Assembler_dedup ds off bs al s = Some (off', bs', s') \<and> asm_wf f s' \<and>
     fits f off' bs' \<and> length bs' \<le> al \<and> off \<le> off' \<and> off' + length bs' = off + length bs \<and>
     a_state s' = a_state s \<and> a_bytes_read s' = a_bytes_read s \<and> a_end s' = a_end s \<and>
     bs_set (a_data s') = bs_set (a_data s) \<union> ({off..<off'} - ars_set ds) \<and>
     bs_len (a_data s') = bs_len (a_data s) + card ({off..<off'} - ars_set ds) \<and>
     {off'..<off + length bs} \<inter> ars_set ds = {}"
  using assms
proof (induction ds arbitrary: off bs s)
  case (Cons d ds)
  have d: "off \<le> fst d" "fst d \<le> snd d" "snd d \<le> off + length bs" "dup_chain (snd d) (off + length bs) ds"
    using Cons.prems(4) by auto
  define s1 where "s1 = (if fst d > off then Assembler_push (Buffer_new off (take (fst d - off) bs) al) s else s)"
  define bs1 where "bs1 = drop (snd d - off) bs"
  have step: "Assembler_dedup (d # ds) off bs al s = Assembler_dedup ds (snd d) bs1 al s1"
  proof (cases "fst d > off")
    case True
    then have "split_at (fst d - off) bs = Some (take (fst d - off) bs, drop (fst d - off) bs)"
      and "advance (snd d - fst d) (drop (fst d - off) bs) = Some bs1"
      using d by (simp_all add: bs1_def)
    then show ?thesis
      using True d by (simp add: s1_def)
  next
    case False
    then have "advance (snd d - off) bs = Some bs1"
      using d by (simp add: bs1_def)
    then show ?thesis
      using False d by (simp add: s1_def)
  qed
  have s1: "asm_wf f s1" "a_state s1 = a_state s" "a_bytes_read s1 = a_bytes_read s" "a_end s1 = a_end s"
    "bs_set (a_data s1) = bs_set (a_data s) \<union> {off..<fst d}" "bs_len (a_data s1) = bs_len (a_data s) + (fst d - off)"
  proof -
    let ?b = "Buffer_new off (take (fst d - off) bs) al"
    have "b_set ?b = {off..<fst d}" "length (b_bytes ?b) = fst d - off"
      using d by (auto simp: b_set_def Buffer_new_def)
    moreover have "b_ok f ?b" if "fst d > off"
      using that Cons.prems(2,3) d by (auto simp: b_ok_def Buffer_new_def fits_take)
    ultimately show "asm_wf f s1" "a_state s1 = a_state s" "a_bytes_read s1 = a_bytes_read s"
      "a_end s1 = a_end s" "bs_set (a_data s1) = bs_set (a_data s) \<union> {off..<fst d}"
      "bs_len (a_data s1) = bs_len (a_data s) + (fst d - off)"
      using Cons.prems(1,5) d by (auto simp: s1_def intro!: Assembler_push_wf)
  qed
  have bs1: "fits f (snd d) bs1" "snd d + length bs1 = off + length bs" "length bs1 \<le> al"
    using fits_drop [OF Cons.prems(2), of "snd d - off"] d Cons.prems(3) by (simp_all add: bs1_def)
  have "dup_chain (snd d) (snd d + length bs1) ds" "snd d + length bs1 \<le> a_end s1"
    using d(4) bs1(2) Cons.prems(5) s1(4) by simp_all
  from Cons.IH [OF s1(1) bs1(1,3) this] obtain off' bs' s' where
    call: "Assembler_dedup ds (snd d) bs1 al s1 = Some (off', bs', s')"
    and r: "asm_wf f s'" "fits f off' bs'" "length bs' \<le> al" "snd d \<le> off'" "off' + length bs' = off + length bs"
      "a_state s' = a_state s" "a_bytes_read s' = a_bytes_read s" "a_end s' = a_end s"
    and sets: "bs_set (a_data s') = bs_set (a_data s) \<union> {off..<fst d} \<union> ({snd d..<off'} - ars_set ds)"
      "bs_len (a_data s') = bs_len (a_data s) + (fst d - off) + card ({snd d..<off'} - ars_set ds)"
      "{off'..<off + length bs} \<inter> ars_set ds = {}"
    by (auto simp: s1 bs1)
  have low: "y \<notin> ars_set ds" if "y < snd d" for y
    using dup_chain_lower [OF d(4)] that by (meson not_le)
  have split: "{off..<off'} - ars_set (d # ds) = {off..<fst d} \<union> ({snd d..<off'} - ars_set ds)"
    using d r(4) low by auto
  have "card ({off..<fst d} \<union> ({snd d..<off'} - ars_set ds)) = (fst d - off) + card ({snd d..<off'} - ars_set ds)"
    using d by (subst card_Un_disjoint) auto
  then have "bs_set (a_data s') = bs_set (a_data s) \<union> ({off..<off'} - ars_set (d # ds))"
    "bs_len (a_data s') = bs_len (a_data s) + card ({off..<off'} - ars_set (d # ds))"
    unfolding split using sets by (simp_all add: Un_assoc)
  moreover have "{off'..<off + length bs} \<inter> ars_set (d # ds) = {}" "off \<le> off'"
    using sets(3) r(4) d by auto
  ultimately show ?case
    unfolding step call using r by blast
qed auto

lemma asm_wf_end: "asm_wf f s \<Longrightarrow> a_end s \<le> e \<Longrightarrow> asm_wf f (s\<lparr>a_end := e\<rparr>)"
  by (auto simp: asm_wf_def)

lemma asm_wf_state: "asm_wf f (s\<lparr>a_state := st\<rparr>) = asm_wf f s"
  by (simp add: asm_wf_def)

text \<open>The part of new data that ordered insertion keeps.\<close>

lemma Assembler_insert_ordered_add:
  assumes inv: "asm_inv f R D s" and st: "a_state s = Ordered"
    and bytes: "fits f off bs" "length bs \<le> al" "a_bytes_read s \<le> off"
    and e: "a_end s \<le> e" "off + length bs \<le> e"
    and R': "R' = R \<union> {off..<off + length bs}"
  shows "\<exists>s'. Assembler_add off bs al (s\<lparr>a_end := e\<rparr>) = Some s' \<and> asm_inv f R' D s' \<and>
     a_state s' = Ordered \<and> a_bytes_read s' = a_bytes_read s \<and> a_end s' = e \<and>
     (bs \<noteq> [] \<longrightarrow> a_allocated s' \<le> alloc_limit (e - a_bytes_read s))"
proof -
  define t where "t = s\<lparr>a_end := e\<rparr>"
  have D: "D = {0..<a_bytes_read s}" "D \<subseteq> R" "R \<subseteq> {0..<a_end s}" "bs_set (a_data s) \<subseteq> R"
    "R \<subseteq> D \<union> bs_set (a_data s)"
    using inv st by (auto simp: asm_inv_def)
  have t: "asm_wf f t" "a_state t = Ordered" "a_bytes_read t = a_bytes_read s" "a_end t = e" "a_data t = a_data s"
    using inv st e by (auto simp: t_def asm_inv_def intro: asm_wf_end)
  have "off + length bs \<le> a_end t" "a_bytes_read t \<le> a_end t"
    using e asm_inv_read_le_end [OF inv] by (simp_all add: t_def)
  from Assembler_add_spec [OF t(1) bytes(1,2) this] obtain s' where
    add: "Assembler_add off bs al t = Some s'" "asm_wf f s'" "a_state s' = Ordered"
      "a_bytes_read s' = a_bytes_read s" "a_end s' = e"
    and sets: "bs_set (a_data s') \<subseteq> bs_set (a_data s) \<union> {off..<off + length bs}"
      "bs_set (a_data s) \<union> {off..<off + length bs} \<subseteq> bs_set (a_data s') \<union> D"
    and lim: "bs \<noteq> [] \<longrightarrow> a_allocated s' \<le> alloc_limit (e - a_bytes_read s)"
    unfolding t D(1) by blast
  have "R' \<subseteq> {0..<e}"
    using D(3) e unfolding R' by (auto dest: subsetD)
  moreover have "D \<subseteq> R'" "bs_set (a_data s') \<subseteq> R'" "R' \<subseteq> D \<union> bs_set (a_data s')"
    using D(2,4,5) sets unfolding R' by blast+
  ultimately have "asm_inv f R' D s'"
    unfolding asm_inv_def add(3-5) using add(2) D(1) by simp
  then show ?thesis
    using add lim by (auto simp: t_def)
qed

lemma Assembler_insert_ordered:
  assumes inv: "asm_inv f R D s" and st: "a_state s = Ordered" and bytes: "fits f off bs" "length bs \<le> al"
  shows "\<exists>s'. Assembler_insert off bs al s = Some s' \<and> asm_inv f (R \<union> {off..<off + length bs}) D s' \<and>
     a_state s' = Ordered \<and> a_bytes_read s' = a_bytes_read s \<and> a_end s' = max (a_end s) (off + length bs) \<and>
     (a_bytes_read s < off + length bs \<and> bs \<noteq> [] \<longrightarrow> a_allocated s' \<le> alloc_limit (a_end s' - a_bytes_read s')) \<and>
     (\<not> (a_bytes_read s < off + length bs \<and> bs \<noteq> []) \<longrightarrow> a_allocated s' = a_allocated s)"
proof -
  let ?r = "a_bytes_read s"
  define e where "e = max (a_end s) (off + length bs)"
  have e: "a_end s \<le> e" "off + length bs \<le> e"
    by (simp_all add: e_def)
  have D: "D = {0..<?r}" "D \<subseteq> R" "R \<subseteq> {0..<a_end s}"
    using inv st by (auto simp: asm_inv_def)
  consider (old) "off < ?r" "off + length bs \<le> ?r" | (clip) "off < ?r" "?r < off + length bs" | (new) "?r \<le> off"
    by linarith
  then show ?thesis
  proof cases
    case old
    then have "{off..<off + length bs} \<subseteq> D"
      using D(1) by auto
    then have "R \<union> {off..<off + length bs} = R"
      using D(2) by blast
    moreover have "asm_inv f R D (s\<lparr>a_end := e\<rparr>)"
      using inv st e by (auto simp: asm_inv_def asm_wf_end)
    moreover have "Assembler_insert off bs al s = Some (s\<lparr>a_end := e\<rparr>)"
      using old st bytes by (simp add: Assembler_insert_def Let_def e_def)
    ultimately show ?thesis
      using old st by (simp add: e_def)
  next
    case clip
    define bs1 where "bs1 = drop (?r - off) bs"
    have bs1: "fits f ?r bs1" "length bs1 \<le> al" "?r + length bs1 = off + length bs" "bs1 \<noteq> []" "bs \<noteq> []"
      using fits_drop [OF bytes(1), of "?r - off"] clip bytes(2) by (auto simp: bs1_def)
    have "{off..<off + length bs} \<subseteq> D \<union> {?r..<off + length bs}" "{?r..<off + length bs} \<subseteq> {off..<off + length bs}"
      using D(1) clip by auto
    then have R': "R \<union> {off..<off + length bs} = R \<union> {?r..<?r + length bs1}"
      using D(2) bs1(3) by auto
    have "Assembler_insert off bs al s = Assembler_add ?r bs1 al (s\<lparr>a_end := e\<rparr>)"
      using clip st bytes by (simp add: Assembler_insert_def Let_def e_def bs1_def)
    then show ?thesis
      using Assembler_insert_ordered_add [OF inv st bs1(1,2) order_refl e(1) _ R'] bs1 e(2) clip
      by (auto simp: e_def)
  next
    case new
    have "Assembler_insert off bs al s = Assembler_add off bs al (s\<lparr>a_end := e\<rparr>)"
      using new st bytes by (simp add: Assembler_insert_def Let_def e_def)
    moreover have "a_bytes_read s < off + length bs \<longleftrightarrow> True" if "bs \<noteq> []"
      using new that by (cases bs) auto
    moreover have "Assembler_add off bs al (s\<lparr>a_end := e\<rparr>) = Some (s\<lparr>a_end := e\<rparr>)" if "bs = []"
      using that by (simp add: Assembler_add_def)
    ultimately show ?thesis
      using Assembler_insert_ordered_add [OF inv st bytes new e refl]
      by (cases "bs = []") (auto simp: e_def)
  qed
qed

lemma Assembler_insert_unordered:
  assumes inv: "asm_inv f R D s" and st: "a_state s = Unordered recvd" and bytes: "fits f off bs" "length bs \<le> al"
  shows "\<exists>s' recvd'. Assembler_insert off bs al s = Some s' \<and> asm_inv f (R \<union> {off..<off + length bs}) D s' \<and>
     a_state s' = Unordered recvd' \<and> a_bytes_read s' = a_bytes_read s \<and>
     a_end s' = max (a_end s) (off + length bs)"
proof -
  define e where "e = max (a_end s) (off + length bs)"
  define t where "t = s\<lparr>a_end := e\<rparr>"
  define r where "r = (off, off + length bs)"
  define ds where "ds = ars_iter_range r recvd"
  have D: "ars_inv recvd" "ars_set recvd = R" "a_bytes_read s = card D" "bs_set (a_data s) \<inter> D = {}"
    "bs_len (a_data s) = card (bs_set (a_data s))" "D \<subseteq> R" "R \<subseteq> {0..<a_end s}" "bs_set (a_data s) \<subseteq> R"
    using inv st by (auto simp: asm_inv_def)
  have t: "asm_wf f t" "a_data t = a_data s" "a_bytes_read t = a_bytes_read s" "a_end t = e"
    using inv by (auto simp: t_def asm_inv_def e_def intro: asm_wf_end)
  have ds: "dup_chain off (off + length bs) ds" "ars_set ds = R \<inter> {off..<off + length bs}"
    using D(1,2) by (simp_all add: ds_def r_def ars_iter_range_chain ars_iter_range_set)
  have "off + length bs \<le> a_end t"
    by (simp add: t_def e_def)
  from Assembler_dedup_spec [OF t(1) bytes ds(1) this] obtain off' bs' s1 where
    dedup: "Assembler_dedup ds off bs al t = Some (off', bs', s1)"
    and s1: "asm_wf f s1" "fits f off' bs'" "length bs' \<le> al" "off \<le> off'" "off' + length bs' = off + length bs"
      "a_bytes_read s1 = a_bytes_read s" "a_end s1 = e"
    and sets: "bs_set (a_data s1) = bs_set (a_data s) \<union> ({off..<off'} - ars_set ds)"
      "bs_len (a_data s1) = bs_len (a_data s) + card ({off..<off'} - ars_set ds)"
      "{off'..<off + length bs} \<inter> ars_set ds = {}"
    unfolding t by blast
  define s2 where "s2 = s1\<lparr>a_state := Unordered (snd (ars_insert r recvd))\<rparr>"
  have s2: "asm_wf f s2" "off' + length bs' \<le> a_end s2" "a_bytes_read s2 \<le> a_end s2"
    using s1 asm_inv_read_le_end [OF inv] by (simp_all add: s2_def asm_wf_state e_def)
  from Assembler_add_spec [OF s2(1) s1(2,3) s2(2,3)] obtain s' where
    add: "Assembler_add off' bs' al s2 = Some s'" "asm_wf f s'"
      "a_state s' = Unordered (snd (ars_insert r recvd))" "a_bytes_read s' = a_bytes_read s" "a_end s' = e"
    and data: "bs_set (a_data s') \<subseteq> bs_set (a_data s1) \<union> {off'..<off + length bs}"
    and card: "bs_len (a_data s1) + length bs' = card (bs_set (a_data s1) \<union> {off'..<off + length bs}) \<longrightarrow>
        bs_len (a_data s') = card (bs_set (a_data s'))"
    by (auto simp: s2_def s1)
  have new: "{off..<off'} - ars_set ds \<subseteq> {off..<off + length bs} - R" "{off'..<off + length bs} \<subseteq> {off..<off + length bs} - R"
    using ds(2) sets(3) s1(4,5) by auto
  have disj: "bs_set (a_data s) \<inter> ({off..<off'} - ars_set ds) = {}"
    "(bs_set (a_data s) \<union> ({off..<off'} - ars_set ds)) \<inter> {off'..<off + length bs} = {}"
    using new D(8) by auto
  have "bs_len (a_data s1) + length bs' = card (bs_set (a_data s1) \<union> {off'..<off + length bs})"
    unfolding sets(1,2) using disj s1(5) D(5) by (simp add: card_Un_disjoint)
  then have "bs_len (a_data s') = card (bs_set (a_data s'))"
    using card by simp
  moreover have "bs_set (a_data s') \<subseteq> R \<union> {off..<off + length bs}" "bs_set (a_data s') \<inter> D = {}"
    using data new D(4,6,8) unfolding sets(1) by blast+
  moreover have "R \<union> {off..<off + length bs} \<subseteq> {0..<e}"
    using D(7) by (auto simp: e_def dest: subsetD)
  ultimately have "asm_inv f (R \<union> {off..<off + length bs}) D s'"
    unfolding asm_inv_def add(3-5) using add(2) D(1-3,6)
    by (auto simp: ars_insert_inv ars_insert_set r_def)
  moreover have "a_state t = Unordered recvd"
    using st by (simp add: t_def)
  then have "Assembler_insert off bs al s = Some s'"
    using dedup add(1) bytes by (simp add: Assembler_insert_def Let_def flip: e_def t_def r_def ds_def s2_def)
  ultimately show ?thesis
    using add unfolding e_def by blast
qed

section \<open>Switching to unordered reads\<close>

lemma recvd_of_buffers:
  fixes bs :: "Buffer list"
  assumes "ars_inv r0"
  defines "r \<equiv> fold (\<lambda>c r. snd (ars_insert (b_offset c, b_offset c + length (b_bytes c)) r)) bs r0"
  shows "ars_inv r \<and> ars_set r = ars_set r0 \<union> bs_set bs"
proof -
  have "r = fold (\<lambda>x r. snd (ars_insert x r)) (map (\<lambda>c. (b_offset c, b_offset c + length (b_bytes c))) bs) r0"
    by (simp add: r_def fold_map comp_def)
  then show ?thesis
    using ars.fold_insert [OF assms(1), of "map (\<lambda>c. (b_offset c, b_offset c + length (b_bytes c))) bs"]
    by (simp add: bs_set_def b_set_def)
qed

lemma Assembler_ensure_ordering_spec:
  assumes inv: "asm_inv f R D s"
  shows "case Assembler_ensure_ordering ordered s of
      Inl _ \<Rightarrow> ordered \<and> \<not> State_is_ordered (a_state s)
    | Inr s' \<Rightarrow> asm_inv f R D s' \<and> State_is_ordered (a_state s') = ordered \<and>
        (ordered \<longrightarrow> s' = s) \<and> a_bytes_read s' = a_bytes_read s"
proof (cases "\<not> ordered \<and> State_is_ordered (a_state s)")
  case True
  then have st: "a_state s = Ordered"
    by (cases "a_state s") (auto simp: State_is_ordered_def)
  let ?r = "a_bytes_read s"
  have wf: "asm_wf f s" and D: "D = {0..<?r}" "D \<subseteq> R" "R \<subseteq> {0..<a_end s}" "bs_set (a_data s) \<subseteq> R"
    "R \<subseteq> D \<union> bs_set (a_data s)"
    using inv st by (auto simp: asm_inv_def)
  define s1 where "s1 = (if a_data s \<noteq> [] then Assembler_defragment s else s)"
  have ok: "\<forall>b \<in> set (a_data s). b_ok f b" "sorted_wrt b_le (a_data s)"
    using wf by (auto simp: asm_wf_def)
  have s1: "asm_wf f s1" "bs_set (a_data s1) = bs_set (a_data s) - {0..<?r}" "a_bytes_read s1 = ?r"
    "a_end s1 = a_end s" "bs_len (a_data s1) = card (bs_set (a_data s1))"
    using wf defragment_wf(1) [OF wf] Assembler_defragment_spec [OF ok] by (auto simp: s1_def)
  define r0 where "r0 = snd (ars_insert (0, ?r) [])"
  define recvd where "recvd = fold (\<lambda>c r. snd (ars_insert (b_offset c, b_offset c + length (b_bytes c)) r))
      (a_data s1) r0"
  have "ars_inv r0" "ars_set r0 = D"
    using ars_insert_inv [of "[]"] ars_insert_set [of "[]"] D(1) by (simp_all add: r0_def)
  then have recvd: "ars_inv recvd" "ars_set recvd = D \<union> bs_set (a_data s1)"
    using recvd_of_buffers [of r0 "a_data s1"] by (simp_all add: recvd_def)
  have "ars_set recvd = R"
    unfolding recvd(2) s1(2) using D by blast
  moreover have "bs_set (a_data s1) \<subseteq> R" "bs_set (a_data s1) \<inter> D = {}" "card D = ?r"
    unfolding s1(2) using D by auto
  ultimately have "asm_inv f R D (s1\<lparr>a_state := Unordered recvd\<rparr>)"
    using s1 D(2,3) recvd(1) by (simp add: asm_inv_def asm_wf_state)
  moreover have "Assembler_ensure_ordering ordered s = Inr (s1\<lparr>a_state := Unordered recvd\<rparr>)"
    using True s1(3) by (simp add: Assembler_ensure_ordering_def Let_def recvd_def r0_def flip: s1_def)
  ultimately show ?thesis
    using True s1(3) by (simp add: State_is_ordered_def)
qed (use inv in \<open>auto simp: Assembler_ensure_ordering_def\<close>)

section \<open>Runs of the assembler\<close>

text \<open>
  Frames of a stream \<open>f\<close> arrive in any order, repeated and overlapping, and the application
  reads in between; a read first asks for its mode, as \<open>Chunks::new\<close> does.  The ghost part of
  the state records the offsets received and the chunks delivered.
\<close>

record asm_sys =
  as_asm :: Assembler
  as_recvd :: "nat set"
  as_out :: "Chunk list"

datatype asm_event = AsmInsert nat nat nat | AsmRead nat bool

definition asm_sys_init :: asm_sys where
  "asm_sys_init = \<lparr>as_asm = Assembler_new, as_recvd = {}, as_out = []\<rparr>"

fun asm_enabled :: "asm_event \<Rightarrow> bool" where
  "asm_enabled (AsmInsert off n al) = (n \<le> al)"
| "asm_enabled (AsmRead m ordered) = True"

fun asm_exec :: "(nat \<Rightarrow> byte) \<Rightarrow> asm_event \<Rightarrow> asm_sys \<Rightarrow> asm_sys option" where
  "asm_exec f (AsmInsert off n al) s = do {
     a \<leftarrow> Assembler_insert off (map f [off..<off + n]) al (as_asm s);
     Some (s\<lparr>as_asm := a, as_recvd := as_recvd s \<union> {off..<off + n}\<rparr>) }"
| "asm_exec f (AsmRead m ordered) s =
     (case Assembler_ensure_ordering ordered (as_asm s) of
        Inl _ \<Rightarrow> Some s
      | Inr a \<Rightarrow> do {
          (res, a) \<leftarrow> Assembler_read m ordered a;
          Some (case res of
                  None \<Rightarrow> s\<lparr>as_asm := a\<rparr>
                | Some c \<Rightarrow> s\<lparr>as_asm := a, as_out := as_out s @ [c]\<rparr>) })"

inductive asm_step :: "(nat \<Rightarrow> byte) \<Rightarrow> asm_sys \<Rightarrow> asm_sys \<Rightarrow> bool" for f where
  "asm_enabled e \<Longrightarrow> asm_exec f e s = Some s' \<Longrightarrow> asm_step f s s'"

inductive_cases asm_step_cases: "asm_step f s s'"

definition out_set :: "Chunk list \<Rightarrow> nat set" where
  "out_set cs = (\<Union>c \<in> set cs. c_set c)"

definition out_bytes :: "Chunk list \<Rightarrow> byte list" where
  "out_bytes cs = concat (map c_bytes cs)"

definition asm_sys_inv :: "(nat \<Rightarrow> byte) \<Rightarrow> asm_sys \<Rightarrow> bool" where
  "asm_sys_inv f s \<longleftrightarrow>
     asm_inv (only f) (as_recvd s) (out_set (as_out s)) (as_asm s) \<and>
     (\<forall>c \<in> set (as_out s). fits (only f) (c_offset c) (c_bytes c)) \<and>
     length (out_bytes (as_out s)) = card (out_set (as_out s)) \<and>
     (a_state (as_asm s) = Ordered \<longrightarrow> fits (only f) 0 (out_bytes (as_out s)))"

lemma asm_sys_init_inv: "asm_sys_inv f asm_sys_init"
  by (simp add: asm_sys_inv_def asm_sys_init_def asm_inv_new out_set_def out_bytes_def)

lemma finite_c_set [simp]: "finite (c_set c)" and card_c_set [simp]: "card (c_set c) = length (c_bytes c)"
  by (simp_all add: c_set_def)

lemma finite_out_set [simp]: "finite (out_set cs)"
  by (simp add: out_set_def)

lemma out_snoc [simp]:
  "out_set (cs @ [c]) = out_set cs \<union> c_set c" "out_bytes (cs @ [c]) = out_bytes cs @ c_bytes c"
  by (auto simp: out_set_def out_bytes_def)

lemma asm_insert_step:
  assumes "asm_sys_inv f s" and "n \<le> al"
  shows "\<exists>s'. asm_exec f (AsmInsert off n al) s = Some s' \<and> asm_sys_inv f s'"
proof (cases "a_state (as_asm s)")
  case Ordered
  then show ?thesis
    using assms Assembler_insert_ordered [of "only f" _ _ "as_asm s" off "map f [off..<off + n]" al]
    by (fastforce simp: asm_sys_inv_def)
next
  case (Unordered r)
  then show ?thesis
    using assms Assembler_insert_unordered [of "only f" _ _ "as_asm s" r off "map f [off..<off + n]" al]
    by (fastforce simp: asm_sys_inv_def)
qed

text \<open>A chunk of new data is appended to what has been delivered.\<close>

lemma asm_deliver_inv:
  assumes "asm_sys_inv f s" and "asm_inv (only f) (as_recvd s) (out_set (as_out s) \<union> c_set c) a"
    and "c_set c \<subseteq> as_recvd s - out_set (as_out s)" and "fits (only f) (c_offset c) (c_bytes c)"
    and "a_state a = Ordered \<Longrightarrow> a_state (as_asm s) = Ordered \<and> c_offset c = a_bytes_read (as_asm s)"
  shows "asm_sys_inv f (s\<lparr>as_asm := a, as_out := as_out s @ [c]\<rparr>)"
proof -
  let ?out = "as_out s"
  have len: "length (out_bytes ?out) = card (out_set ?out)"
    using assms(1) by (simp add: asm_sys_inv_def)
  have "card (out_set ?out \<union> c_set c) = card (out_set ?out) + length (c_bytes c)"
    using assms(3) by (subst card_Un_disjoint) auto
  moreover have "fits (only f) 0 (out_bytes ?out @ c_bytes c)" if "a_state a = Ordered"
  proof -
    have "fits (only f) 0 (out_bytes ?out)" "out_set ?out = {0..<c_offset c}"
      using assms(1,5) that by (auto simp: asm_sys_inv_def asm_inv_def)
    then show ?thesis
      using len assms(4) by (simp add: fits_append)
  qed
  ultimately show ?thesis
    using assms(1,2,4) len by (auto simp: asm_sys_inv_def)
qed

lemma asm_read_step:
  assumes "asm_sys_inv f s"
  shows "\<exists>s'. asm_exec f (AsmRead m ordered) s = Some s' \<and> asm_sys_inv f s'"
proof (cases "Assembler_ensure_ordering ordered (as_asm s)")
  case (Inl e)
  then show ?thesis
    using assms by simp
next
  case (Inr a)
  let ?R = "as_recvd s" and ?D = "out_set (as_out s)"
  have inv: "asm_inv (only f) ?R ?D (as_asm s)"
    using assms by (simp add: asm_sys_inv_def)
  have a: "asm_inv (only f) ?R ?D a" "State_is_ordered (a_state a) = ordered" "ordered \<longrightarrow> a = as_asm s"
    using Assembler_ensure_ordering_spec [OF inv, of ordered] Inr by auto
  show ?thesis
  proof (cases ordered)
    case True
    then have st: "a_state a = Ordered" and eq: "a = as_asm s"
      using a by (auto simp: State_is_ordered_def split: State.splits)
    obtain res a' where read: "Assembler_read m True a = Some (res, a')" "a_state a' = a_state a"
      and res: "case res of None \<Rightarrow> asm_inv (only f) ?R ?D a' \<and> a_bytes_read a' = a_bytes_read a \<and> a_bytes_read a \<notin> ?R
        | Some c \<Rightarrow> asm_inv (only f) ?R (?D \<union> c_set c) a' \<and> c_offset c = a_bytes_read a \<and>
            fits (only f) (c_offset c) (c_bytes c) \<and> c_set c \<subseteq> ?R - ?D \<and> length (c_bytes c) \<le> m \<and>
            (0 < m \<longrightarrow> c_bytes c \<noteq> [])"
      using Assembler_read_ordered [OF a(1) st, of m] by blast
    show ?thesis
    proof (cases res)
      case None
      then show ?thesis
        using Inr read res True assms st eq by (auto simp: asm_sys_inv_def)
    next
      case (Some c)
      then have "asm_sys_inv f (s\<lparr>as_asm := a', as_out := as_out s @ [c]\<rparr>)"
        using res st eq read(2) by (intro asm_deliver_inv [OF assms]) auto
      then show ?thesis
        using Inr read Some True by simp
    qed
  next
    case False
    then have st: "\<not> State_is_ordered (a_state a)"
      using a(2) by simp
    obtain res a' where read: "Assembler_read m False a = Some (res, a')" "a_state a' = a_state a"
      and res: "case res of None \<Rightarrow> a_data a = [] \<and> a' = a
        | Some c \<Rightarrow> asm_inv (only f) ?R (?D \<union> c_set c) a' \<and> c_set c \<subseteq> ?R - ?D \<and> fits (only f) (c_offset c) (c_bytes c) \<and>
            length (c_bytes c) \<le> m \<and> (0 < m \<longrightarrow> c_bytes c \<noteq> []) \<and>
            bs_set (a_data a') = bs_set (a_data a) - c_set c"
      using Assembler_read_unordered [OF a(1) st, of m] by blast
    have un: "a_state a' \<noteq> Ordered"
      using st read(2) by (auto simp: State_is_ordered_def)
    show ?thesis
    proof (cases res)
      case None
      then show ?thesis
        using Inr read res False assms a(1) un by (auto simp: asm_sys_inv_def)
    next
      case (Some c)
      then have "asm_sys_inv f (s\<lparr>as_asm := a', as_out := as_out s @ [c]\<rparr>)"
        using res un by (intro asm_deliver_inv [OF assms]) auto
      then show ?thesis
        using Inr read Some False by simp
    qed
  qed
qed

lemma asm_exec_inv:
  assumes "asm_sys_inv f s" and "asm_enabled e"
  shows "\<exists>s'. asm_exec f e s = Some s' \<and> asm_sys_inv f s'"
  using assms asm_insert_step asm_read_step by (cases e) (simp_all del: asm_exec.simps)

interpretation asm_life: invariant_system "\<lambda>s. s = asm_sys_init" "asm_step f" "asm_sys_inv f" for f
proof unfold_locales
  show "asm_sys_inv f t" if "asm_sys_inv f s" "asm_step f s t" for s t
    using that(2) asm_exec_inv [OF that(1)] by (elim asm_step_cases) fastforce
qed (simp add: asm_sys_init_inv)

lemmas asm_reachable_inv = asm_life.inv_reachable [OF refl]

fun asm_run :: "(nat \<Rightarrow> byte) \<Rightarrow> asm_event list \<Rightarrow> asm_sys \<Rightarrow> asm_sys option" where
  "asm_run f [] s = Some s"
| "asm_run f (e # es) s = do {
     assert_opt (asm_enabled e);
     s \<leftarrow> asm_exec f e s;
     asm_run f es s }"

lemma asm_run_steps: "asm_run f es s = Some t \<Longrightarrow> (asm_step f)\<^sup>*\<^sup>* s t"
proof (induction es arbitrary: s)
  case (Cons e es)
  then obtain u where "asm_enabled e" "asm_exec f e s = Some u" "asm_run f es u = Some t"
    by (auto elim!: bind_Some_elim)
  then show ?case
    using Cons.IH asm_step.intros by (meson converse_rtranclp_into_rtranclp)
qed simp

text \<open>One ordered read of a reachable state, with what it means for the received data.\<close>

lemma asm_ordered_read_step:
  assumes inv: "asm_sys_inv f s" and st: "a_state (as_asm s) = Ordered" and m: "0 < m"
  shows "\<exists>res a. Assembler_read m True (as_asm s) = Some (res, a) \<and> a_state a = Ordered \<and>
    (res = None \<longleftrightarrow> a_bytes_read (as_asm s) \<notin> as_recvd s) \<and>
    (\<forall>c. res = Some c \<longrightarrow> c_bytes c \<noteq> [] \<and> c_set c \<subseteq> as_recvd s - out_set (as_out s) \<and>
       asm_exec f (AsmRead m True) s = Some (s\<lparr>as_asm := a, as_out := as_out s @ [c]\<rparr>))"
proof -
  let ?R = "as_recvd s" and ?D = "out_set (as_out s)"
  have "asm_inv (only f) ?R ?D (as_asm s)"
    using inv by (simp add: asm_sys_inv_def)
  from Assembler_read_ordered [OF this st, of m] obtain res a where
    read: "Assembler_read m True (as_asm s) = Some (res, a)" "a_state a = Ordered"
    and res: "case res of None \<Rightarrow> asm_inv (only f) ?R ?D a \<and> a_bytes_read a = a_bytes_read (as_asm s) \<and>
          a_bytes_read (as_asm s) \<notin> ?R
      | Some c \<Rightarrow> asm_inv (only f) ?R (?D \<union> c_set c) a \<and> c_offset c = a_bytes_read (as_asm s) \<and>
          fits (only f) (c_offset c) (c_bytes c) \<and> c_set c \<subseteq> ?R - ?D \<and> length (c_bytes c) \<le> m \<and>
          (0 < m \<longrightarrow> c_bytes c \<noteq> [])"
    using st by auto
  have ens: "Assembler_ensure_ordering True (as_asm s) = Inr (as_asm s)"
    using st by (simp add: Assembler_ensure_ordering_def State_is_ordered_def)
  show ?thesis
  proof (cases res)
    case None
    then show ?thesis
      using read res by auto
  next
    case (Some c)
    then have "c_offset c \<in> c_set c" "c_set c \<subseteq> ?R - ?D" "c_offset c = a_bytes_read (as_asm s)"
      using res m by (auto simp: c_set_def)
    then show ?thesis
      using read res Some ens m by auto
  qed
qed

lemma asm_drain:
  assumes "asm_sys_inv f s" and "a_state (as_asm s) = Ordered" and "0 < m"
  shows "\<exists>n s'. asm_run f (replicate n (AsmRead m True)) s = Some s' \<and> asm_sys_inv f s' \<and>
    a_state (as_asm s') = Ordered \<and> as_recvd s' = as_recvd s \<and> a_bytes_read (as_asm s') \<notin> as_recvd s"
  using assms(1,2)
proof (induction "card (as_recvd s - out_set (as_out s))" arbitrary: s rule: less_induct)
  case less
  from asm_ordered_read_step [OF less.prems assms(3)] obtain res a where
    read: "a_state a = Ordered" "res = None \<longleftrightarrow> a_bytes_read (as_asm s) \<notin> as_recvd s"
    and some: "\<forall>c. res = Some c \<longrightarrow> c_bytes c \<noteq> [] \<and> c_set c \<subseteq> as_recvd s - out_set (as_out s) \<and>
       asm_exec f (AsmRead m True) s = Some (s\<lparr>as_asm := a, as_out := as_out s @ [c]\<rparr>)"
    by blast
  show ?case
  proof (cases res)
    case None
    then show ?thesis
      using less.prems read by (intro exI [where x = 0] exI [where x = s]) simp
  next
    case (Some c)
    define t where "t = s\<lparr>as_asm := a, as_out := as_out s @ [c]\<rparr>"
    have c: "c_bytes c \<noteq> []" "c_set c \<subseteq> as_recvd s - out_set (as_out s)"
      "asm_exec f (AsmRead m True) s = Some t"
      using some Some by (auto simp: t_def)
    have t: "asm_sys_inv f t" "a_state (as_asm t) = Ordered" "as_recvd t = as_recvd s"
      using asm_read_step [OF less.prems(1), of m True] c(3) read by (simp_all add: t_def)
    have "c_offset c \<in> c_set c"
      using c(1) by (simp add: c_set_def)
    then have "as_recvd t - out_set (as_out t) \<subset> as_recvd s - out_set (as_out s)"
      using c(2) by (auto simp: t_def)
    moreover have "finite (as_recvd s)"
      using less.prems(1) by (auto simp: asm_sys_inv_def asm_inv_def intro: finite_subset)
    ultimately have "card (as_recvd t - out_set (as_out t)) < card (as_recvd s - out_set (as_out s))"
      by (intro psubset_card_mono) simp_all
    from less.hyps [OF this t(1,2)] obtain n s' where
      "asm_run f (replicate n (AsmRead m True)) t = Some s'" "asm_sys_inv f s'"
      "a_state (as_asm s') = Ordered" "as_recvd s' = as_recvd s" "a_bytes_read (as_asm s') \<notin> as_recvd s"
      using t(3) by auto
    then show ?thesis
      using c(3) by (intro exI [where x = "Suc n"] exI [where x = s']) simp
  qed
qed

section \<open>Properties\<close>

text \<open>A sample run: frames out of order, overlapping, with a read in between.\<close>

definition asm_demo :: "asm_event list" where
  "asm_demo = [AsmInsert 4 3 3, AsmInsert 0 2 9, AsmRead 1 True, AsmInsert 1 4 4]"

lemmas asm_eval = asm_sys_init_def Assembler_new_def Assembler_insert_def Assembler_add_def
  Assembler_push_def Buffer_new_def Assembler_ensure_ordering_def State_is_ordered_def
  Assembler_read.simps Assembler_take_def Let_def Buffer_before_def Assembler_defragment_def
  try_mark_defragment_def ars_insert_def range_is_empty_def Buffer_new_defragmented_def
  ars_iter_range_def map_filter_simps upt_rec

lemma asm_demo_runs:
  "\<exists>s. asm_run f asm_demo asm_sys_init = Some s \<and> a_state (as_asm s) = Ordered"
  by (simp add: asm_demo_def asm_eval)

text \<open>
  C8: ordered reassembly: whatever order, duplication and overlap the frames of a stream \<open>f\<close>
  arrive in, as long as the application only reads in order, the bytes delivered so far are the
  first \<open>bytes_read\<close> bytes of the stream, all of which have been received.
\<close>

theorem asm_ordered_delivery:
  assumes "(asm_step f)\<^sup>*\<^sup>* asm_sys_init s" and "a_state (as_asm s) = Ordered"
  shows "out_bytes (as_out s) = map f [0..<a_bytes_read (as_asm s)] \<and>
         {0..<a_bytes_read (as_asm s)} \<subseteq> as_recvd s"
proof -
  have inv: "asm_sys_inv f s"
    using asm_reachable_inv [OF assms(1)] .
  then have "out_set (as_out s) = {0..<a_bytes_read (as_asm s)}" "{0..<a_bytes_read (as_asm s)} \<subseteq> as_recvd s"
    using assms(2) by (auto simp: asm_sys_inv_def asm_inv_def)
  moreover from this have "length (out_bytes (as_out s)) = a_bytes_read (as_asm s)"
    using inv by (simp add: asm_sys_inv_def)
  ultimately show ?thesis
    using inv assms(2) by (simp add: asm_sys_inv_def fits_only)
qed

theorem asm_ordered_delivery_witness:
  "\<exists>s. asm_run of_nat asm_demo asm_sys_init = Some s \<and>
     out_bytes (as_out s) = map of_nat [0..<a_bytes_read (as_asm s)]"
  using asm_demo_runs [of of_nat] asm_ordered_delivery [OF asm_run_steps] by blast

text \<open>
  C10: completeness of ordered reads: reading in order until nothing is returned ends, and then the
  application has got everything up to the first byte that has not been received.
\<close>

theorem asm_ordered_complete:
  assumes "(asm_step f)\<^sup>*\<^sup>* asm_sys_init s" and "a_state (as_asm s) = Ordered" and "0 < m"
  shows "\<exists>n s'. asm_run f (replicate n (AsmRead m True)) s = Some s' \<and>
     out_bytes (as_out s') = map f [0..<a_bytes_read (as_asm s')] \<and>
     {0..<a_bytes_read (as_asm s')} \<subseteq> as_recvd s \<and> a_bytes_read (as_asm s') \<notin> as_recvd s"
proof -
  obtain n s' where run: "asm_run f (replicate n (AsmRead m True)) s = Some s'" "asm_sys_inv f s'"
    "a_state (as_asm s') = Ordered" "as_recvd s' = as_recvd s" "a_bytes_read (as_asm s') \<notin> as_recvd s"
    using asm_drain [OF asm_reachable_inv [OF assms(1)] assms(2,3)] by blast
  then have "out_set (as_out s') = {0..<a_bytes_read (as_asm s')}" "{0..<a_bytes_read (as_asm s')} \<subseteq> as_recvd s"
    by (auto simp: asm_sys_inv_def asm_inv_def)
  moreover from this have "length (out_bytes (as_out s')) = a_bytes_read (as_asm s')"
    using run(2) by (simp add: asm_sys_inv_def)
  ultimately have "out_bytes (as_out s') = map f [0..<a_bytes_read (as_asm s')]"
    using run(2,3) by (simp add: asm_sys_inv_def fits_only)
  then show ?thesis
    using run \<open>{0..<a_bytes_read (as_asm s')} \<subseteq> as_recvd s\<close> by blast
qed

theorem asm_ordered_complete_witness:
  "\<exists>s n s'. asm_run of_nat asm_demo asm_sys_init = Some s \<and>
     asm_run of_nat (replicate n (AsmRead 2 True)) s = Some s' \<and>
     a_bytes_read (as_asm s') \<notin> as_recvd s"
  using asm_demo_runs [of of_nat] asm_ordered_complete [OF asm_run_steps, of of_nat asm_demo _ 2] by fastforce

text \<open>
  C26: no byte is delivered twice, in either mode and across the switch to unordered reads: the number
  of bytes delivered is the number of different offsets delivered, every chunk carries the bytes of
  the stream at its offset, and only data that was received is delivered.
\<close>

theorem asm_delivers_once:
  assumes "(asm_step f)\<^sup>*\<^sup>* asm_sys_init s"
  shows "length (out_bytes (as_out s)) = card (out_set (as_out s)) \<and> out_set (as_out s) \<subseteq> as_recvd s \<and>
     (\<forall>c \<in> set (as_out s). c_bytes c = map f [c_offset c..<c_offset c + length (c_bytes c)])"
  using asm_reachable_inv [OF assms] by (auto simp: asm_sys_inv_def asm_inv_def fits_only)

theorem asm_delivers_once_witness:
  "\<exists>s. asm_run of_nat asm_demo asm_sys_init = Some s \<and>
     length (out_bytes (as_out s)) = card (out_set (as_out s))"
  using asm_demo_runs [of of_nat] asm_delivers_once [OF asm_run_steps] by blast

text \<open>
  C27: the assembler does not panic: in every reachable state each insertion of a frame no larger
  than its allocation and each read, ordered or not, is executed; in particular the counters
  \<open>buffered\<close> and \<open>allocated\<close> are exact sums over the buffers and never underflow.
\<close>

theorem asm_never_panics:
  assumes "(asm_step f)\<^sup>*\<^sup>* asm_sys_init s" and "asm_enabled e"
  shows "(\<exists>s'. asm_exec f e s = Some s') \<and>
     a_buffered (as_asm s) = sum_list (map (\<lambda>b. length (b_bytes b)) (a_data (as_asm s))) \<and>
     a_allocated (as_asm s) = sum_list (map b_allocation_size (a_data (as_asm s))) \<and>
     a_buffered (as_asm s) \<le> a_allocated (as_asm s)"
proof -
  have inv: "asm_sys_inv f s"
    using asm_reachable_inv [OF assms(1)] .
  then have "asm_wf (only f) (as_asm s)"
    by (simp add: asm_sys_inv_def asm_inv_def)
  then show ?thesis
    using asm_exec_inv [OF inv assms(2)] asm_wf_alloc
    by (auto simp: asm_wf_def bs_len_def bs_alloc_def)
qed

theorem asm_never_panics_witness:
  "\<exists>s s'. asm_run of_nat asm_demo asm_sys_init = Some s \<and> asm_exec of_nat (AsmRead 3 False) s = Some s'"
  using asm_demo_runs [of of_nat] asm_never_panics [OF asm_run_steps, of of_nat asm_demo _ "AsmRead 3 False"]
  by fastforce




text \<open>
  in unordered mode the over-allocation is not checked for a frame that ends in duplicate data:
  after this run the estimated allocation exceeds the limit that ordered insertion keeps.
\<close>

theorem asm_unordered_unchecked_allocation:
  "\<exists>s. asm_run f [AsmRead 1 False, AsmInsert 9 1 1, AsmInsert 8 2 40000] asm_sys_init = Some s \<and>
     a_allocated (as_asm s) > alloc_limit (a_end (as_asm s) - a_bytes_read (as_asm s))"
  by (simp add: asm_eval alloc_limit_def)

end
