(* ===== verification/Stream_Id.thy ===== *)
theory Stream_Id
  imports Var_Int
begin

text \<open>
  Stream identifiers (\<open>Side\<close>, \<open>Dir\<close> and \<open>StreamId\<close> in \<open>noq-proto/src/lib.rs\<close>).

  A stream id is a \<open>u64\<close> in the source; here it is the natural number, which is the same as
  long as the index is below 2^62 (\<open>StreamId_new_word\<close>), as every index that the variable-length
  encoding can carry is.
\<close>

section \<open>Definitions\<close>

datatype Side = Client | Server

definition Side_not :: "Side \<Rightarrow> Side" where
  "Side_not s = (case s of Client \<Rightarrow> Server | Server \<Rightarrow> Client)"

definition side_bit :: "Side \<Rightarrow> nat" where
  "side_bit s = (case s of Client \<Rightarrow> 0 | Server \<Rightarrow> 1)"

datatype Dir = Bi | Uni

definition dir_bit :: "Dir \<Rightarrow> nat" where
  "dir_bit d = (case d of Bi \<Rightarrow> 0 | Uni \<Rightarrow> 1)"

definition Dir_iter :: "Dir list" where
  "Dir_iter = [Bi, Uni]"

datatype StreamId = StreamId (sid: nat)

definition StreamId_new :: "Side \<Rightarrow> Dir \<Rightarrow> nat \<Rightarrow> StreamId" where
  "StreamId_new initiator dir index =
     StreamId ((push_bit 2 index OR push_bit 1 (dir_bit dir)) OR side_bit initiator)"

definition StreamId_initiator :: "StreamId \<Rightarrow> Side" where
  "StreamId_initiator self = (if sid self AND 1 = 0 then Client else Server)"

definition StreamId_dir :: "StreamId \<Rightarrow> Dir" where
  "StreamId_dir self = (if sid self AND 2 = 0 then Bi else Uni)"

definition StreamId_index :: "StreamId \<Rightarrow> nat" where
  "StreamId_index self = drop_bit 2 (sid self)"

definition MAX_STREAM_COUNT :: nat where
  "MAX_STREAM_COUNT = 2 ^ 60"

text \<open>The encoding, which panics (\<open>unwrap\<close>) for an id of 2^62 or more.\<close>

definition StreamId_encode :: "StreamId \<Rightarrow> byte list option" where
  "StreamId_encode self = (case VarInt_from_u64 (of_nat (sid self)) of Inl _ \<Rightarrow> None | Inr v \<Rightarrow> VarInt_encode v)"

definition StreamId_decode :: "byte list \<Rightarrow> (StreamId \<times> byte list) option" where
  "StreamId_decode buf = map_option (\<lambda>(v, rest). (StreamId (unat (into_inner v)), rest)) (VarInt_decode buf)"

section \<open>Arithmetic of stream ids\<close>

lemma side_bit_simps [simp]: "side_bit Client = 0" "side_bit Server = 1"
  by (simp_all add: side_bit_def)

lemma dir_bit_simps [simp]: "dir_bit Bi = 0" "dir_bit Uni = 1"
  by (simp_all add: dir_bit_def)

lemma Side_not_simps [simp]:
  "Side_not Client = Server" "Side_not Server = Client" "Side_not (Side_not s) = s" "Side_not s \<noteq> s"
  by (cases s; simp add: Side_not_def)+

lemma Side_neq_iff: "s \<noteq> t \<longleftrightarrow> t = Side_not s"
  by (cases s; cases t) simp_all

text \<open>The bits of the three parts do not overlap, so that the \<open>OR\<close> is a sum.\<close>

lemma StreamId_new_sum: "sid (StreamId_new s d i) = 4 * i + 2 * dir_bit d + side_bit s"
proof -
  have "push_bit 2 i OR push_bit 1 (dir_bit d) = 4 * i + 2 * dir_bit d"
    using or_nat_disjoint [of "push_bit 1 (dir_bit d)" 2 i]
    by (cases d) (simp_all add: push_bit_eq_mult ac_simps)
  moreover have "(4 * i + 2 * dir_bit d) OR side_bit s = 4 * i + 2 * dir_bit d + side_bit s"
    using or_nat_disjoint [of "side_bit s" 1 "2 * i + dir_bit d"]
    by (cases s) (simp_all add: push_bit_eq_mult ac_simps)
  ultimately show ?thesis
    by (simp add: StreamId_new_def)
qed

lemma sid_and_1: "n AND 1 = 0 \<longleftrightarrow> even (n :: nat)"
  by (simp add: and_one_eq even_iff_mod_2_eq_zero)

lemma sid_and_2: "n AND 2 = 0 \<longleftrightarrow> even (n div 2 :: nat)"
proof -
  have "n AND 2 ^ 1 = 0 \<longleftrightarrow> \<not> bit n 1"
    by (rule and_exp_eq_0_iff_not_bit)
  then show ?thesis
    by (simp add: bit_iff_odd)
qed

lemma StreamId_new_parts [simp]:
  "StreamId_initiator (StreamId_new s d i) = s"
  "StreamId_dir (StreamId_new s d i) = d"
  "StreamId_index (StreamId_new s d i) = i"
proof -
  have "even (4 * i + 2 * dir_bit d + side_bit s) \<longleftrightarrow> s = Client"
    by (cases s) simp_all
  then show "StreamId_initiator (StreamId_new s d i) = s"
    unfolding StreamId_initiator_def StreamId_new_sum sid_and_1 by (cases s) simp_all
  have "(4 * i + 2 * dir_bit d + side_bit s) div 2 = 2 * i + dir_bit d"
    by (cases s) simp_all
  then show "StreamId_dir (StreamId_new s d i) = d"
    unfolding StreamId_dir_def StreamId_new_sum sid_and_2 by (cases d) simp_all
  have "(4 * i + 2 * dir_bit d + side_bit s) div 4 = i"
    by (cases s; cases d; simp only: dir_bit_simps side_bit_simps; presburger)
  then show "StreamId_index (StreamId_new s d i) = i"
    unfolding StreamId_index_def StreamId_new_sum by (simp add: drop_bit_eq_div)
qed

lemma StreamId_parts_new: "StreamId_new (StreamId_initiator x) (StreamId_dir x) (StreamId_index x) = x"
proof -
  have "sid (StreamId_new (StreamId_initiator x) (StreamId_dir x) (StreamId_index x)) = sid x"
    unfolding StreamId_new_sum StreamId_initiator_def StreamId_dir_def StreamId_index_def sid_and_1 sid_and_2
    by (simp add: drop_bit_eq_div) presburger
  then show ?thesis
    by (cases x; cases "StreamId_new (StreamId_initiator x) (StreamId_dir x) (StreamId_index x)") simp
qed

lemma StreamId_new_inject [simp]:
  "StreamId_new s d i = StreamId_new t e j \<longleftrightarrow> s = t \<and> d = e \<and> i = j"
  by (metis StreamId_new_parts)

lemma StreamId_eqI:
  "StreamId_initiator x = StreamId_initiator y \<Longrightarrow> StreamId_dir x = StreamId_dir y \<Longrightarrow>
   StreamId_index x = StreamId_index y \<Longrightarrow> x = y"
  by (metis StreamId_parts_new)

lemma StreamId_exhaust: obtains s d i where "x = StreamId_new s d i"
  by (metis StreamId_parts_new)

lemma Dir_iter_set [simp]: "d \<in> set Dir_iter"
  by (cases d) (simp_all add: Dir_iter_def)

text \<open>The computation of the source on \<open>u64\<close> gives the same number.\<close>

definition StreamId_new_u64 :: "Side \<Rightarrow> Dir \<Rightarrow> u64 \<Rightarrow> u64" where
  "StreamId_new_u64 initiator dir index =
     (push_bit 2 index OR push_bit 1 (of_nat (dir_bit dir))) OR of_nat (side_bit initiator)"

lemma unat_push_bit_2: "unat x < 2 ^ 62 \<Longrightarrow> unat (push_bit 2 x :: u64) = 4 * unat x"
  by (simp add: push_bit_eq_mult unat_word_ariths)

lemma StreamId_new_word:
  assumes "unat x < 2 ^ 62"
  shows "unat (StreamId_new_u64 s d x) = sid (StreamId_new s d (unat x))"
proof -
  have "unat (push_bit 1 (of_nat (dir_bit d)) :: u64) = push_bit 1 (dir_bit d)"
    "unat (of_nat (side_bit s) :: u64) = side_bit s"
    by (cases d; simp) (cases s; simp)
  then show ?thesis
    using unat_push_bit_2 [OF assms]
    by (simp add: StreamId_new_u64_def StreamId_new_def unsigned_or_eq push_bit_eq_mult ac_simps)
qed

section \<open>Properties\<close>

text \<open>
  a stream id and its three parts determine each other: \<open>new\<close> followed by \<open>initiator\<close>,
  \<open>dir\<close> and \<open>index\<close> returns the arguments, and every id is the one made of its parts.
\<close>

theorem StreamId_roundtrip:
  "StreamId_initiator (StreamId_new s d i) = s \<and> StreamId_dir (StreamId_new s d i) = d \<and>
   StreamId_index (StreamId_new s d i) = i \<and>
   StreamId_new (StreamId_initiator x) (StreamId_dir x) (StreamId_index x) = x"
  by (simp add: StreamId_parts_new)

end
