(* ===== verification/Stream_Frame.thy ===== *)
theory Stream_Frame
  imports Stream_Id
begin

text \<open>
  The contents of a STREAM frame, and what the sender keeps of one it sent (\<open>Stream\<close> and
  \<open>StreamMeta\<close> in \<open>noq-proto/src/frame.rs\<close>).
\<close>

record StreamFrame =
  sf_id :: StreamId
  sf_offset :: nat
  sf_fin :: bool
  sf_data :: "byte list"

record StreamMeta =
  sm_id :: StreamId
  sm_offsets :: range
  sm_fin :: bool

end
