(* ===== verification/Send_Stream.thy ===== *)
theory Send_Stream
  imports Send_Buffer Stream_Frame
begin

text \<open>
  The sending half of a stream (\<open>noq-proto/src/connection/streams/send.rs\<close>): its state machine,
  writing under the flow control limits, and the sources of bytes that a write takes its data from.
\<close>

section \<open>Definitions\<close>

datatype SendState = Ready | DataSent bool | ResetSent

record Send =
  s_max_data :: nat
  s_state :: SendState
  s_pending :: SendBuffer
  s_priority :: int
  s_fin_pending :: bool
  s_connection_blocked :: bool
  s_stop_reason :: "VarInt option"

datatype FinishError = FinishStopped VarInt | FinishClosedStream

datatype WriteError = Blocked | Stopped VarInt | ClosedStreamWrite

record Written =
  w_bytes :: nat
  w_chunks :: nat

definition Send_new :: "nat \<Rightarrow> Send" where
  "Send_new max_data = \<lparr>s_max_data = max_data, s_state = Ready, s_pending = sb_new, s_priority = 0,
     s_fin_pending = False, s_connection_blocked = False, s_stop_reason = None\<rparr>"

definition Send_is_reset :: "Send \<Rightarrow> bool" where
  "Send_is_reset s = (s_state s = ResetSent)"

definition Send_is_writable :: "Send \<Rightarrow> bool" where
  "Send_is_writable s = (s_state s = Ready)"

definition Send_offset :: "Send \<Rightarrow> nat" where
  "Send_offset s = sb_offset (s_pending s)"

definition Send_is_pending :: "Send \<Rightarrow> bool" where
  "Send_is_pending s = (sb_has_unsent_data (s_pending s) \<or> s_fin_pending s)"

definition Send_finish :: "Send \<Rightarrow> FinishError + Send" where
  "Send_finish s =
     (case s_stop_reason s of
        Some error_code \<Rightarrow> Inl (FinishStopped error_code)
      | None \<Rightarrow>
          if s_state s = Ready then Inr (s\<lparr>s_state := DataSent False, s_fin_pending := True\<rparr>)
          else Inl FinishClosedStream)"

text \<open>
  The sources: an array of chunks (\<open>BytesArray\<close>; the list holds the chunks that have not been
  consumed) and a slice (\<open>ByteSlice\<close>).  \<open>pop_chunk\<close> returns the next bytes and the number
  of chunks consumed.
\<close>

datatype Source = BytesArray "byte list list" | ByteSlice "byte list"

fun BytesArray_pop :: "nat \<Rightarrow> nat \<Rightarrow> byte list list \<Rightarrow> byte list \<times> nat \<times> byte list list" where
  "BytesArray_pop limit chunks_consumed [] = ([], chunks_consumed, [])"
| "BytesArray_pop limit chunks_consumed (chunk # chunks) =
     (if length chunk \<le> limit then
        if chunk = [] then BytesArray_pop limit (chunks_consumed + 1) chunks
        else (chunk, chunks_consumed + 1, chunks)
      else if limit > 0 then (take limit chunk, chunks_consumed, drop limit chunk # chunks)
      else ([], chunks_consumed, chunk # chunks))"

definition ByteSlice_pop :: "nat \<Rightarrow> byte list \<Rightarrow> byte list \<times> nat \<times> byte list" where
  "ByteSlice_pop limit data =
     (let limit = min limit (length data) in
      if limit = 0 then ([], 0, data)
      else let chunk = take limit data; data = drop (length chunk) data in
        (chunk, if data = [] then 1 else 0, data))"

definition pop_chunk :: "nat \<Rightarrow> Source \<Rightarrow> byte list \<times> nat \<times> Source" where
  "pop_chunk limit src =
     (case src of
        BytesArray chunks \<Rightarrow> (case BytesArray_pop limit 0 chunks of (c, n, rest) \<Rightarrow> (c, n, BytesArray rest))
      | ByteSlice data \<Rightarrow> (case ByteSlice_pop limit data of (c, n, rest) \<Rightarrow> (c, n, ByteSlice rest)))"

text \<open>The loop of \<open>write\<close>.\<close>

function Send_write_loop :: "nat \<Rightarrow> Source \<Rightarrow> Written \<Rightarrow> SendBuffer \<Rightarrow> (Written \<times> Source \<times> SendBuffer) option" where
  "Send_write_loop limit src result pending =
     (case pop_chunk limit src of
        (chunk, chunks_consumed, src) \<Rightarrow>
          let result = result\<lparr>w_chunks := w_chunks result + chunks_consumed,
                              w_bytes := w_bytes result + length chunk\<rparr> in
          if chunk = [] then Some (result, src, pending)
          else do {
            limit' \<leftarrow> csub limit (length chunk);
            pending \<leftarrow> sb_write chunk pending;
            Send_write_loop limit' src result pending })"
  by pat_completeness auto
termination
  by (relation "measure (\<lambda>(limit, src, result, pending). limit)")
     (auto intro!: diff_less simp: less_le_trans [of 0 "length _"])

definition Send_write :: "Source \<Rightarrow> nat \<Rightarrow> Send \<Rightarrow> (WriteError + (Written \<times> Source \<times> Send)) option" where
  "Send_write src limit s =
     (if \<not> Send_is_writable s then Some (Inl ClosedStreamWrite)
      else case s_stop_reason s of
        Some error_code \<Rightarrow> Some (Inl (Stopped error_code))
      | None \<Rightarrow> do {
          budget \<leftarrow> csub (s_max_data s) (sb_offset (s_pending s));
          if budget = 0 then Some (Inl Blocked)
          else do {
            (result, src, pending) \<leftarrow>
              Send_write_loop (min limit budget) src \<lparr>w_bytes = 0, w_chunks = 0\<rparr> (s_pending s);
            Some (Inr (result, src, s\<lparr>s_pending := pending\<rparr>)) } })"

definition Send_reset :: "Send \<Rightarrow> Send" where
  "Send_reset s = (case s_state s of ResetSent \<Rightarrow> s | _ \<Rightarrow> s\<lparr>s_state := ResetSent\<rparr>)"

definition Send_try_stop :: "VarInt \<Rightarrow> Send \<Rightarrow> bool \<times> Send" where
  "Send_try_stop error_code s =
     (if s_stop_reason s = None then (True, s\<lparr>s_stop_reason := Some error_code\<rparr>) else (False, s))"

definition Send_ack :: "StreamMeta \<Rightarrow> Send \<Rightarrow> (bool \<times> Send) option" where
  "Send_ack frame s = do {
     pending \<leftarrow> sb_ack (sm_offsets frame) (s_pending s);
     let s = s\<lparr>s_pending := pending\<rparr>;
     case s_state s of
       DataSent finish_acked \<Rightarrow>
         let finish_acked = (finish_acked \<or> sm_fin frame) in
         Some (finish_acked \<and> sb_is_fully_acked pending, s\<lparr>s_state := DataSent finish_acked\<rparr>)
     | _ \<Rightarrow> Some (False, s) }"

definition Send_increase_max_data :: "nat \<Rightarrow> Send \<Rightarrow> bool \<times> Send" where
  "Send_increase_max_data off s =
     (if off \<le> s_max_data s \<or> s_state s \<noteq> Ready then (False, s)
      else (sb_offset (s_pending s) = s_max_data s, s\<lparr>s_max_data := off\<rparr>))"

declare Send_write_loop.simps [simp del]

section \<open>Sources\<close>

definition src_bytes :: "Source \<Rightarrow> byte list" where
  "src_bytes src = (case src of BytesArray chunks \<Rightarrow> concat chunks | ByteSlice data \<Rightarrow> data)"

lemma BytesArray_pop_spec:
  "BytesArray_pop limit k chunks = (c, n, rest) \<Longrightarrow>
     c @ concat rest = concat chunks \<and> length c \<le> limit \<and> k \<le> n \<and>
     (c = [] \<longrightarrow> limit = 0 \<or> concat chunks = [])"
  by (induction limit k chunks arbitrary: c n rest rule: BytesArray_pop.induct) (auto split: if_splits)

text \<open>
  The contract of \<open>BytesSource::pop_chunk\<close>: the chunk is the next part of the data, within the
  limit, and only empty if the limit is zero or no data is left.
\<close>

lemma pop_chunk_spec:
  assumes "pop_chunk limit src = (c, n, src')"
  shows "c @ src_bytes src' = src_bytes src" and "length c \<le> limit"
    and "c = [] \<Longrightarrow> limit = 0 \<or> src_bytes src = []"
  using assms BytesArray_pop_spec [of limit 0]
  by (auto simp: pop_chunk_def src_bytes_def ByteSlice_pop_def Let_def min_def split: Source.splits prod.splits if_splits)

section \<open>Writing\<close>

lemma Send_write_loop_spec:
  assumes "sb_inv xs pending"
  shows "\<exists>res src' pending'. Send_write_loop limit src result pending = Some (res, src', pending') \<and>
     w_bytes res = w_bytes result + min limit (length (src_bytes src)) \<and>
     src_bytes src' = drop limit (src_bytes src) \<and>
     sb_inv (xs @ take limit (src_bytes src)) pending' \<and>
     sb_unsent pending' = sb_unsent pending \<and> sb_acks pending' = sb_acks pending \<and>
     sb_retransmits pending' = sb_retransmits pending \<and>
     sbd_offset (sb_data pending') = sbd_offset (sb_data pending)"
  using assms
proof (induction limit src result pending arbitrary: xs rule: Send_write_loop.induct)
  case (1 limit src result pending)
  obtain c n src1 where pop: "pop_chunk limit src = (c, n, src1)"
    by (metis prod_cases3)
  note pop_spec = pop_chunk_spec [OF pop]
  show ?case
  proof (cases "c = []")
    case True
    then have "take limit (src_bytes src) = []" "src_bytes src1 = drop limit (src_bytes src)"
      "min limit (length (src_bytes src)) = 0"
      using pop_spec by auto
    then show ?thesis
      using "1.prems" pop True by (subst Send_write_loop.simps) (auto simp: Let_def)
  next
    case False
    obtain p1 where p1: "sb_write c pending = Some p1" "sb_inv (xs @ c) p1" "sb_unsent p1 = sb_unsent pending"
      "sb_acks p1 = sb_acks pending" "sb_retransmits p1 = sb_retransmits pending"
      "sbd_offset (sb_data p1) = sbd_offset (sb_data pending)"
      using sb_write_spec [OF "1.prems", of c] by blast
    define r1 where "r1 = result\<lparr>w_chunks := w_chunks result + n, w_bytes := w_bytes result + length c\<rparr>"
    have le: "length c \<le> limit"
      by (rule pop_spec(2))
    have step: "Send_write_loop limit src result pending = Send_write_loop (limit - length c) src1 r1 p1"
      using pop False p1(1) le by (subst Send_write_loop.simps) (simp add: r1_def Let_def)
    have src: "src_bytes src = c @ src_bytes src1"
      using pop_spec(1) by simp
    have "\<exists>res src' pending'. Send_write_loop (limit - length c) src1 r1 p1 = Some (res, src', pending') \<and>
       w_bytes res = w_bytes r1 + min (limit - length c) (length (src_bytes src1)) \<and>
       src_bytes src' = drop (limit - length c) (src_bytes src1) \<and>
       sb_inv ((xs @ c) @ take (limit - length c) (src_bytes src1)) pending' \<and>
       sb_unsent pending' = sb_unsent p1 \<and> sb_acks pending' = sb_acks p1 \<and>
       sb_retransmits pending' = sb_retransmits p1 \<and>
       sbd_offset (sb_data pending') = sbd_offset (sb_data p1)"
      by (rule "1.IH" [OF pop [symmetric] refl r1_def False _ p1(1,2)]) (use le in simp)
    then show ?thesis
      unfolding step src using p1 le by (auto simp: r1_def min_def)
  qed
qed

text \<open>
  The invariant of a sending half: the buffer holds the stream \<open>xs\<close> written so far, within the
  flow control limit that the peer has granted for the stream.
\<close>

definition Send_inv :: "byte list \<Rightarrow> Send \<Rightarrow> bool" where
  "Send_inv xs s \<longleftrightarrow> sb_inv xs (s_pending s) \<and> length xs \<le> s_max_data s"

lemma Send_inv_new: "Send_inv [] (Send_new n)"
  by (simp add: Send_inv_def Send_new_def sb_inv_new)

lemma Send_offset_inv: "Send_inv xs s \<Longrightarrow> Send_offset s = length xs"
  by (simp add: Send_inv_def Send_offset_def sb_offset_inv)

lemma Send_write_ok:
  fixes limit :: nat
  assumes inv: "Send_inv xs s" and ready: "s_state s = Ready" "s_stop_reason s = None"
    and credit: "length xs < s_max_data s"
  defines "n \<equiv> min limit (s_max_data s - length xs)"
  shows "\<exists>res src' s'. Send_write src limit s = Some (Inr (res, src', s')) \<and>
     w_bytes res = min n (length (src_bytes src)) \<and> src_bytes src' = drop n (src_bytes src) \<and>
     Send_inv (xs @ take n (src_bytes src)) s' \<and> s' = s\<lparr>s_pending := s_pending s'\<rparr> \<and>
     sb_acked (s_pending s') = sb_acked (s_pending s) \<and> sb_unsent (s_pending s') = sb_unsent (s_pending s) \<and>
     sb_retransmits (s_pending s') = sb_retransmits (s_pending s)"
proof -
  have sb: "sb_inv xs (s_pending s)" "sb_offset (s_pending s) = length xs"
    using inv sb_offset_inv by (auto simp: Send_inv_def)
  obtain res src' p where loop: "Send_write_loop n src \<lparr>w_bytes = 0, w_chunks = 0\<rparr> (s_pending s) = Some (res, src', p)"
    and res: "w_bytes res = min n (length (src_bytes src))" "src_bytes src' = drop n (src_bytes src)"
      "sb_inv (xs @ take n (src_bytes src)) p" "sb_acks p = sb_acks (s_pending s)"
      "sbd_offset (sb_data p) = sbd_offset (sb_data (s_pending s))" "sb_unsent p = sb_unsent (s_pending s)"
      "sb_retransmits p = sb_retransmits (s_pending s)"
    using Send_write_loop_spec [OF sb(1), of n src "\<lparr>w_bytes = 0, w_chunks = 0\<rparr>"] by auto
  have "Send_write src limit s = Some (Inr (res, src', s\<lparr>s_pending := p\<rparr>))"
    using ready credit sb(2) loop by (simp add: Send_write_def Send_is_writable_def n_def)
  moreover have "Send_inv (xs @ take n (src_bytes src)) (s\<lparr>s_pending := p\<rparr>)"
    using res(3) credit by (simp add: Send_inv_def n_def)
  ultimately show ?thesis
    using res by (auto simp: sb_acked_def)
qed

lemma Send_write_error:
  assumes "Send_inv xs s"
  shows "s_state s \<noteq> Ready \<Longrightarrow> Send_write src limit s = Some (Inl ClosedStreamWrite)"
    and "s_state s = Ready \<Longrightarrow> s_stop_reason s = Some e \<Longrightarrow> Send_write src limit s = Some (Inl (Stopped e))"
    and "s_state s = Ready \<Longrightarrow> s_stop_reason s = None \<Longrightarrow> length xs = s_max_data s \<Longrightarrow>
      Send_write src limit s = Some (Inl Blocked)"
  using assms sb_offset_inv by (auto simp: Send_write_def Send_is_writable_def Send_inv_def)

lemma Send_ack_spec:
  assumes "Send_inv xs s" and "snd (sm_offsets frame) \<le> sb_unsent (s_pending s)"
  shows "\<exists>s' done. Send_ack frame s = Some (done, s') \<and> Send_inv xs s' \<and>
     sb_acked (s_pending s') = sb_acked (s_pending s) \<union> rset (sm_offsets frame) \<and>
     sb_unsent (s_pending s') = sb_unsent (s_pending s) \<and>
     ars_set (sb_retransmits (s_pending s')) =
       ars_set (sb_retransmits (s_pending s)) - {0..<sbd_offset (sb_data (s_pending s'))} \<and>
     s_fin_pending s' = s_fin_pending s \<and> s_priority s' = s_priority s \<and> s_stop_reason s' = s_stop_reason s \<and>
     s_max_data s' = s_max_data s \<and> s_connection_blocked s' = s_connection_blocked s \<and>
     (s_state s' = ResetSent \<longleftrightarrow> s_state s = ResetSent) \<and> (s_state s' = Ready \<longleftrightarrow> s_state s = Ready) \<and>
     done = (sb_is_fully_acked (s_pending s') \<and>
       (case s_state s of DataSent f \<Rightarrow> f \<or> sm_fin frame | _ \<Rightarrow> False))"
proof -
  have "sb_inv xs (s_pending s)"
    using assms(1) by (simp add: Send_inv_def)
  from sb_ack_spec [OF this assms(2)] obtain p where "sb_ack (sm_offsets frame) (s_pending s) = Some p"
    "sb_inv xs p" "sb_acked p = sb_acked (s_pending s) \<union> rset (sm_offsets frame)" "sb_unsent p = sb_unsent (s_pending s)"
    "ars_set (sb_retransmits p) = ars_set (sb_retransmits (s_pending s)) - {0..<sbd_offset (sb_data p)}"
    by blast
  then show ?thesis
    using assms(1) by (cases "s_state s") (auto simp: Send_ack_def Send_inv_def Let_def)
qed

lemma Send_increase_max_data_inv: "Send_inv xs s \<Longrightarrow> Send_inv xs (snd (Send_increase_max_data n s))"
  by (auto simp: Send_increase_max_data_def Send_inv_def)

section \<open>Properties\<close>

text \<open>
  C30: writing to a stream is governed by the limits: on an open stream with credit, \<open>write\<close>
  takes exactly the longest prefix of the source that fits in the connection limit and in the
  stream limit, appends it to the stream and leaves the rest in the source; on a finished or reset
  stream, after STOP_SENDING, and without credit it returns the corresponding error and writes
  nothing.
\<close>

theorem Send_write_correct:
  fixes limit :: nat
  assumes "Send_inv xs s"
  defines "n \<equiv> min limit (s_max_data s - length xs)"
  shows "Send_write src limit s \<noteq> None \<and>
     (case the (Send_write src limit s) of
        Inr (res, src', s') \<Rightarrow> s_state s = Ready \<and> s_stop_reason s = None \<and> length xs < s_max_data s \<and>
          w_bytes res = length (take n (src_bytes src)) \<and> src_bytes src' = drop n (src_bytes src) \<and>
          Send_inv (xs @ take n (src_bytes src)) s'
      | Inl ClosedStreamWrite \<Rightarrow> s_state s \<noteq> Ready
      | Inl (Stopped e) \<Rightarrow> s_state s = Ready \<and> s_stop_reason s = Some e
      | Inl Blocked \<Rightarrow> s_state s = Ready \<and> s_stop_reason s = None \<and> length xs = s_max_data s)"
proof (cases "s_state s = Ready \<and> s_stop_reason s = None \<and> length xs < s_max_data s")
  case True
  then show ?thesis
    using Send_write_ok [OF assms(1), where limit = limit and src = src] by (auto simp: n_def min.commute)
next
  case False
  have "length xs \<le> s_max_data s"
    using assms(1) by (simp add: Send_inv_def)
  then consider "s_state s \<noteq> Ready" | e where "s_state s = Ready" "s_stop_reason s = Some e"
    | "s_state s = Ready" "s_stop_reason s = None" "length xs = s_max_data s"
    using False by fastforce
  then show ?thesis
    by cases (simp_all add: Send_write_error [OF assms(1)])
qed

theorem Send_write_correct_witness:
  "Send_write (BytesArray [[1, 2], [], [3]]) 9 (Send_new 2) \<noteq> None \<and>
   (case the (Send_write (BytesArray [[1, 2], [], [3]]) 9 (Send_new 2)) of
      Inr (res, src', s') \<Rightarrow> w_bytes res = 2 \<and> src_bytes src' = [3] | Inl _ \<Rightarrow> False)"
  using Send_write_correct [OF Send_inv_new [of 2], where src = "BytesArray [[1, 2], [], [3]]" and limit = 9]
  by (cases "the (Send_write (BytesArray [[1, 2], [], [3]]) 9 (Send_new 2))")
     (auto simp: src_bytes_def Send_new_def split: WriteError.splits)

end
