(* ===== verification/Transport_Error.thy ===== *)
theory Transport_Error
  imports Main
begin

text \<open>
  Transport errors (\<open>noq-proto/src/transport_error.rs\<close>).  Errors are equal when their codes are,
  so the model keeps the code and drops the text.
\<close>

datatype TransportError =
    NO_ERROR | INTERNAL_ERROR | CONNECTION_REFUSED | FLOW_CONTROL_ERROR | STREAM_LIMIT_ERROR
  | STREAM_STATE_ERROR | FINAL_SIZE_ERROR | FRAME_ENCODING_ERROR | TRANSPORT_PARAMETER_ERROR
  | CONNECTION_ID_LIMIT_ERROR | PROTOCOL_VIOLATION | INVALID_TOKEN | APPLICATION_ERROR
  | CRYPTO_BUFFER_EXCEEDED | KEY_UPDATE_ERROR | AEAD_LIMIT_REACHED | NO_VIABLE_PATH
  | APPLICATION_ABANDON_PATH | PATH_RESOURCE_LIMIT_REACHED | PATH_UNSTABLE_OR_POOR
  | NO_CID_AVAILABLE_FOR_PATH

fun TransportError_code :: "TransportError \<Rightarrow> nat" where
  "TransportError_code NO_ERROR = 0x0"
| "TransportError_code INTERNAL_ERROR = 0x1"
| "TransportError_code CONNECTION_REFUSED = 0x2"
| "TransportError_code FLOW_CONTROL_ERROR = 0x3"
| "TransportError_code STREAM_LIMIT_ERROR = 0x4"
| "TransportError_code STREAM_STATE_ERROR = 0x5"
| "TransportError_code FINAL_SIZE_ERROR = 0x6"
| "TransportError_code FRAME_ENCODING_ERROR = 0x7"
| "TransportError_code TRANSPORT_PARAMETER_ERROR = 0x8"
| "TransportError_code CONNECTION_ID_LIMIT_ERROR = 0x9"
| "TransportError_code PROTOCOL_VIOLATION = 0xA"
| "TransportError_code INVALID_TOKEN = 0xB"
| "TransportError_code APPLICATION_ERROR = 0xC"
| "TransportError_code CRYPTO_BUFFER_EXCEEDED = 0xD"
| "TransportError_code KEY_UPDATE_ERROR = 0xE"
| "TransportError_code AEAD_LIMIT_REACHED = 0xF"
| "TransportError_code NO_VIABLE_PATH = 0x10"
| "TransportError_code APPLICATION_ABANDON_PATH = 0x3e"
| "TransportError_code PATH_RESOURCE_LIMIT_REACHED = 0x3e75"
| "TransportError_code PATH_UNSTABLE_OR_POOR = 0x3e76"
| "TransportError_code NO_CID_AVAILABLE_FOR_PATH = 0x3e77"

text \<open>Different errors have different codes, so that comparing the codes compares the errors.\<close>

lemma TransportError_code_inject: "TransportError_code a = TransportError_code b \<longleftrightarrow> a = b"
  by (cases a; cases b) simp_all

end
