(* ===== verification/Recv_Stream.thy ===== *)
theory Recv_Stream
  imports Reassembly Stream_Frame Transport_Error
begin

text \<open>
  The receiving half of a stream (\<open>Recv\<close> in \<open>noq-proto/src/connection/streams/recv.rs\<close>):
  flow control and final size checks for incoming STREAM and RESET_STREAM frames, stopping, and the
  window updates it asks for.
\<close>

section \<open>Definitions\<close>

datatype RecvState = Receiving "nat option" | ResetRecvd nat VarInt

record Recv =
  r_state :: RecvState
  r_assembler :: Assembler
  r_sent_max_stream_data :: nat
  r_end :: nat
  r_stopped :: bool

datatype ClosedStream = ClosedStream

definition Recv_new :: "nat \<Rightarrow> Recv" where
  "Recv_new initial_max_data = \<lparr>r_state = Receiving None, r_assembler = Assembler_new,
     r_sent_max_stream_data = initial_max_data, r_end = 0, r_stopped = False\<rparr>"

definition Recv_reinit :: "nat \<Rightarrow> Recv \<Rightarrow> Recv" where
  "Recv_reinit initial_max_data r = r\<lparr>r_state := Receiving None,
     r_assembler := Assembler_reinit (r_assembler r),
     r_sent_max_stream_data := initial_max_data, r_end := 0, r_stopped := False\<rparr>"

definition Recv_final_offset :: "Recv \<Rightarrow> nat option" where
  "Recv_final_offset r = (case r_state r of Receiving sz \<Rightarrow> sz | ResetRecvd sz _ \<Rightarrow> Some sz)"

definition Recv_final_offset_unknown :: "Recv \<Rightarrow> bool" where
  "Recv_final_offset_unknown r = (r_state r = Receiving None)"

definition Recv_can_send_flow_control :: "Recv \<Rightarrow> bool" where
  "Recv_can_send_flow_control r = (Recv_final_offset_unknown r \<and> \<not> r_stopped r)"

definition Recv_is_receiving :: "Recv \<Rightarrow> bool" where
  "Recv_is_receiving r = (case r_state r of Receiving _ \<Rightarrow> True | ResetRecvd _ _ \<Rightarrow> False)"

definition Recv_reset_code :: "Recv \<Rightarrow> VarInt option" where
  "Recv_reset_code r = (case r_state r of ResetRecvd _ error_code \<Rightarrow> Some error_code | _ \<Rightarrow> None)"

definition Recv_credit_consumed_by :: "nat \<Rightarrow> nat \<Rightarrow> nat \<Rightarrow> Recv \<Rightarrow> TransportError + nat" where
  "Recv_credit_consumed_by off received max_data r =
     (let new_bytes = off - r_end r in
      if off > r_sent_max_stream_data r \<or> received + new_bytes > max_data then Inl FLOW_CONTROL_ERROR
      else Inr new_bytes)"

definition Recv_ingest :: "StreamFrame \<Rightarrow> nat \<Rightarrow> nat \<Rightarrow> nat \<Rightarrow> Recv \<Rightarrow>
    (TransportError + ((nat \<times> bool) \<times> Recv)) option" where
  "Recv_ingest frame payload_len received max_data r =
     (let e = sf_offset frame + length (sf_data frame) in
      if e \<ge> 2 ^ 62 then Some (Inl FLOW_CONTROL_ERROR)
      else if (case Recv_final_offset r of
                 Some final_offset \<Rightarrow> e > final_offset \<or> sf_fin frame \<and> e \<noteq> final_offset
               | None \<Rightarrow> False) then Some (Inl FINAL_SIZE_ERROR)
      else case Recv_credit_consumed_by e received max_data r of
        Inl err \<Rightarrow> Some (Inl err)
      | Inr new_bytes \<Rightarrow>
          let r = (case r_state r of
                     Receiving _ \<Rightarrow> if sf_fin frame \<and> \<not> r_stopped r then r\<lparr>r_state := Receiving (Some e)\<rparr> else r
                   | ResetRecvd _ _ \<Rightarrow> r);
              r = r\<lparr>r_end := max (r_end r) e\<rparr> in
          if \<not> r_stopped r then do {
            a \<leftarrow> Assembler_insert (sf_offset frame) (sf_data frame) payload_len (r_assembler r);
            Some (Inr ((new_bytes, False), r\<lparr>r_assembler := a\<rparr>)) }
          else Some (Inr ((new_bytes, sf_fin frame), r)))"

definition Recv_stop :: "Recv \<Rightarrow> (ClosedStream + ((nat \<times> bool) \<times> Recv)) option" where
  "Recv_stop r =
     (if r_stopped r then Some (Inl ClosedStream)
      else do {
        let r = r\<lparr>r_stopped := True, r_assembler := Assembler_clear (r_assembler r)\<rparr>;
        read_credits \<leftarrow> csub (r_end r) (a_bytes_read (r_assembler r));
        Some (Inr ((read_credits, Recv_is_receiving r), r)) })"

text \<open>The window to announce, and whether announcing it is worthwhile.\<close>

definition Recv_max_stream_data :: "nat \<Rightarrow> Recv \<Rightarrow> (nat \<times> bool) option" where
  "Recv_max_stream_data stream_receive_window r = do {
     let max_stream_data = a_bytes_read (r_assembler r) + stream_receive_window;
     diff \<leftarrow> csub max_stream_data (r_sent_max_stream_data r);
     Some (max_stream_data, Recv_can_send_flow_control r \<and> diff \<ge> stream_receive_window div 8) }"

definition Recv_record_sent_max_stream_data :: "nat \<Rightarrow> Recv \<Rightarrow> Recv" where
  "Recv_record_sent_max_stream_data sent_value r =
     (if sent_value > r_sent_max_stream_data r then r\<lparr>r_sent_max_stream_data := sent_value\<rparr> else r)"

definition Recv_reset :: "VarInt \<Rightarrow> nat \<Rightarrow> nat \<Rightarrow> nat \<Rightarrow> Recv \<Rightarrow> TransportError + (bool \<times> Recv)" where
  "Recv_reset error_code final_offset received max_data r =
     (if (case Recv_final_offset r of
            Some off \<Rightarrow> off \<noteq> final_offset
          | None \<Rightarrow> r_end r > final_offset) then Inl FINAL_SIZE_ERROR
      else case Recv_credit_consumed_by final_offset received max_data r of
        Inl err \<Rightarrow> Inl err
      | Inr _ \<Rightarrow>
          case r_state r of
            ResetRecvd _ _ \<Rightarrow> Inr (False, r)
          | Receiving _ \<Rightarrow>
              Inr (True, r\<lparr>r_state := ResetRecvd final_offset error_code,
                           r_assembler := Assembler_clear (r_assembler r)\<rparr>))"

section \<open>The invariant\<close>

text \<open>
  While data is accepted the assembler satisfies its invariant, whatever bytes the peer sends; a
  stopped or reset stream holds no data.  What was received is within the announced window, and
  what was read is within what was received.
\<close>

definition Recv_inv :: "Recv \<Rightarrow> bool" where
  "Recv_inv r \<longleftrightarrow>
     (if r_stopped r \<or> \<not> Recv_is_receiving r then a_data (r_assembler r) = [] \<and> a_buffered (r_assembler r) = 0
      else (\<exists>R D. asm_inv (\<lambda>_. UNIV) R D (r_assembler r)) \<and> a_end (r_assembler r) = r_end r) \<and>
     a_bytes_read (r_assembler r) \<le> r_end r \<and> r_end r \<le> r_sent_max_stream_data r"

lemma Recv_inv_new: "Recv_inv (Recv_new n)"
  using asm_inv_new
  by (auto simp: Recv_inv_def Recv_new_def Assembler_new_def Recv_is_receiving_def)

lemma Recv_inv_reinit: "Recv_inv (Recv_reinit n r)"
  using asm_inv_new
  by (auto simp: Recv_inv_def Recv_reinit_def Assembler_new_def Assembler_reinit_def Recv_is_receiving_def)

lemma Assembler_insert_any:
  assumes "asm_inv (\<lambda>_. UNIV) R D a" and "length bs \<le> al"
  shows "\<exists>a'. Assembler_insert off bs al a = Some a' \<and> (\<exists>R D. asm_inv (\<lambda>_. UNIV) R D a') \<and>
     a_bytes_read a' = a_bytes_read a \<and> a_end a' = max (a_end a) (off + length bs)"
proof (cases "a_state a")
  case Ordered
  then show ?thesis
    using Assembler_insert_ordered [OF assms(1) Ordered fits_UNIV assms(2)] by blast
next
  case (Unordered recvd)
  then show ?thesis
    using Assembler_insert_unordered [OF assms(1) Unordered fits_UNIV assms(2)] by blast
qed

section \<open>Incoming frames\<close>

text \<open>The state after a STREAM frame that ends at \<open>e\<close> is accepted, without the stored data.\<close>

definition Recv_accept :: "bool \<Rightarrow> nat \<Rightarrow> Recv \<Rightarrow> Recv" where
  "Recv_accept fin e r =
     (if Recv_is_receiving r \<and> fin \<and> \<not> r_stopped r then r\<lparr>r_state := Receiving (Some e)\<rparr> else r)
       \<lparr>r_end := max (r_end r) e\<rparr>"

lemma Recv_accept_simps [simp]:
  "r_end (Recv_accept fin e r) = max (r_end r) e" "r_stopped (Recv_accept fin e r) = r_stopped r"
  "r_assembler (Recv_accept fin e r) = r_assembler r"
  "r_sent_max_stream_data (Recv_accept fin e r) = r_sent_max_stream_data r"
  "Recv_is_receiving (Recv_accept fin e r) = Recv_is_receiving r"
  by (auto simp: Recv_accept_def Recv_is_receiving_def split: RecvState.splits)

lemma Recv_ingest_cases:
  fixes received :: nat
  assumes inv: "Recv_inv r" and rec: "Recv_is_receiving r" and len: "length (sf_data frame) \<le> payload_len"
  defines "e \<equiv> sf_offset frame + length (sf_data frame)"
  obtains (too_large) "e \<ge> 2 ^ 62" "Recv_ingest frame payload_len received max_data r = Some (Inl FLOW_CONTROL_ERROR)"
  | (final_size) z where "e < 2 ^ 62" "Recv_final_offset r = Some z" "e > z \<or> sf_fin frame \<and> e \<noteq> z"
      "Recv_ingest frame payload_len received max_data r = Some (Inl FINAL_SIZE_ERROR)"
  | (no_credit) "e < 2 ^ 62" "e > r_sent_max_stream_data r \<or> received + (e - r_end r) > max_data"
      "Recv_ingest frame payload_len received max_data r = Some (Inl FLOW_CONTROL_ERROR)"
  | (ok) r' where "e < 2 ^ 62" "e \<le> r_sent_max_stream_data r" "received + (e - r_end r) \<le> max_data"
      "\<forall>z. Recv_final_offset r = Some z \<longrightarrow> e \<le> z \<and> (sf_fin frame \<longrightarrow> e = z)"
      "Recv_ingest frame payload_len received max_data r =
         Some (Inr ((e - r_end r, sf_fin frame \<and> r_stopped r), r'))"
      "Recv_inv r'" "r_end r' = max (r_end r) e" "r_stopped r' = r_stopped r"
      "r_sent_max_stream_data r' = r_sent_max_stream_data r" "Recv_is_receiving r'"
      "a_bytes_read (r_assembler r') = a_bytes_read (r_assembler r)"
      "Recv_final_offset r' = (if sf_fin frame \<and> \<not> r_stopped r then Some e else Recv_final_offset r)"
proof -
  define bad where "bad = (case Recv_final_offset r of
      Some z \<Rightarrow> e > z \<or> sf_fin frame \<and> e \<noteq> z | None \<Rightarrow> False)"
  consider (1) "e \<ge> 2 ^ 62" | (2) "e < 2 ^ 62" bad
    | (3) "e < 2 ^ 62" "\<not> bad" "e > r_sent_max_stream_data r \<or> received + (e - r_end r) > max_data"
    | (4) "e < 2 ^ 62" "\<not> bad" "e \<le> r_sent_max_stream_data r" "received + (e - r_end r) \<le> max_data"
    by linarith
  then show ?thesis
  proof cases
    case 1
    then show ?thesis
      by (intro too_large) (simp_all add: Recv_ingest_def e_def)
  next
    case 2
    then show ?thesis
      by (auto simp: bad_def Recv_ingest_def e_def split: option.splits intro!: final_size)
  next
    case 3
    then show ?thesis
      by (intro no_credit) (auto simp: Recv_ingest_def Recv_credit_consumed_by_def Let_def bad_def e_def split: option.splits)
  next
    case 4
    define r1 where "r1 = Recv_accept (sf_fin frame) e r"
    have fin: "\<forall>z. Recv_final_offset r = Some z \<longrightarrow> e \<le> z \<and> (sf_fin frame \<longrightarrow> e = z)"
      using 4(2) by (auto simp: bad_def)
    have fo: "Recv_final_offset r1 = (if sf_fin frame \<and> \<not> r_stopped r then Some e else Recv_final_offset r)"
      using rec by (auto simp: r1_def Recv_accept_def Recv_final_offset_def)
    have step: "Recv_ingest frame payload_len received max_data r =
      (if \<not> r_stopped r then do {
         a \<leftarrow> Assembler_insert (sf_offset frame) (sf_data frame) payload_len (r_assembler r);
         Some (Inr ((e - r_end r, False), r1\<lparr>r_assembler := a\<rparr>)) }
       else Some (Inr ((e - r_end r, sf_fin frame), r1)))"
      using 4 rec unfolding Recv_ingest_def Recv_credit_consumed_by_def Let_def r1_def Recv_accept_def
        bad_def [symmetric]
      by (auto simp: e_def [symmetric] Recv_is_receiving_def bad_def split: RecvState.splits option.splits)
    show ?thesis
    proof (cases "r_stopped r")
      case True
      then have "Recv_inv r1"
        using inv 4(3) rec by (auto simp: Recv_inv_def r1_def)
      then show ?thesis
        using True step 4 fin fo rec by (intro ok [of r1]) (simp_all add: r1_def)
    next
      case False
      then obtain R D where asm: "asm_inv (\<lambda>_. UNIV) R D (r_assembler r)" "a_end (r_assembler r) = r_end r"
        using inv rec by (auto simp: Recv_inv_def)
      from Assembler_insert_any [OF asm(1) len, of "sf_offset frame"] obtain a where
        a: "Assembler_insert (sf_offset frame) (sf_data frame) payload_len (r_assembler r) = Some a"
          "\<exists>R D. asm_inv (\<lambda>_. UNIV) R D a" "a_bytes_read a = a_bytes_read (r_assembler r)"
          "a_end a = max (r_end r) e"
        using asm(2) by (auto simp: e_def)
      define r' where "r' = r1\<lparr>r_assembler := a\<rparr>"
      have same: "Recv_is_receiving r' = Recv_is_receiving r1" "Recv_final_offset r' = Recv_final_offset r1"
        by (simp_all add: r'_def Recv_is_receiving_def Recv_final_offset_def)
      have "Recv_inv r'"
        using inv a False rec 4(3) same by (auto simp: Recv_inv_def r'_def r1_def)
      then show ?thesis
        using False step a(1,3) 4 fin fo rec same by (intro ok [of r']) (simp_all add: r'_def r1_def)
    qed
  qed
qed

lemma Recv_ingest_total:
  assumes "Recv_inv r" and "Recv_is_receiving r" and "length (sf_data frame) \<le> payload_len"
  shows "Recv_ingest frame payload_len received max_data r \<noteq> None"
  using assms by (cases rule: Recv_ingest_cases [where received = received and max_data = max_data]) simp_all

section \<open>Reset, stop and window updates\<close>

lemma Recv_reset_cases:
  assumes inv: "Recv_inv r"
  obtains (final_size) "Recv_reset code z received max_data r = Inl FINAL_SIZE_ERROR"
      "case Recv_final_offset r of Some off \<Rightarrow> off \<noteq> z | None \<Rightarrow> z < r_end r"
  | (no_credit) "Recv_reset code z received max_data r = Inl FLOW_CONTROL_ERROR"
      "\<not> (case Recv_final_offset r of Some off \<Rightarrow> off \<noteq> z | None \<Rightarrow> z < r_end r)"
      "z > r_sent_max_stream_data r \<or> received + (z - r_end r) > max_data"
  | (redundant) "\<not> Recv_is_receiving r" "Recv_final_offset r = Some z"
      "Recv_reset code z received max_data r = Inr (False, r)"
  | (ok) r' where "Recv_is_receiving r" "z \<le> r_sent_max_stream_data r" "received + (z - r_end r) \<le> max_data"
      "case Recv_final_offset r of Some off \<Rightarrow> off = z | None \<Rightarrow> r_end r \<le> z"
      "Recv_reset code z received max_data r = Inr (True, r')" "Recv_inv r'" "r_state r' = ResetRecvd z code"
      "r_end r' = r_end r" "r_stopped r' = r_stopped r" "r_sent_max_stream_data r' = r_sent_max_stream_data r"
      "a_bytes_read (r_assembler r') = a_bytes_read (r_assembler r)" "a_data (r_assembler r') = []"
proof -
  let ?bad = "case Recv_final_offset r of Some off \<Rightarrow> off \<noteq> z | None \<Rightarrow> r_end r > z"
  consider (1) ?bad | (2) "\<not> ?bad" "z > r_sent_max_stream_data r \<or> received + (z - r_end r) > max_data"
    | (3) "\<not> ?bad" "z \<le> r_sent_max_stream_data r" "received + (z - r_end r) \<le> max_data"
    by linarith
  then show ?thesis
  proof cases
    case 1
    then show ?thesis
      by (intro final_size) (simp_all add: Recv_reset_def)
  next
    case 2
    then show ?thesis
      by (intro no_credit) (simp_all add: Recv_reset_def Recv_credit_consumed_by_def Let_def)
  next
    case 3
    then have credit: "Recv_credit_consumed_by z received max_data r = Inr (z - r_end r)"
      by (simp add: Recv_credit_consumed_by_def Let_def)
    show ?thesis
    proof (cases "r_state r")
      case (Receiving sz)
      define r' where "r' = r\<lparr>r_state := ResetRecvd z code, r_assembler := Assembler_clear (r_assembler r)\<rparr>"
      have "Recv_inv r'"
        using inv by (auto simp: Recv_inv_def r'_def Recv_is_receiving_def Assembler_clear_def)
      moreover have "Recv_reset code z received max_data r = Inr (True, r')"
        using 3(1) Receiving by (simp add: Recv_reset_def credit r'_def)
      moreover have "case Recv_final_offset r of Some off \<Rightarrow> off = z | None \<Rightarrow> r_end r \<le> z"
        using 3(1) by (simp split: option.splits)
      ultimately show ?thesis
        using 3(2,3) Receiving
        by (intro ok [of r']) (simp_all add: r'_def Assembler_clear_def Recv_is_receiving_def)
    next
      case (ResetRecvd sz c)
      then have "Recv_reset code z received max_data r = Inr (False, r)"
        using 3(1) by (simp add: Recv_reset_def credit)
      then show ?thesis
        using 3(1) ResetRecvd by (intro redundant) (simp_all add: Recv_final_offset_def Recv_is_receiving_def)
    qed
  qed
qed

lemma Recv_stop_cases:
  assumes "Recv_inv r"
  obtains (again) "r_stopped r" "Recv_stop r = Some (Inl ClosedStream)"
  | (ok) r' where "\<not> r_stopped r"
      "Recv_stop r = Some (Inr ((r_end r - a_bytes_read (r_assembler r), Recv_is_receiving r), r'))"
      "Recv_inv r'" "r_stopped r'" "r_end r' = r_end r" "r_state r' = r_state r"
      "r_sent_max_stream_data r' = r_sent_max_stream_data r"
      "a_bytes_read (r_assembler r') = a_bytes_read (r_assembler r)"
proof (cases "r_stopped r")
  case True
  then show ?thesis
    by (intro again) (simp_all add: Recv_stop_def)
next
  case False
  define r' where "r' = r\<lparr>r_stopped := True, r_assembler := Assembler_clear (r_assembler r)\<rparr>"
  have "Recv_inv r'" "a_bytes_read (r_assembler r) \<le> r_end r"
    using assms by (auto simp: Recv_inv_def r'_def Assembler_clear_def)
  then show ?thesis
    using False by (intro ok [of r'])
      (simp_all add: Recv_stop_def r'_def csub_def Assembler_clear_def Recv_is_receiving_def)
qed

text \<open>The announced window never runs ahead of what was read by more than the configured one.\<close>

definition Recv_window :: "nat \<Rightarrow> Recv \<Rightarrow> bool" where
  "Recv_window w r \<longleftrightarrow> r_sent_max_stream_data r \<le> a_bytes_read (r_assembler r) + w"

lemma Recv_window_new: "Recv_window w (Recv_new w)" "Recv_window w (Recv_reinit w r)"
  by (simp_all add: Recv_window_def Recv_new_def Recv_reinit_def)

lemma Recv_max_stream_data_spec:
  assumes "Recv_window w r"
  shows "Recv_max_stream_data w r = Some (a_bytes_read (r_assembler r) + w,
    Recv_can_send_flow_control r \<and> a_bytes_read (r_assembler r) + w - r_sent_max_stream_data r \<ge> w div 8)"
  using assms by (simp add: Recv_max_stream_data_def Recv_window_def csub_def Let_def)

lemma Recv_record_sent_inv:
  "Recv_inv r \<Longrightarrow> Recv_inv (Recv_record_sent_max_stream_data v r)"
  "Recv_window w r \<Longrightarrow> v \<le> a_bytes_read (r_assembler r) + w \<Longrightarrow> Recv_window w (Recv_record_sent_max_stream_data v r)"
  by (auto simp: Recv_inv_def Recv_window_def Recv_record_sent_max_stream_data_def Recv_is_receiving_def)

section \<open>Properties\<close>





text \<open>
  a FIN that ends below data already received is accepted: \<open>ingest\<close> compares a FIN with a known
  final size but, unlike \<open>reset\<close>, not with the high-water mark.  The final size is then below the
  data received, and reading can never meet the condition under which the stream is finished.
\<close>

theorem Recv_ingest_fin_below_high_water:
  "\<exists>r1 r2. Recv_ingest \<lparr>sf_id = i, sf_offset = 0, sf_fin = False, sf_data = [1, 2, 3]\<rparr> 3 0 100 (Recv_new 50)
        = Some (Inr ((3, False), r1)) \<and>
     Recv_ingest \<lparr>sf_id = i, sf_offset = 0, sf_fin = True, sf_data = [1]\<rparr> 1 3 100 r1
        = Some (Inr ((0, False), r2)) \<and>
     Recv_final_offset r2 = Some 1 \<and> r_end r2 = 3 \<and>
     Recv_reset code 1 3 100 r1 = Inl FINAL_SIZE_ERROR"
  by (simp add: Recv_ingest_def Recv_new_def Recv_final_offset_def Recv_credit_consumed_by_def Recv_reset_def
      asm_eval)

end
