(* ===== verification/Transmit_Buf.thy ===== *)
theory Transmit_Buf
  imports Prelude
begin

text \<open>
  The buffer that datagrams are written into (\<open>TransmitBuf\<close> in
  \<open>noq-proto/src/connection/transmit_buf.rs\<close>).  Debug assertions are checks that panic; the
  capacity that is reserved ahead of time is not observable and left out.
\<close>

section \<open>Definitions\<close>

record TransmitBuf =
  tb_buf :: "byte list"
  tb_datagram_start :: nat
  tb_buf_capacity :: nat
  tb_max_datagrams :: nat
  tb_num_datagrams :: nat
  tb_segment_size :: nat

definition TransmitBuf_new :: "nat \<Rightarrow> nat \<Rightarrow> TransmitBuf" where
  "TransmitBuf_new max_datagrams mtu =
     \<lparr>tb_buf = [], tb_datagram_start = 0, tb_buf_capacity = 0, tb_max_datagrams = max_datagrams,
      tb_num_datagrams = 0, tb_segment_size = mtu\<rparr>"

text \<open>\<open>x % 0\<close> panics in the source.\<close>

definition new_datagram_inner :: "nat \<Rightarrow> TransmitBuf \<Rightarrow> TransmitBuf option" where
  "new_datagram_inner datagram_size b = do {
     assert_opt (tb_num_datagrams b < tb_max_datagrams b);
     let b = (if tb_num_datagrams b = 1 then b\<lparr>tb_segment_size := length (tb_buf b)\<rparr> else b);
     b \<leftarrow> (if tb_num_datagrams b \<ge> 1 then do {
             assert_opt (datagram_size \<le> tb_segment_size b);
             Some (if datagram_size < tb_segment_size b
                   then b\<lparr>tb_max_datagrams := 1 + tb_num_datagrams b\<rparr> else b) }
           else Some b);
     let b = b\<lparr>tb_datagram_start := length (tb_buf b)\<rparr>;
     assert_opt (tb_segment_size b \<noteq> 0 \<and> tb_datagram_start b mod tb_segment_size b = 0);
     Some (b\<lparr>tb_buf_capacity := tb_datagram_start b + datagram_size,
             tb_num_datagrams := tb_num_datagrams b + 1\<rparr>) }"

definition start_new_datagram_with_size :: "nat \<Rightarrow> TransmitBuf \<Rightarrow> TransmitBuf option" where
  "start_new_datagram_with_size datagram_size b = new_datagram_inner datagram_size b"

definition start_new_datagram :: "TransmitBuf \<Rightarrow> TransmitBuf option" where
  "start_new_datagram b = new_datagram_inner (tb_segment_size b) b"

definition clip_segment_size :: "TransmitBuf \<Rightarrow> TransmitBuf option" where
  "clip_segment_size b = do {
     assert_opt (tb_num_datagrams b = 1);
     Some (b\<lparr>tb_segment_size := length (tb_buf b), tb_buf_capacity := length (tb_buf b)\<rparr>) }"

definition datagram_max_offset :: "TransmitBuf \<Rightarrow> nat" where
  "datagram_max_offset b = tb_buf_capacity b"

definition datagram_remaining_mut :: "TransmitBuf \<Rightarrow> nat" where
  "datagram_remaining_mut b = tb_buf_capacity b - length (tb_buf b)"

definition tb_put :: "byte list \<Rightarrow> TransmitBuf \<Rightarrow> TransmitBuf" where
  "tb_put bs b = b\<lparr>tb_buf := tb_buf b @ bs\<rparr>"

section \<open>Batches of equal segments\<close>

text \<open>
  Use of the buffer: a datagram is started with the segment size or a smaller one, is filled up to
  its capacity and, when another one follows, was filled exactly.
\<close>

datatype tb_op = StartDatagram | StartDatagramWithSize nat | Put "byte list" | Clip

fun tb_step :: "tb_op \<Rightarrow> TransmitBuf \<Rightarrow> TransmitBuf option" where
  "tb_step StartDatagram b = start_new_datagram b"
| "tb_step (StartDatagramWithSize n) b = start_new_datagram_with_size n b"
| "tb_step (Put bs) b = Some (tb_put bs b)"
| "tb_step Clip b = clip_segment_size b"

definition tb_guard :: "tb_op \<Rightarrow> TransmitBuf \<Rightarrow> bool" where
  "tb_guard op b \<longleftrightarrow>
     (let full = (tb_num_datagrams b = 0 \<or> length (tb_buf b) = tb_datagram_start b + tb_segment_size b) in
      case op of
        StartDatagram \<Rightarrow> tb_num_datagrams b < tb_max_datagrams b \<and> full
      | StartDatagramWithSize n \<Rightarrow> tb_num_datagrams b < tb_max_datagrams b \<and> full \<and>
          0 < n \<and> n \<le> tb_segment_size b
      | Put bs \<Rightarrow> length bs \<le> datagram_remaining_mut b
      | Clip \<Rightarrow> tb_num_datagrams b = 1 \<and> tb_buf b \<noteq> [])"

definition tb_inv :: "TransmitBuf \<Rightarrow> bool" where
  "tb_inv b \<longleftrightarrow> 0 < tb_segment_size b \<and> tb_num_datagrams b \<le> tb_max_datagrams b \<and>
     tb_datagram_start b = (tb_num_datagrams b - 1) * tb_segment_size b \<and>
     tb_datagram_start b \<le> length (tb_buf b) \<and> length (tb_buf b) \<le> tb_buf_capacity b \<and>
     tb_buf_capacity b \<le> tb_datagram_start b + tb_segment_size b \<and>
     (tb_num_datagrams b = 0 \<longrightarrow> tb_buf b = [] \<and> tb_buf_capacity b = 0)"

lemma tb_inv_new: "0 < mtu \<Longrightarrow> tb_inv (TransmitBuf_new n mtu)"
  by (simp add: tb_inv_def TransmitBuf_new_def)

text \<open>
  Within these rules no assertion fails, every datagram but the last has exactly the segment size
  and no datagram exceeds it.
\<close>

lemma new_datagram_inv:
  assumes "tb_inv b" and "tb_num_datagrams b < tb_max_datagrams b"
    and "tb_num_datagrams b = 0 \<or> length (tb_buf b) = tb_datagram_start b + tb_segment_size b"
    and "n \<le> tb_segment_size b"
  shows "\<exists>b'. new_datagram_inner n b = Some b' \<and> tb_inv b'"
proof (cases "tb_num_datagrams b = 0")
  case True
  then show ?thesis
    using assms by (auto simp: new_datagram_inner_def tb_inv_def)
next
  case False
  then have seg: "length (tb_buf b) = tb_num_datagrams b * tb_segment_size b"
    using assms(1,3) by (cases "tb_num_datagrams b") (auto simp: tb_inv_def)
  then have "tb_num_datagrams b = 1 \<Longrightarrow> length (tb_buf b) = tb_segment_size b"
    by simp
  then show ?thesis
    using assms False seg by (auto simp: new_datagram_inner_def tb_inv_def)
qed

lemma tb_step_inv:
  assumes "tb_inv b" and "tb_guard op b"
  shows "\<exists>b'. tb_step op b = Some b' \<and> tb_inv b'"
proof (cases op)
  case StartDatagram
  then show ?thesis
    using assms new_datagram_inv [of b "tb_segment_size b"] by (simp add: tb_guard_def start_new_datagram_def)
next
  case (StartDatagramWithSize n)
  then show ?thesis
    using assms new_datagram_inv [of b n] by (simp add: tb_guard_def start_new_datagram_with_size_def)
next
  case (Put bs)
  then show ?thesis
    using assms by (auto simp: tb_guard_def tb_inv_def tb_put_def datagram_remaining_mut_def)
next
  case Clip
  then show ?thesis
    using assms by (auto simp: tb_guard_def tb_inv_def clip_segment_size_def)
qed

definition tb_move :: "TransmitBuf \<Rightarrow> TransmitBuf \<Rightarrow> bool" where
  "tb_move b b' \<longleftrightarrow> (\<exists>op. tb_guard op b \<and> tb_step op b = Some b')"

interpretation tb_life: invariant_system "\<lambda>b. \<exists>n mtu. 0 < mtu \<and> b = TransmitBuf_new n mtu" tb_move tb_inv
proof unfold_locales
  show "tb_inv b'" if "tb_inv b" "tb_move b b'" for b b'
    using that tb_step_inv [of b] by (fastforce simp: tb_move_def)
qed (auto intro: tb_inv_new)



end
