(* ===== verification/Wire.thy ===== *)
theory Wire
  imports Stream_Id
begin

text \<open>
  Combinators for the frame codec.  An encoder is the list of the pieces it writes, each of which
  may panic; a decoder takes the remaining bytes and returns a value and the bytes it leaves, or
  one of the errors of \<open>IterErr\<close> (\<open>noq-proto/src/frame.rs\<close>).  \<open>encp\<close> relates an
  encoding to the decoder that reads it back and \<open>yields\<close> says what a decoder guarantees of the
  values it returns; both are compositional, so that the proofs about frames follow their structure.
\<close>

section \<open>Definitions\<close>

datatype IterErr = UnexpectedEnd | InvalidFrameId | Malformed

type_synonym 'a parser = "byte list \<Rightarrow> IterErr + ('a \<times> byte list)"

text \<open>The bytes written by a sequence of writes; \<open>None\<close> when one of them panics.\<close>

fun writes :: "byte list option list \<Rightarrow> byte list option" where
  "writes [] = Some []"
| "writes (w # ws) = (case w of None \<Rightarrow> None | Some bs \<Rightarrow> map_option (\<lambda>r. bs @ r) (writes ws))"

definition pget :: "(byte list \<Rightarrow> ('a \<times> byte list) option) \<Rightarrow> 'a parser" where
  "pget d bs = (case d bs of None \<Rightarrow> Inl UnexpectedEnd | Some r \<Rightarrow> Inr r)"

definition pret :: "'a \<Rightarrow> 'a parser" where
  "pret x bs = Inr (x, bs)"

definition pfail :: "IterErr \<Rightarrow> 'a parser" where
  "pfail e bs = Inl e"

definition pbind :: "'a parser \<Rightarrow> ('a \<Rightarrow> 'b parser) \<Rightarrow> 'b parser" where
  "pbind p f bs = (case p bs of Inl e \<Rightarrow> Inl e | Inr (x, r) \<Rightarrow> f x r)"

text \<open>\<open>write_var\<close> and \<open>get_var\<close> for the offsets, lengths and counters kept as natural numbers.\<close>

definition write_varn :: "nat \<Rightarrow> byte list option" where
  "write_varn n = (if n < 2 ^ 62 then write_var (of_nat n) else None)"

definition get_varn :: "byte list \<Rightarrow> (nat \<times> byte list) option" where
  "get_varn bs = map_option (map_prod unat id) (get_var bs)"

section \<open>Reading back what was written\<close>

definition parses :: "'a parser \<Rightarrow> byte list \<Rightarrow> 'a \<Rightarrow> bool" where
  "parses p bs x \<longleftrightarrow> (\<forall>rest. p (bs @ rest) = Inr (x, rest))"

definition encp :: "byte list option \<Rightarrow> 'a parser \<Rightarrow> 'a \<Rightarrow> bool" where
  "encp w p x \<longleftrightarrow> (\<exists>bs. w = Some bs \<and> parses p bs x)"

lemma encp_ret: "encp (writes []) (pret x) x"
  by (simp add: encp_def parses_def pret_def)

lemma encp_bind:
  assumes "encp w p x" and "encp (writes ws) (f x) y"
  shows "encp (writes (w # ws)) (pbind p f) y"
  using assms by (force simp: encp_def parses_def pbind_def)

lemma encp_bind_last:
  assumes "encp w p x" and "encp (Some []) (f x) y"
  shows "encp w (pbind p f) y"
  using assms by (force simp: encp_def parses_def pbind_def)

lemma encp_cong: "encp w p x \<Longrightarrow> p = q \<Longrightarrow> encp w q x"
  by simp

lemma encp_pget:
  assumes "\<exists>bs. w = Some bs \<and> (\<forall>rest. d (bs @ rest) = Some (x, rest))"
  shows "encp w (pget d) x"
  using assms by (auto simp: encp_def parses_def pget_def)

lemma VarInt_codec:
  assumes "VarInt_ok v"
  shows "\<exists>bs. VarInt_encode v = Some bs \<and> (\<forall>rest. VarInt_decode (bs @ rest) = Some (v, rest))"
  using VarInt_dec_enc [OF assms] by (metis option.inject)

lemma VarInt_codec_nat:
  assumes "n < 2 ^ 62"
  shows "\<exists>bs. VarInt_encode (VarInt (of_nat n)) = Some bs \<and>
     (\<forall>rest. VarInt_decode (bs @ rest) = Some (VarInt (of_nat n), rest)) \<and> unat (of_nat n :: u64) = n"
proof -
  have "unat (of_nat n :: u64) = n"
    using assms by (simp add: unat_of_nat)
  then show ?thesis
    using VarInt_codec [of "VarInt (of_nat n)"] assms by (simp add: VarInt_ok_def)
qed

lemma varn_codec:
  assumes "n < 2 ^ 62"
  shows "\<exists>bs. write_varn n = Some bs \<and> (\<forall>rest. get_varn (bs @ rest) = Some (n, rest))"
  using VarInt_codec_nat [OF assms] assms
  by (auto simp: write_varn_def get_varn_def write_var_def get_var_def VarInt_from_u64_def)

lemma encp_VarInt: "VarInt_ok v \<Longrightarrow> encp (VarInt_encode v) (pget VarInt_decode) v"
  using VarInt_codec by (intro encp_pget)

lemma encp_varn: "n < 2 ^ 62 \<Longrightarrow> encp (write_varn n) (pget get_varn) n"
  using varn_codec by (intro encp_pget)

lemma encp_codec:
  assumes "codec ok enc dec" and "ok x"
  shows "encp (Some (enc x)) (pget dec) x"
  using codec.dec_enc [OF assms] by (intro encp_pget) simp

lemmas encp_u8 = encp_codec [OF u8.codec_axioms]
lemmas encp_u16 = encp_codec [OF u16.codec_axioms]
lemmas encp_u64 = encp_codec [OF u64.codec_axioms]
lemmas encp_ipv4 = encp_codec [OF ipv4.codec_axioms]
lemmas encp_ipv6 = encp_codec [OF ipv6.codec_axioms]

section \<open>What a decoder guarantees\<close>

definition yields :: "'a parser \<Rightarrow> ('a \<Rightarrow> bool) \<Rightarrow> bool" where
  "yields p P \<longleftrightarrow> (\<forall>bs x r. p bs = Inr (x, r) \<longrightarrow> P x \<and> length r \<le> length bs)"

lemma yields_ret: "P x \<Longrightarrow> yields (pret x) P"
  by (simp add: yields_def pret_def)

lemma yields_fail: "yields (pfail e) P"
  by (simp add: yields_def pfail_def)

lemma yields_bind:
  assumes "yields p P" and "\<And>x. P x \<Longrightarrow> yields (f x) Q"
  shows "yields (pbind p f) Q"
  using assms by (fastforce simp: yields_def pbind_def split: sum.splits)

lemma yields_if: "(b \<Longrightarrow> yields p P) \<Longrightarrow> (\<not> b \<Longrightarrow> yields q P) \<Longrightarrow> yields (if b then p else q) P"
  by simp

lemma yields_pget:
  assumes "\<And>bs x r. d bs = Some (x, r) \<Longrightarrow> P x \<and> length r \<le> length bs"
  shows "yields (pget d) P"
  using assms by (auto simp: yields_def pget_def split: option.splits)

lemma yields_VarInt: "yields (pget VarInt_decode) VarInt_ok"
  using VarInt_decode_ok varint.dec_shorter by (intro yields_pget) (metis less_imp_le)

lemma get_varn_bound:
  assumes "get_varn bs = Some (n, r)"
  shows "n < 2 ^ 62" and "length r \<le> length bs"
proof -
  from assms obtain v where "VarInt_decode bs = Some (v, r)" "n = unat (into_inner v)"
    by (auto simp: get_varn_def get_var_def)
  then show "n < 2 ^ 62" "length r \<le> length bs"
    using VarInt_decode_ok [of bs v r] varint.dec_shorter [of bs v r] by (simp_all add: VarInt_ok_def)
qed

lemma yields_varn: "yields (pget get_varn) (\<lambda>n. n < 2 ^ 62)"
  using get_varn_bound by (intro yields_pget) blast

lemma yields_codec: "codec ok enc dec \<Longrightarrow> yields (pget dec) (\<lambda>_. True)"
  by (intro yields_pget) (auto dest: codec.dec_shorter)

end
