(* ===== verification/Frame_Type.thy ===== *)
theory Frame_Type
  imports Wire Stream_Frame
begin

text \<open>
  Frame types and the small values that frames carry: \<open>FrameType\<close>, \<open>StreamInfo\<close>,
  \<open>DatagramInfo\<close> and \<open>MaybeFrame\<close> (\<open>noq-proto/src/frame.rs\<close>), \<open>PathId\<close>
  (\<open>noq-proto/src/connection/paths.rs\<close>) and \<open>ConnectionId\<close> (\<open>noq-proto/src/shared.rs\<close>).
\<close>

section \<open>Definitions\<close>

datatype StreamInfo = StreamInfo byte

definition StreamInfo_VALUES :: "nat \<Rightarrow> bool" where
  "StreamInfo_VALUES n \<longleftrightarrow> 0x08 \<le> n \<and> n \<le> 0x0f"

fun StreamInfo_fin :: "StreamInfo \<Rightarrow> bool" where
  "StreamInfo_fin (StreamInfo b) = (b AND 0x01 \<noteq> 0)"

fun StreamInfo_len :: "StreamInfo \<Rightarrow> bool" where
  "StreamInfo_len (StreamInfo b) = (b AND 0x02 \<noteq> 0)"

fun StreamInfo_off :: "StreamInfo \<Rightarrow> bool" where
  "StreamInfo_off (StreamInfo b) = (b AND 0x04 \<noteq> 0)"

fun StreamInfo_to_u64 :: "StreamInfo \<Rightarrow> nat" where
  "StreamInfo_to_u64 (StreamInfo b) = unat b"

datatype DatagramInfo = DatagramInfo byte

definition DatagramInfo_VALUES :: "nat \<Rightarrow> bool" where
  "DatagramInfo_VALUES n \<longleftrightarrow> 0x30 \<le> n \<and> n \<le> 0x31"

fun DatagramInfo_len :: "DatagramInfo \<Rightarrow> bool" where
  "DatagramInfo_len (DatagramInfo b) = (b AND 0x01 \<noteq> 0)"

fun DatagramInfo_to_u64 :: "DatagramInfo \<Rightarrow> nat" where
  "DatagramInfo_to_u64 (DatagramInfo b) = unat b"

datatype FrameType =
    FT_Padding | FT_Ping | FT_Ack | FT_AckEcn | FT_ResetStream | FT_StopSending | FT_Crypto | FT_NewToken
  | FT_Stream StreamInfo
  | FT_MaxData | FT_MaxStreamData | FT_MaxStreamsBidi | FT_MaxStreamsUni | FT_DataBlocked
  | FT_StreamDataBlocked | FT_StreamsBlockedBidi | FT_StreamsBlockedUni | FT_NewConnectionId
  | FT_RetireConnectionId | FT_PathChallenge | FT_PathResponse | FT_ConnectionClose
  | FT_ApplicationClose | FT_HandshakeDone | FT_AckFrequency | FT_ImmediateAck
  | FT_Datagram DatagramInfo
  | FT_ObservedIpv4Addr | FT_ObservedIpv6Addr | FT_PathAck | FT_PathAckEcn | FT_PathAbandon
  | FT_PathStatusBackup | FT_PathStatusAvailable | FT_PathNewConnectionId | FT_PathRetireConnectionId
  | FT_MaxPathId | FT_PathsBlocked | FT_PathCidsBlocked | FT_AddIpv4Address | FT_AddIpv6Address
  | FT_ReachOutAtIpv4 | FT_ReachOutAtIpv6 | FT_RemoveAddress

fun FrameType_to_u64 :: "FrameType \<Rightarrow> nat" where
  "FrameType_to_u64 FT_Padding = 0x00"
| "FrameType_to_u64 FT_Ping = 0x01"
| "FrameType_to_u64 FT_Ack = 0x02"
| "FrameType_to_u64 FT_AckEcn = 0x03"
| "FrameType_to_u64 FT_ResetStream = 0x04"
| "FrameType_to_u64 FT_StopSending = 0x05"
| "FrameType_to_u64 FT_Crypto = 0x06"
| "FrameType_to_u64 FT_NewToken = 0x07"
| "FrameType_to_u64 (FT_Stream s) = StreamInfo_to_u64 s"
| "FrameType_to_u64 FT_MaxData = 0x10"
| "FrameType_to_u64 FT_MaxStreamData = 0x11"
| "FrameType_to_u64 FT_MaxStreamsBidi = 0x12"
| "FrameType_to_u64 FT_MaxStreamsUni = 0x13"
| "FrameType_to_u64 FT_DataBlocked = 0x14"
| "FrameType_to_u64 FT_StreamDataBlocked = 0x15"
| "FrameType_to_u64 FT_StreamsBlockedBidi = 0x16"
| "FrameType_to_u64 FT_StreamsBlockedUni = 0x17"
| "FrameType_to_u64 FT_NewConnectionId = 0x18"
| "FrameType_to_u64 FT_RetireConnectionId = 0x19"
| "FrameType_to_u64 FT_PathChallenge = 0x1a"
| "FrameType_to_u64 FT_PathResponse = 0x1b"
| "FrameType_to_u64 FT_ConnectionClose = 0x1c"
| "FrameType_to_u64 FT_ApplicationClose = 0x1d"
| "FrameType_to_u64 FT_HandshakeDone = 0x1e"
| "FrameType_to_u64 FT_AckFrequency = 0xaf"
| "FrameType_to_u64 FT_ImmediateAck = 0x1f"
| "FrameType_to_u64 (FT_Datagram d) = DatagramInfo_to_u64 d"
| "FrameType_to_u64 FT_ObservedIpv4Addr = 0x9f81a6"
| "FrameType_to_u64 FT_ObservedIpv6Addr = 0x9f81a7"
| "FrameType_to_u64 FT_PathAck = 0x3e"
| "FrameType_to_u64 FT_PathAckEcn = 0x3f"
| "FrameType_to_u64 FT_PathAbandon = 0x3e75"
| "FrameType_to_u64 FT_PathStatusBackup = 0x3e76"
| "FrameType_to_u64 FT_PathStatusAvailable = 0x3e77"
| "FrameType_to_u64 FT_PathNewConnectionId = 0x3e78"
| "FrameType_to_u64 FT_PathRetireConnectionId = 0x3e79"
| "FrameType_to_u64 FT_MaxPathId = 0x3e7a"
| "FrameType_to_u64 FT_PathsBlocked = 0x3e7b"
| "FrameType_to_u64 FT_PathCidsBlocked = 0x3e7c"
| "FrameType_to_u64 FT_AddIpv4Address = 0x3d7f90"
| "FrameType_to_u64 FT_AddIpv6Address = 0x3d7f91"
| "FrameType_to_u64 FT_ReachOutAtIpv4 = 0x3d7f92"
| "FrameType_to_u64 FT_ReachOutAtIpv6 = 0x3d7f93"
| "FrameType_to_u64 FT_RemoveAddress = 0x3d7f94"

text \<open>
  \<open>from_u64\<close>, which the source derives from the same numbers: it knows the types with a constant
  number only.
\<close>

definition FrameType_constants :: "FrameType list" where
  "FrameType_constants =
     [FT_Padding, FT_Ping, FT_Ack, FT_AckEcn, FT_ResetStream, FT_StopSending, FT_Crypto, FT_NewToken,
      FT_MaxData, FT_MaxStreamData, FT_MaxStreamsBidi, FT_MaxStreamsUni, FT_DataBlocked,
      FT_StreamDataBlocked, FT_StreamsBlockedBidi, FT_StreamsBlockedUni, FT_NewConnectionId,
      FT_RetireConnectionId, FT_PathChallenge, FT_PathResponse, FT_ConnectionClose,
      FT_ApplicationClose, FT_HandshakeDone, FT_AckFrequency, FT_ImmediateAck, FT_ObservedIpv4Addr,
      FT_ObservedIpv6Addr, FT_PathAck, FT_PathAckEcn, FT_PathAbandon, FT_PathStatusBackup,
      FT_PathStatusAvailable, FT_PathNewConnectionId, FT_PathRetireConnectionId, FT_MaxPathId,
      FT_PathsBlocked, FT_PathCidsBlocked, FT_AddIpv4Address, FT_AddIpv6Address, FT_ReachOutAtIpv4,
      FT_ReachOutAtIpv6, FT_RemoveAddress]"

definition FrameType_from_u64 :: "nat \<Rightarrow> FrameType option" where
  "FrameType_from_u64 n = List.find (\<lambda>t. FrameType_to_u64 t = n) FrameType_constants"

definition FrameType_try_from :: "nat \<Rightarrow> FrameType option" where
  "FrameType_try_from n =
     (case FrameType_from_u64 n of
        Some t \<Rightarrow> Some t
      | None \<Rightarrow>
          if DatagramInfo_VALUES n then Some (FT_Datagram (DatagramInfo (of_nat n)))
          else if StreamInfo_VALUES n then Some (FT_Stream (StreamInfo (of_nat n)))
          else None)"

definition FrameType_size :: "FrameType \<Rightarrow> nat option" where
  "FrameType_size t = VarInt_size (VarInt (of_nat (FrameType_to_u64 t)))"

definition FrameType_encode :: "FrameType \<Rightarrow> byte list option" where
  "FrameType_encode t = write_varn (FrameType_to_u64 t)"

definition FrameType_decode :: "byte list \<Rightarrow> (FrameType \<times> byte list) option" where
  "FrameType_decode buf =
     (case get_varn buf of None \<Rightarrow> None | Some (n, r) \<Rightarrow> map_option (\<lambda>t. (t, r)) (FrameType_try_from n))"

datatype MaybeFrame = MF_None | MF_Unknown nat | MF_Known FrameType

definition MaybeFrame_size :: "MaybeFrame \<Rightarrow> nat option" where
  "MaybeFrame_size m =
     (case m of
        MF_None \<Rightarrow> VarInt_size (VarInt 0)
      | MF_Unknown n \<Rightarrow> VarInt_size (VarInt (of_nat n))
      | MF_Known t \<Rightarrow> FrameType_size t)"

definition MaybeFrame_decode :: "byte list \<Rightarrow> (MaybeFrame \<times> byte list) option" where
  "MaybeFrame_decode buf =
     (case get_varn buf of
        None \<Rightarrow> None
      | Some (n, r) \<Rightarrow>
          Some (case FrameType_try_from n of
                  Some FT_Padding \<Rightarrow> MF_None
                | Some t \<Rightarrow> MF_Known t
                | None \<Rightarrow> MF_Unknown n, r))"

definition MaybeFrame_encode :: "MaybeFrame \<Rightarrow> byte list option" where
  "MaybeFrame_encode m =
     (case m of
        MF_None \<Rightarrow> write_varn 0
      | MF_Unknown n \<Rightarrow> write_varn n
      | MF_Known t \<Rightarrow> FrameType_encode t)"

text \<open>Path identifiers: a \<open>u32\<close>, carried by a variable-length integer.\<close>

datatype PathId = PathId nat

fun PathId_encode :: "PathId \<Rightarrow> byte list option" where
  "PathId_encode (PathId p) = VarInt_encode (VarInt (of_nat p))"

definition PathId_decode :: "byte list \<Rightarrow> (PathId \<times> byte list) option" where
  "PathId_decode buf =
     (case get_varn buf of None \<Rightarrow> None | Some (n, r) \<Rightarrow> if n < 2 ^ 32 then Some (PathId n, r) else None)"

text \<open>Connection ids are their bytes, at most \<open>MAX_CID_SIZE\<close> of them.\<close>

type_synonym ConnectionId = "byte list"

definition MAX_CID_SIZE :: nat where
  "MAX_CID_SIZE = 20"

definition RESET_TOKEN_SIZE :: nat where
  "RESET_TOKEN_SIZE = 16"

definition ConnectionId_encode_long :: "ConnectionId \<Rightarrow> byte list" where
  "ConnectionId_encode_long cid = put_u8 (of_nat (length cid)) @ put_slice cid"

definition ConnectionId_decode_long :: "byte list \<Rightarrow> (ConnectionId \<times> byte list) option" where
  "ConnectionId_decode_long buf =
     (case u8_decode buf of
        None \<Rightarrow> None
      | Some (l, r) \<Rightarrow>
          let len = unat l in
          if len > MAX_CID_SIZE \<or> length r < len then None else Some (take len r, drop len r))"

section \<open>Well-formed values\<close>

fun FrameType_ok :: "FrameType \<Rightarrow> bool" where
  "FrameType_ok (FT_Stream s) = StreamInfo_VALUES (StreamInfo_to_u64 s)"
| "FrameType_ok (FT_Datagram d) = DatagramInfo_VALUES (DatagramInfo_to_u64 d)"
| "FrameType_ok _ = True"

fun MaybeFrame_ok :: "MaybeFrame \<Rightarrow> bool" where
  "MaybeFrame_ok MF_None = True"
| "MaybeFrame_ok (MF_Unknown n) = (n < 2 ^ 62 \<and> FrameType_try_from n = None)"
| "MaybeFrame_ok (MF_Known t) = (FrameType_ok t \<and> t \<noteq> FT_Padding)"

fun PathId_ok :: "PathId \<Rightarrow> bool" where
  "PathId_ok (PathId p) = (p < 2 ^ 32)"

section \<open>Frame types\<close>

lemma FrameType_from_u64_info:
  "StreamInfo_VALUES n \<Longrightarrow> FrameType_from_u64 n = None" "DatagramInfo_VALUES n \<Longrightarrow> FrameType_from_u64 n = None"
  by (auto simp: FrameType_from_u64_def FrameType_constants_def StreamInfo_VALUES_def DatagramInfo_VALUES_def)

lemma FrameType_to_u64_bound: "FrameType_ok t \<Longrightarrow> FrameType_to_u64 t < 2 ^ 24"
  by (cases t) (auto simp: StreamInfo_VALUES_def DatagramInfo_VALUES_def)

lemma FrameType_try_from_to: "FrameType_ok t \<Longrightarrow> FrameType_try_from (FrameType_to_u64 t) = Some t"
proof (cases t)
  case (FT_Stream s)
  assume "FrameType_ok t"
  then have "StreamInfo_VALUES (StreamInfo_to_u64 s)" "\<not> DatagramInfo_VALUES (StreamInfo_to_u64 s)"
    using FT_Stream by (auto simp: StreamInfo_VALUES_def DatagramInfo_VALUES_def)
  then show ?thesis
    using FT_Stream by (cases s) (simp add: FrameType_try_from_def FrameType_from_u64_info)
next
  case (FT_Datagram d)
  assume "FrameType_ok t"
  then show ?thesis
    using FT_Datagram by (cases d) (simp add: FrameType_try_from_def FrameType_from_u64_info)
qed (simp_all add: FrameType_try_from_def FrameType_from_u64_def FrameType_constants_def)

lemma FrameType_from_u64_to:
  assumes "FrameType_from_u64 n = Some t"
  shows "FrameType_to_u64 t = n" and "FrameType_ok t"
proof -
  have "t \<in> set FrameType_constants" "FrameType_to_u64 t = n"
    using assms by (auto simp: FrameType_from_u64_def find_Some_iff)
  then show "FrameType_to_u64 t = n" "FrameType_ok t"
    by (auto simp: FrameType_constants_def)
qed

lemma FrameType_to_try_from:
  assumes "FrameType_try_from n = Some t"
  shows "FrameType_to_u64 t = n \<and> FrameType_ok t"
proof (cases "FrameType_from_u64 n")
  case None
  then show ?thesis
    using assms by (auto simp: FrameType_try_from_def StreamInfo_VALUES_def DatagramInfo_VALUES_def unat_of_nat
        split: if_splits)
next
  case (Some u)
  then show ?thesis
    using assms FrameType_from_u64_to [OF Some] by (simp add: FrameType_try_from_def)
qed

section \<open>Codecs\<close>

text \<open>The value that a number decodes to.\<close>

definition MaybeFrame_of :: "nat \<Rightarrow> MaybeFrame" where
  "MaybeFrame_of n =
     (case FrameType_try_from n of Some FT_Padding \<Rightarrow> MF_None | Some t \<Rightarrow> MF_Known t | None \<Rightarrow> MF_Unknown n)"

lemma MaybeFrame_decode_of: "MaybeFrame_decode bs = map_option (map_prod MaybeFrame_of id) (get_varn bs)"
  by (simp add: MaybeFrame_decode_def MaybeFrame_of_def split: option.splits)

lemma MaybeFrame_of_0: "MaybeFrame_of 0 = MF_None"
  by (simp add: MaybeFrame_of_def FrameType_try_from_def FrameType_from_u64_def FrameType_constants_def)

lemma MaybeFrame_of_known: "FrameType_ok t \<Longrightarrow> t \<noteq> FT_Padding \<Longrightarrow> MaybeFrame_of (FrameType_to_u64 t) = MF_Known t"
  by (simp add: MaybeFrame_of_def FrameType_try_from_to split: FrameType.splits)

lemma MaybeFrame_of_ok: "n < 2 ^ 62 \<Longrightarrow> MaybeFrame_ok (MaybeFrame_of n)"
  using FrameType_to_try_from [of n] by (auto simp: MaybeFrame_of_def split: option.splits FrameType.splits)

lemma encp_MaybeFrame_of: "n < 2 ^ 62 \<Longrightarrow> encp (write_varn n) (pget MaybeFrame_decode) (MaybeFrame_of n)"
  using varn_codec [of n] by (intro encp_pget) (auto simp: MaybeFrame_decode_of)

lemma encp_FrameType:
  "FrameType_ok t \<Longrightarrow> t \<noteq> FT_Padding \<Longrightarrow> encp (FrameType_encode t) (pget MaybeFrame_decode) (MF_Known t)"
  using encp_MaybeFrame_of [of "FrameType_to_u64 t"] FrameType_to_u64_bound [of t]
  by (simp add: FrameType_encode_def MaybeFrame_of_known)

lemma encp_MaybeFrame:
  assumes "MaybeFrame_ok m"
  shows "encp (MaybeFrame_encode m) (pget MaybeFrame_decode) m"
proof (cases m)
  case MF_None
  then show ?thesis
    using encp_MaybeFrame_of [of 0] by (simp add: MaybeFrame_encode_def MaybeFrame_of_0)
next
  case (MF_Unknown n)
  then show ?thesis
    using assms encp_MaybeFrame_of [of n] by (simp add: MaybeFrame_encode_def MaybeFrame_of_def)
next
  case (MF_Known t)
  then show ?thesis
    using assms encp_FrameType [of t] by (simp add: MaybeFrame_encode_def)
qed

lemma yields_MaybeFrame: "yields (pget MaybeFrame_decode) MaybeFrame_ok"
proof (intro yields_pget)
  fix bs m r
  assume "MaybeFrame_decode bs = Some (m, r)"
  then obtain n where "get_varn bs = Some (n, r)" "m = MaybeFrame_of n"
    by (auto simp: MaybeFrame_decode_of)
  then show "MaybeFrame_ok m \<and> length r \<le> length bs"
    using get_varn_bound [of bs n r] MaybeFrame_of_ok by simp
qed

lemma encp_PathId:
  assumes "PathId_ok p"
  shows "encp (PathId_encode p) (pget PathId_decode) p"
proof (cases p)
  case (PathId n)
  then show ?thesis
    using assms VarInt_codec_nat [of n]
    by (intro encp_pget) (auto simp: PathId_decode_def get_varn_def get_var_def)
qed

lemma yields_PathId: "yields (pget PathId_decode) PathId_ok"
  using get_varn_bound by (intro yields_pget) (auto simp: PathId_decode_def split: option.splits if_splits)

lemma encp_StreamId: "sid i < 2 ^ 62 \<Longrightarrow> encp (StreamId_encode i) (pget StreamId_decode) i"
  using VarInt_codec_nat [of "sid i"]
  by (intro encp_pget) (auto simp: StreamId_encode_def StreamId_decode_def VarInt_from_u64_def)

lemma yields_StreamId: "yields (pget StreamId_decode) (\<lambda>i. sid i < 2 ^ 62)"
  using VarInt_decode_ok varint.dec_shorter
  by (intro yields_pget) (fastforce simp: StreamId_decode_def VarInt_ok_def)

interpretation cid: codec "\<lambda>c. length c \<le> MAX_CID_SIZE" ConnectionId_encode_long ConnectionId_decode_long
proof unfold_locales
  show "ConnectionId_decode_long (ConnectionId_encode_long c @ rest) = Some (c, rest)"
    if "length c \<le> MAX_CID_SIZE" for c rest
  proof -
    have "unat (of_nat (length c) :: byte) = length c"
      using that by (simp add: MAX_CID_SIZE_def unat_of_nat)
    then show ?thesis
      using that u8.dec_enc [of "of_nat (length c)" "put_slice c @ rest"]
      by (simp add: ConnectionId_decode_long_def ConnectionId_encode_long_def put_slice_def)
  qed
  show "\<exists>used. bs = used @ rest \<and> used \<noteq> []" if dec: "ConnectionId_decode_long bs = Some (c, rest)" for bs c rest
  proof -
    obtain l r where l: "u8_decode bs = Some (l, r)" "rest = drop (unat l) r" "c = take (unat l) r"
      using dec by (auto simp: ConnectionId_decode_long_def Let_def split: option.splits if_splits)
    from u8.dec_consumes [OF l(1)] obtain used where "bs = used @ r" "used \<noteq> []"
      by blast
    then have "bs = (used @ take (unat l) r) @ rest" "used @ take (unat l) r \<noteq> []"
      using l(2) by auto
    then show ?thesis
      by blast
  qed
qed

end
