(* ===== verification/Frame.thy ===== *)
theory Frame
  imports Frame_Type Range_Set Transport_Error
begin

text \<open>
  QUIC frames (\<open>noq-proto/src/frame.rs\<close>): the frames that are received (\<open>Frame\<close>), those that
  can be sent (\<open>EncodableFrame\<close>), the encoder of each and the iterator that decodes the payload of
  a packet.
\<close>

section \<open>Frames\<close>

record EcnCounts =
  ect0 :: nat
  ect1 :: nat
  ce :: nat

definition EcnCounts_ZERO :: EcnCounts where
  "EcnCounts_ZERO = \<lparr>ect0 = 0, ect1 = 0, ce = 0\<rparr>"

datatype EcnCodepoint = Ect0 | Ect1 | Ce

definition EcnCodepoint_from_bits :: "byte \<Rightarrow> EcnCodepoint option" where
  "EcnCodepoint_from_bits x =
     (let b = x AND 0b11 in
      if b = 0b10 then Some Ect0 else if b = 0b01 then Some Ect1 else if b = 0b11 then Some Ce else None)"

definition EcnCounts_add :: "EcnCounts \<Rightarrow> EcnCodepoint \<Rightarrow> EcnCounts" where
  "EcnCounts_add self rhs =
     (case rhs of
        Ect0 \<Rightarrow> self\<lparr>ect0 := ect0 self + 1\<rparr>
      | Ect1 \<Rightarrow> self\<lparr>ect1 := ect1 self + 1\<rparr>
      | Ce \<Rightarrow> self\<lparr>ce := ce self + 1\<rparr>)"

record Ack =
  ack_largest :: nat
  ack_delay :: nat
  ack_ranges :: ArrayRangeSet
  ack_ecn :: "EcnCounts option"

record PathAck =
  pa_path_id :: PathId
  pa_largest :: nat
  pa_delay :: nat
  pa_ranges :: ArrayRangeSet
  pa_ecn :: "EcnCounts option"

definition PathAck_into_ack :: "PathAck \<Rightarrow> Ack \<times> PathId" where
  "PathAck_into_ack p =
     (\<lparr>ack_largest = pa_largest p, ack_delay = pa_delay p, ack_ranges = pa_ranges p, ack_ecn = pa_ecn p\<rparr>,
      pa_path_id p)"

record NewConnectionId =
  ncid_path_id :: "PathId option"
  ncid_sequence :: nat
  ncid_retire_prior_to :: nat
  ncid_id :: ConnectionId
  ncid_reset_token :: "byte list"

record RetireConnectionId =
  rcid_path_id :: "PathId option"
  rcid_sequence :: nat

record ResetStream =
  rs_id :: StreamId
  rs_error_code :: VarInt
  rs_final_offset :: VarInt

record StopSending =
  ss_id :: StreamId
  ss_error_code :: VarInt

record AckFrequency =
  af_sequence :: VarInt
  af_ack_eliciting_threshold :: VarInt
  af_request_max_ack_delay :: VarInt
  af_reordering_threshold :: VarInt

datatype IpAddr = V4 "byte list" | V6 "byte list"

record AddrFrame =
  addr_seq_no :: VarInt
  addr_ip :: IpAddr
  addr_port :: u16

datatype Close =
    ConnectionClose nat MaybeFrame "byte list"
  | ApplicationClose VarInt "byte list"

datatype Frame =
    Padding
  | Ping
  | FAck Ack
  | FPathAck PathAck
  | FResetStream ResetStream
  | FStopSending StopSending
  | Crypto nat "byte list"
  | NewToken "byte list"
  | Stream StreamFrame
  | MaxData VarInt
  | MaxStreamData StreamId nat
  | MaxStreams Dir nat
  | DataBlocked nat
  | StreamDataBlocked StreamId nat
  | StreamsBlocked Dir nat
  | FNewConnectionId NewConnectionId
  | FRetireConnectionId RetireConnectionId
  | PathChallenge u64
  | PathResponse u64
  | FClose Close
  | Datagram "byte list"
  | FAckFrequency AckFrequency
  | ImmediateAck
  | HandshakeDone
  | ObservedAddr AddrFrame
  | PathAbandon PathId nat
  | PathStatusAvailable PathId VarInt
  | PathStatusBackup PathId VarInt
  | MaxPathId PathId
  | PathsBlocked PathId
  | PathCidsBlocked PathId VarInt
  | AddAddress AddrFrame
  | ReachOut AddrFrame
  | RemoveAddress VarInt

section \<open>Types of frames\<close>

definition is_ipv6 :: "IpAddr \<Rightarrow> bool" where
  "is_ipv6 ip = (case ip of V4 _ \<Rightarrow> False | V6 _ \<Rightarrow> True)"

definition StreamsBlocked_get_type :: "Dir \<Rightarrow> FrameType" where
  "StreamsBlocked_get_type dir = (case dir of Bi \<Rightarrow> FT_StreamsBlockedBidi | Uni \<Rightarrow> FT_StreamsBlockedUni)"

definition MaxStreams_get_type :: "Dir \<Rightarrow> FrameType" where
  "MaxStreams_get_type dir = (case dir of Bi \<Rightarrow> FT_MaxStreamsBidi | Uni \<Rightarrow> FT_MaxStreamsUni)"

definition RetireConnectionId_get_type :: "RetireConnectionId \<Rightarrow> FrameType" where
  "RetireConnectionId_get_type f =
     (if rcid_path_id f \<noteq> None then FT_PathRetireConnectionId else FT_RetireConnectionId)"

definition NewConnectionId_get_type :: "NewConnectionId \<Rightarrow> FrameType" where
  "NewConnectionId_get_type f = (if ncid_path_id f \<noteq> None then FT_PathNewConnectionId else FT_NewConnectionId)"

definition Ack_get_type :: "EcnCounts option \<Rightarrow> FrameType" where
  "Ack_get_type ecn = (if ecn \<noteq> None then FT_AckEcn else FT_Ack)"

definition PathAck_get_type :: "EcnCounts option \<Rightarrow> FrameType" where
  "PathAck_get_type ecn = (if ecn \<noteq> None then FT_PathAckEcn else FT_PathAck)"

definition ObservedAddr_get_type :: "AddrFrame \<Rightarrow> FrameType" where
  "ObservedAddr_get_type f = (if is_ipv6 (addr_ip f) then FT_ObservedIpv6Addr else FT_ObservedIpv4Addr)"

definition AddAddress_get_type :: "AddrFrame \<Rightarrow> FrameType" where
  "AddAddress_get_type f = (if is_ipv6 (addr_ip f) then FT_AddIpv6Address else FT_AddIpv4Address)"

definition ReachOut_get_type :: "AddrFrame \<Rightarrow> FrameType" where
  "ReachOut_get_type f = (if is_ipv6 (addr_ip f) then FT_ReachOutAtIpv6 else FT_ReachOutAtIpv4)"

definition StreamMeta_get_type :: "StreamMeta \<Rightarrow> bool \<Rightarrow> StreamInfo" where
  "StreamMeta_get_type self encode_length =
     (let ty = 0x08;
          ty = (if fst (sm_offsets self) \<noteq> 0 then ty OR 0x04 else ty);
          ty = (if encode_length then ty OR 0x02 else ty);
          ty = (if sm_fin self then ty OR 0x01 else ty)
      in StreamInfo ty)"

fun Frame_ty :: "Frame \<Rightarrow> FrameType" where
  "Frame_ty Padding = FT_Padding"
| "Frame_ty (FResetStream _) = FT_ResetStream"
| "Frame_ty (FClose (ConnectionClose _ _ _)) = FT_ConnectionClose"
| "Frame_ty (FClose (ApplicationClose _ _)) = FT_ConnectionClose"
| "Frame_ty (MaxData _) = FT_MaxData"
| "Frame_ty (MaxStreamData _ _) = FT_MaxStreamData"
| "Frame_ty (MaxStreams dir _) = MaxStreams_get_type dir"
| "Frame_ty Ping = FT_Ping"
| "Frame_ty (DataBlocked _) = FT_DataBlocked"
| "Frame_ty (StreamDataBlocked _ _) = FT_StreamDataBlocked"
| "Frame_ty (StreamsBlocked dir _) = StreamsBlocked_get_type dir"
| "Frame_ty (FStopSending _) = FT_StopSending"
| "Frame_ty (FRetireConnectionId f) = RetireConnectionId_get_type f"
| "Frame_ty (FAck a) = Ack_get_type (ack_ecn a)"
| "Frame_ty (FPathAck a) = PathAck_get_type (pa_ecn a)"
| "Frame_ty (Stream x) =
     (let ty = 0x08;
          ty = (if sf_fin x then ty OR 0x01 else ty);
          ty = (if sf_offset x \<noteq> 0 then ty OR 0x04 else ty)
      in FT_Stream (StreamInfo ty))"
| "Frame_ty (PathChallenge _) = FT_PathChallenge"
| "Frame_ty (PathResponse _) = FT_PathResponse"
| "Frame_ty (FNewConnectionId f) = NewConnectionId_get_type f"
| "Frame_ty (Crypto _ _) = FT_Crypto"
| "Frame_ty (NewToken _) = FT_NewToken"
| "Frame_ty (Datagram _) = FT_Datagram (DatagramInfo 0x30)"
| "Frame_ty (FAckFrequency _) = FT_AckFrequency"
| "Frame_ty ImmediateAck = FT_ImmediateAck"
| "Frame_ty HandshakeDone = FT_HandshakeDone"
| "Frame_ty (ObservedAddr f) = ObservedAddr_get_type f"
| "Frame_ty (PathAbandon _ _) = FT_PathAbandon"
| "Frame_ty (PathStatusAvailable _ _) = FT_PathStatusAvailable"
| "Frame_ty (PathStatusBackup _ _) = FT_PathStatusBackup"
| "Frame_ty (MaxPathId _) = FT_MaxPathId"
| "Frame_ty (PathsBlocked _) = FT_PathsBlocked"
| "Frame_ty (PathCidsBlocked _ _) = FT_PathCidsBlocked"
| "Frame_ty (AddAddress f) = AddAddress_get_type f"
| "Frame_ty (ReachOut f) = ReachOut_get_type f"
| "Frame_ty (RemoveAddress _) = FT_RemoveAddress"

definition Frame_is_ack_eliciting :: "Frame \<Rightarrow> bool" where
  "Frame_is_ack_eliciting f =
     (case f of FAck _ \<Rightarrow> False | FPathAck _ \<Rightarrow> False | Padding \<Rightarrow> False | FClose _ \<Rightarrow> False | _ \<Rightarrow> True)"

definition Frame_is_qad_frame :: "Frame \<Rightarrow> bool" where
  "Frame_is_qad_frame f = (case f of ObservedAddr _ \<Rightarrow> True | _ \<Rightarrow> False)"

definition Frame_is_multipath_frame :: "Frame \<Rightarrow> bool" where
  "Frame_is_multipath_frame f =
     (case f of
        FPathAck _ \<Rightarrow> True | PathAbandon _ _ \<Rightarrow> True | PathStatusBackup _ _ \<Rightarrow> True
      | PathStatusAvailable _ _ \<Rightarrow> True | MaxPathId _ \<Rightarrow> True | PathsBlocked _ \<Rightarrow> True
      | PathCidsBlocked _ _ \<Rightarrow> True
      | FNewConnectionId c \<Rightarrow> ncid_path_id c \<noteq> None
      | FRetireConnectionId c \<Rightarrow> rcid_path_id c \<noteq> None
      | _ \<Rightarrow> False)"

definition Frame_is_1rtt :: "Frame \<Rightarrow> bool" where
  "Frame_is_1rtt f = (Frame_is_multipath_frame f \<or> Frame_is_qad_frame f)"

end
