(* ===== verification/Frame_Encode.thy ===== *)
theory Frame_Encode
  imports Frame
begin

text \<open>
  The encoders of \<open>noq-proto/src/frame.rs\<close>: the \<open>Encodable\<close> implementations, the encoders
  that write a frame without building it, and the enumeration of what can be sent.
\<close>

section \<open>Encoders\<close>

definition HandshakeDone_encode :: "byte list option" where
  "HandshakeDone_encode = FrameType_encode FT_HandshakeDone"

definition Ping_encode :: "byte list option" where
  "Ping_encode = FrameType_encode FT_Ping"

definition ImmediateAck_encode :: "byte list option" where
  "ImmediateAck_encode = FrameType_encode FT_ImmediateAck"

definition PathChallenge_encode :: "u64 \<Rightarrow> byte list option" where
  "PathChallenge_encode x = writes [FrameType_encode FT_PathChallenge, Some (put_u64 x)]"

definition PathResponse_encode :: "u64 \<Rightarrow> byte list option" where
  "PathResponse_encode x = writes [FrameType_encode FT_PathResponse, Some (put_u64 x)]"

definition DataBlocked_encode :: "nat \<Rightarrow> byte list option" where
  "DataBlocked_encode off = writes [FrameType_encode FT_DataBlocked, write_varn off]"

definition StreamDataBlocked_encode :: "StreamId \<Rightarrow> nat \<Rightarrow> byte list option" where
  "StreamDataBlocked_encode i off =
     writes [FrameType_encode FT_StreamDataBlocked, StreamId_encode i, write_varn off]"

definition StreamsBlocked_encode :: "Dir \<Rightarrow> nat \<Rightarrow> byte list option" where
  "StreamsBlocked_encode dir limit = writes [FrameType_encode (StreamsBlocked_get_type dir), write_varn limit]"

definition MaxData_encode :: "VarInt \<Rightarrow> byte list option" where
  "MaxData_encode v = writes [FrameType_encode FT_MaxData, VarInt_encode v]"

definition MaxStreamData_encode :: "StreamId \<Rightarrow> nat \<Rightarrow> byte list option" where
  "MaxStreamData_encode i off = writes [FrameType_encode FT_MaxStreamData, StreamId_encode i, write_varn off]"

definition MaxStreams_encode :: "Dir \<Rightarrow> nat \<Rightarrow> byte list option" where
  "MaxStreams_encode dir count = writes [FrameType_encode (MaxStreams_get_type dir), write_varn count]"

definition RetireConnectionId_encode :: "RetireConnectionId \<Rightarrow> byte list option" where
  "RetireConnectionId_encode f =
     writes ([FrameType_encode (RetireConnectionId_get_type f)]
       @ (case rcid_path_id f of Some p \<Rightarrow> [PathId_encode p] | None \<Rightarrow> [])
       @ [write_varn (rcid_sequence f)])"

text \<open>
  A close frame is cut to \<open>max_len\<close> bytes by shortening the reason.  The subtractions of the
  source are unsigned and panic below zero.
\<close>

definition reason_len :: "nat option \<Rightarrow> byte list \<Rightarrow> nat option" where
  "reason_len budget reason = do {
     budget \<leftarrow> budget;
     l \<leftarrow> VarInt_size (VarInt (of_nat (length reason)));
     max_len \<leftarrow> csub budget l;
     Some (min (length reason) max_len) }"

definition ConnectionClose_encode :: "nat \<Rightarrow> MaybeFrame \<Rightarrow> byte list \<Rightarrow> nat \<Rightarrow> byte list option" where
  "ConnectionClose_encode error_code frame_type reason max_len = do {
     size \<leftarrow> MaybeFrame_size frame_type;
     actual_len \<leftarrow> reason_len (do { m \<leftarrow> csub max_len 3; csub m size }) reason;
     writes [FrameType_encode FT_ConnectionClose, write_varn error_code, MaybeFrame_encode frame_type,
       write_varn actual_len, Some (put_slice (take actual_len reason))] }"

definition ApplicationClose_encode :: "VarInt \<Rightarrow> byte list \<Rightarrow> nat \<Rightarrow> byte list option" where
  "ApplicationClose_encode error_code reason max_len = do {
     actual_len \<leftarrow> reason_len (csub max_len 3) reason;
     writes [FrameType_encode FT_ApplicationClose, VarInt_encode error_code,
       write_varn actual_len, Some (put_slice (take actual_len reason))] }"

definition Close_encode :: "Close \<Rightarrow> nat \<Rightarrow> byte list option" where
  "Close_encode c max_len =
     (case c of
        ConnectionClose error_code frame_type reason \<Rightarrow> ConnectionClose_encode error_code frame_type reason max_len
      | ApplicationClose error_code reason \<Rightarrow> ApplicationClose_encode error_code reason max_len)"

definition EcnCounts_encode :: "EcnCounts \<Rightarrow> byte list option" where
  "EcnCounts_encode x = writes [write_varn (ect0 x), write_varn (ect1 x), write_varn (ce x)]"

text \<open>The loop of the ACK encoders over the ranges below the first one, in descending order.\<close>

fun ack_blocks_encode :: "nat \<Rightarrow> range list \<Rightarrow> byte list option list" where
  "ack_blocks_encode prev [] = []"
| "ack_blocks_encode prev (block # rest) =
     (do { gap \<leftarrow> csub prev (snd block); gap \<leftarrow> csub gap 1; write_varn gap })
     # (do { size \<leftarrow> csub (snd block) (fst block); size \<leftarrow> csub size 1; write_varn size })
     # ack_blocks_encode (fst block) rest"

definition ack_fields_encode :: "nat \<Rightarrow> ArrayRangeSet \<Rightarrow> EcnCounts option \<Rightarrow> byte list option" where
  "ack_fields_encode delay ranges ecn =
     (case rev ranges of
        [] \<Rightarrow> None
      | first # rest \<Rightarrow>
          writes ([do { largest \<leftarrow> csub (snd first) 1; write_varn largest },
             write_varn delay,
             do { n \<leftarrow> csub (length ranges) 1; write_varn n },
             do { size \<leftarrow> csub (snd first) (fst first); size \<leftarrow> csub size 1; write_varn size }]
           @ ack_blocks_encode (fst first) rest
           @ (case ecn of Some x \<Rightarrow> [EcnCounts_encode x] | None \<Rightarrow> [])))"

definition PathAckEncoder_encode :: "PathId \<Rightarrow> nat \<Rightarrow> ArrayRangeSet \<Rightarrow> EcnCounts option \<Rightarrow> byte list option" where
  "PathAckEncoder_encode path_id delay ranges ecn =
     writes [FrameType_encode (PathAck_get_type ecn), PathId_encode path_id, ack_fields_encode delay ranges ecn]"

definition AckEncoder_encode :: "nat \<Rightarrow> ArrayRangeSet \<Rightarrow> EcnCounts option \<Rightarrow> byte list option" where
  "AckEncoder_encode delay ranges ecn =
     writes [FrameType_encode (Ack_get_type ecn), ack_fields_encode delay ranges ecn]"

definition StreamMetaEncoder_encode :: "StreamMeta \<Rightarrow> bool \<Rightarrow> byte list option" where
  "StreamMetaEncoder_encode meta encode_length =
     writes ([write_varn (StreamInfo_to_u64 (StreamMeta_get_type meta encode_length)), StreamId_encode (sm_id meta)]
       @ (if fst (sm_offsets meta) \<noteq> 0 then [write_varn (fst (sm_offsets meta))] else [])
       @ (if encode_length
          then [do { n \<leftarrow> csub (snd (sm_offsets meta)) (fst (sm_offsets meta)); write_varn n }] else []))"

definition Crypto_encode :: "nat \<Rightarrow> byte list \<Rightarrow> byte list option" where
  "Crypto_encode off data =
     writes [FrameType_encode FT_Crypto, write_varn off, write_varn (length data), Some (put_slice data)]"

definition NewToken_encode :: "byte list \<Rightarrow> byte list option" where
  "NewToken_encode token =
     writes [FrameType_encode FT_NewToken, write_varn (length token), Some (put_slice token)]"

definition NewToken_size :: "byte list \<Rightarrow> nat option" where
  "NewToken_size token = do {
     l \<leftarrow> VarInt_size (VarInt (of_nat (length token)));
     Some (1 + l + length token) }"

definition MaxPathId_encode :: "PathId \<Rightarrow> byte list option" where
  "MaxPathId_encode p = writes [FrameType_encode FT_MaxPathId, PathId_encode p]"

definition PathsBlocked_encode :: "PathId \<Rightarrow> byte list option" where
  "PathsBlocked_encode p = writes [FrameType_encode FT_PathsBlocked, PathId_encode p]"

definition PathCidsBlocked_encode :: "PathId \<Rightarrow> VarInt \<Rightarrow> byte list option" where
  "PathCidsBlocked_encode p next_seq =
     writes [FrameType_encode FT_PathCidsBlocked, PathId_encode p, VarInt_encode next_seq]"

definition ResetStream_encode :: "ResetStream \<Rightarrow> byte list option" where
  "ResetStream_encode f =
     writes [FrameType_encode FT_ResetStream, StreamId_encode (rs_id f), VarInt_encode (rs_error_code f),
       VarInt_encode (rs_final_offset f)]"

definition StopSending_encode :: "StopSending \<Rightarrow> byte list option" where
  "StopSending_encode f =
     writes [FrameType_encode FT_StopSending, StreamId_encode (ss_id f), VarInt_encode (ss_error_code f)]"

definition NewConnectionId_encode :: "NewConnectionId \<Rightarrow> byte list option" where
  "NewConnectionId_encode f =
     writes ([FrameType_encode (NewConnectionId_get_type f)]
       @ (case ncid_path_id f of Some p \<Rightarrow> [PathId_encode p] | None \<Rightarrow> [])
       @ [write_varn (ncid_sequence f), write_varn (ncid_retire_prior_to f),
          Some (put_u8 (of_nat (length (ncid_id f)))), Some (put_slice (ncid_id f)),
          Some (put_slice (ncid_reset_token f))])"

definition Datagram_size :: "byte list \<Rightarrow> bool \<Rightarrow> nat option" where
  "Datagram_size data length_field = do {
     l \<leftarrow> (if length_field then VarInt_size (VarInt (of_nat (length data))) else Some 0);
     Some (1 + l + length data) }"

definition Datagram_encode :: "byte list \<Rightarrow> byte list option" where
  "Datagram_encode data =
     writes [FrameType_encode (FT_Datagram (DatagramInfo (0x30 OR 1))), write_varn (length data),
       Some (put_slice data)]"

definition AckFrequency_encode :: "AckFrequency \<Rightarrow> byte list option" where
  "AckFrequency_encode f =
     writes [FrameType_encode FT_AckFrequency, VarInt_encode (af_sequence f),
       VarInt_encode (af_ack_eliciting_threshold f), VarInt_encode (af_request_max_ack_delay f),
       VarInt_encode (af_reordering_threshold f)]"

definition IpAddr_encode :: "IpAddr \<Rightarrow> byte list option" where
  "IpAddr_encode ip = Some (case ip of V4 a \<Rightarrow> put_slice a | V6 a \<Rightarrow> put_slice a)"

text \<open>\<open>ObservedAddr\<close>, \<open>AddAddress\<close> and \<open>ReachOut\<close> differ in their types only.\<close>

definition AddrFrame_size :: "FrameType \<Rightarrow> AddrFrame \<Rightarrow> nat option" where
  "AddrFrame_size ty f = do {
     type_size \<leftarrow> FrameType_size ty;
     seq_no_bytes \<leftarrow> VarInt_size (addr_seq_no f);
     Some (type_size + seq_no_bytes + (if is_ipv6 (addr_ip f) then 16 else 4) + 2) }"

definition ObservedAddr_encode :: "AddrFrame \<Rightarrow> byte list option" where
  "ObservedAddr_encode f =
     writes [FrameType_encode (ObservedAddr_get_type f), VarInt_encode (addr_seq_no f), IpAddr_encode (addr_ip f),
       Some (put_u16 (addr_port f))]"

definition PathAbandon_encode :: "PathId \<Rightarrow> nat \<Rightarrow> byte list option" where
  "PathAbandon_encode p error_code =
     writes [FrameType_encode FT_PathAbandon, PathId_encode p, write_varn error_code]"

definition PathStatusAvailable_encode :: "PathId \<Rightarrow> VarInt \<Rightarrow> byte list option" where
  "PathStatusAvailable_encode p seq =
     writes [FrameType_encode FT_PathStatusAvailable, PathId_encode p, VarInt_encode seq]"

definition PathStatusBackup_encode :: "PathId \<Rightarrow> VarInt \<Rightarrow> byte list option" where
  "PathStatusBackup_encode p seq =
     writes [FrameType_encode FT_PathStatusBackup, PathId_encode p, VarInt_encode seq]"

definition AddAddress_encode :: "AddrFrame \<Rightarrow> byte list option" where
  "AddAddress_encode f =
     writes [FrameType_encode (AddAddress_get_type f), VarInt_encode (addr_seq_no f), IpAddr_encode (addr_ip f),
       Some (put_u16 (addr_port f))]"

definition ReachOut_encode :: "AddrFrame \<Rightarrow> byte list option" where
  "ReachOut_encode f =
     writes [FrameType_encode (ReachOut_get_type f), VarInt_encode (addr_seq_no f), IpAddr_encode (addr_ip f),
       Some (put_u16 (addr_port f))]"

definition RemoveAddress_encode :: "VarInt \<Rightarrow> byte list option" where
  "RemoveAddress_encode seq_no = writes [FrameType_encode FT_RemoveAddress, VarInt_encode seq_no]"

section \<open>Frames that can be sent\<close>

datatype EncodableFrame =
    EPathAck PathId nat ArrayRangeSet "EcnCounts option"
  | EAck nat ArrayRangeSet "EcnCounts option"
  | EClose Close nat
  | EPathResponse u64
  | EHandshakeDone
  | EReachOut AddrFrame
  | EObservedAddr AddrFrame
  | EPing
  | EImmediateAck
  | EAckFrequency AckFrequency
  | EPathChallenge u64
  | ECrypto nat "byte list"
  | EPathAbandon PathId nat
  | EPathStatusAvailable PathId VarInt
  | EPathStatusBackup PathId VarInt
  | EMaxPathId PathId
  | EPathsBlocked PathId
  | EPathCidsBlocked PathId VarInt
  | EResetStream ResetStream
  | EStopSending StopSending
  | ENewConnectionId NewConnectionId
  | ERetireConnectionId RetireConnectionId
  | EDatagram "byte list"
  | ENewToken "byte list"
  | EAddAddress AddrFrame
  | ERemoveAddress VarInt
  | EStreamMeta StreamMeta bool
  | EMaxData VarInt
  | EMaxStreamData StreamId nat
  | EMaxStreams Dir nat
  | EStreamsBlocked Dir nat

fun EncodableFrame_encode :: "EncodableFrame \<Rightarrow> byte list option" where
  "EncodableFrame_encode (EPathAck p delay ranges ecn) = PathAckEncoder_encode p delay ranges ecn"
| "EncodableFrame_encode (EAck delay ranges ecn) = AckEncoder_encode delay ranges ecn"
| "EncodableFrame_encode (EClose c max_len) = Close_encode c max_len"
| "EncodableFrame_encode (EPathResponse x) = PathResponse_encode x"
| "EncodableFrame_encode EHandshakeDone = HandshakeDone_encode"
| "EncodableFrame_encode (EReachOut f) = ReachOut_encode f"
| "EncodableFrame_encode (EObservedAddr f) = ObservedAddr_encode f"
| "EncodableFrame_encode EPing = Ping_encode"
| "EncodableFrame_encode EImmediateAck = ImmediateAck_encode"
| "EncodableFrame_encode (EAckFrequency f) = AckFrequency_encode f"
| "EncodableFrame_encode (EPathChallenge x) = PathChallenge_encode x"
| "EncodableFrame_encode (ECrypto off data) = Crypto_encode off data"
| "EncodableFrame_encode (EPathAbandon p code) = PathAbandon_encode p code"
| "EncodableFrame_encode (EPathStatusAvailable p seq) = PathStatusAvailable_encode p seq"
| "EncodableFrame_encode (EPathStatusBackup p seq) = PathStatusBackup_encode p seq"
| "EncodableFrame_encode (EMaxPathId p) = MaxPathId_encode p"
| "EncodableFrame_encode (EPathsBlocked p) = PathsBlocked_encode p"
| "EncodableFrame_encode (EPathCidsBlocked p next_seq) = PathCidsBlocked_encode p next_seq"
| "EncodableFrame_encode (EResetStream f) = ResetStream_encode f"
| "EncodableFrame_encode (EStopSending f) = StopSending_encode f"
| "EncodableFrame_encode (ENewConnectionId f) = NewConnectionId_encode f"
| "EncodableFrame_encode (ERetireConnectionId f) = RetireConnectionId_encode f"
| "EncodableFrame_encode (EDatagram data) = Datagram_encode data"
| "EncodableFrame_encode (ENewToken token) = NewToken_encode token"
| "EncodableFrame_encode (EAddAddress f) = AddAddress_encode f"
| "EncodableFrame_encode (ERemoveAddress seq_no) = RemoveAddress_encode seq_no"
| "EncodableFrame_encode (EStreamMeta meta encode_length) = StreamMetaEncoder_encode meta encode_length"
| "EncodableFrame_encode (EMaxData v) = MaxData_encode v"
| "EncodableFrame_encode (EMaxStreamData i off) = MaxStreamData_encode i off"
| "EncodableFrame_encode (EMaxStreams dir count) = MaxStreams_encode dir count"
| "EncodableFrame_encode (EStreamsBlocked dir limit) = StreamsBlocked_encode dir limit"

definition EncodableFrame_is_ack_eliciting :: "EncodableFrame \<Rightarrow> bool" where
  "EncodableFrame_is_ack_eliciting f =
     (case f of EPathAck _ _ _ _ \<Rightarrow> False | EAck _ _ _ \<Rightarrow> False | EClose _ _ \<Rightarrow> False | _ \<Rightarrow> True)"

end
