(* ===== verification/Retransmits.thy ===== *)
theory Retransmits
  imports Frame_Encode "HOL-Library.Multiset"
begin

text \<open>
  What a packet carried and what has to be sent again when it is lost: \<open>Retransmits\<close>,
  \<open>PendingNewCids\<close> and \<open>PendingReachOutFrames\<close> (\<open>noq-proto/src/connection/spaces.rs\<close>)
  and \<open>SentFrames\<close> (\<open>noq-proto/src/connection/mod.rs\<close>).  A hash set that is iterated over is
  the list of its elements in the order it yields them, the others are sets.
\<close>

section \<open>Queues\<close>

record IssuedCid =
  ic_path_id :: PathId
  ic_sequence :: nat
  ic_id :: ConnectionId
  ic_reset_token :: "byte list"

definition NewConnectionId_issued :: "NewConnectionId \<Rightarrow> IssuedCid" where
  "NewConnectionId_issued f =
     \<lparr>ic_path_id = (case ncid_path_id f of Some p \<Rightarrow> p | None \<Rightarrow> PathId 0), ic_sequence = ncid_sequence f,
      ic_id = ncid_id f, ic_reset_token = ncid_reset_token f\<rparr>"

record PendingNewCids =
  pnc_cids :: "IssuedCid list"
  pnc_sorted :: bool

fun path_num :: "PathId \<Rightarrow> nat" where
  "path_num (PathId n) = n"

definition cid_before :: "IssuedCid \<Rightarrow> IssuedCid \<Rightarrow> bool" where
  "cid_before a b \<longleftrightarrow> path_num (ic_path_id a) < path_num (ic_path_id b) \<or>
     path_num (ic_path_id a) = path_num (ic_path_id b) \<and> ic_sequence a \<le> ic_sequence b"

text \<open>The stable descending sort of \<open>sort_by_key(Reverse(..))\<close>.\<close>

fun cid_insort :: "IssuedCid \<Rightarrow> IssuedCid list \<Rightarrow> IssuedCid list" where
  "cid_insort x [] = [x]"
| "cid_insort x (y # ys) = (if cid_before y x then x # y # ys else y # cid_insort x ys)"

definition cid_sort :: "IssuedCid list \<Rightarrow> IssuedCid list" where
  "cid_sort xs = foldr cid_insort xs []"

definition PendingNewCids_new :: PendingNewCids where
  "PendingNewCids_new = \<lparr>pnc_cids = [], pnc_sorted = False\<rparr>"

definition PendingNewCids_push :: "IssuedCid \<Rightarrow> PendingNewCids \<Rightarrow> PendingNewCids" where
  "PendingNewCids_push cid p = p\<lparr>pnc_cids := pnc_cids p @ [cid], pnc_sorted := False\<rparr>"

definition PendingNewCids_pop :: "PendingNewCids \<Rightarrow> IssuedCid option \<times> PendingNewCids" where
  "PendingNewCids_pop p =
     (let cids = (if pnc_sorted p then pnc_cids p else cid_sort (pnc_cids p)) in
      if cids = [] then (None, p\<lparr>pnc_cids := [], pnc_sorted := True\<rparr>)
      else (Some (last cids), p\<lparr>pnc_cids := butlast cids, pnc_sorted := True\<rparr>))"

definition PendingNewCids_extend :: "PendingNewCids \<Rightarrow> PendingNewCids \<Rightarrow> PendingNewCids" where
  "PendingNewCids_extend other p = p\<lparr>pnc_cids := pnc_cids p @ pnc_cids other, pnc_sorted := False\<rparr>"

definition PendingNewCids_retain :: "(IssuedCid \<Rightarrow> bool) \<Rightarrow> PendingNewCids \<Rightarrow> PendingNewCids" where
  "PendingNewCids_retain f p = p\<lparr>pnc_cids := filter f (pnc_cids p)\<rparr>"

record PendingReachOutFrames =
  pro_round :: nat
  pro_frames :: "AddrFrame list"

definition reach_round :: "AddrFrame \<Rightarrow> nat" where
  "reach_round f = unat (into_inner (addr_seq_no f))"

definition PendingReachOut_push :: "AddrFrame \<Rightarrow> PendingReachOutFrames \<Rightarrow> PendingReachOutFrames" where
  "PendingReachOut_push frame p =
     (if reach_round frame < pro_round p then p
      else
        let p = (if reach_round frame > pro_round p then p\<lparr>pro_round := reach_round frame, pro_frames := []\<rparr> else p)
        in p\<lparr>pro_frames := pro_frames p @ [frame]\<rparr>)"

definition PendingReachOut_append :: "PendingReachOutFrames \<Rightarrow> PendingReachOutFrames \<Rightarrow> PendingReachOutFrames" where
  "PendingReachOut_append other p =
     (if pro_round other < pro_round p then p
      else
        let p = (if pro_round other > pro_round p then p\<lparr>pro_round := pro_round other, pro_frames := []\<rparr> else p)
        in p\<lparr>pro_frames := pro_frames p @ pro_frames other\<rparr>)"

section \<open>Retransmits\<close>

text \<open>A network path: the remote address and port and, if known, the local address.\<close>

type_synonym FourTuple = "(IpAddr \<times> u16) \<times> IpAddr option"

record Retransmits =
  rt_max_data :: bool
  rt_max_stream_id :: "Dir \<Rightarrow> bool"
  rt_streams_blocked :: "Dir \<Rightarrow> bool"
  rt_reset_stream :: "(StreamId \<times> VarInt) list"
  rt_stop_sending :: "StopSending list"
  rt_max_stream_data :: "StreamId list"
  rt_crypto :: "(nat \<times> byte list) list"
  rt_new_cids :: PendingNewCids
  rt_retire_cids :: "(PathId \<times> nat) list"
  rt_ack_frequency :: bool
  rt_handshake_done :: bool
  rt_observed_addr :: bool
  rt_max_path_id :: bool
  rt_paths_blocked :: bool
  rt_new_tokens :: "FourTuple list"
  rt_path_abandon :: "PathId \<rightharpoonup> nat"
  rt_path_status :: "PathId set"
  rt_path_cids_blocked :: "PathId set"
  rt_add_address :: "AddrFrame set"
  rt_remove_address :: "VarInt set"
  rt_reach_out :: PendingReachOutFrames

definition Retransmits_default :: Retransmits where
  "Retransmits_default =
     \<lparr>rt_max_data = False, rt_max_stream_id = (\<lambda>_. False), rt_streams_blocked = (\<lambda>_. False),
      rt_reset_stream = [], rt_stop_sending = [], rt_max_stream_data = [], rt_crypto = [],
      rt_new_cids = PendingNewCids_new, rt_retire_cids = [], rt_ack_frequency = False,
      rt_handshake_done = False, rt_observed_addr = False, rt_max_path_id = False,
      rt_paths_blocked = False, rt_new_tokens = [], rt_path_abandon = Map.empty, rt_path_status = {},
      rt_path_cids_blocked = {}, rt_add_address = {}, rt_remove_address = {},
      rt_reach_out = \<lparr>pro_round = 0, pro_frames = []\<rparr>\<rparr>"

text \<open>Insertion into a hash set.\<close>

definition set_insert :: "'a \<Rightarrow> 'a list \<Rightarrow> 'a list" where
  "set_insert x xs = (if x \<in> set xs then xs else xs @ [x])"

definition Retransmits_bitor_assign :: "Retransmits \<Rightarrow> Retransmits \<Rightarrow> Retransmits" where
  "Retransmits_bitor_assign self rhs =
     \<lparr>rt_max_data = (rt_max_data self \<or> rt_max_data rhs),
      rt_max_stream_id = (\<lambda>d. rt_max_stream_id self d \<or> rt_max_stream_id rhs d),
      rt_streams_blocked = (\<lambda>d. rt_streams_blocked self d \<or> rt_streams_blocked rhs d),
      rt_reset_stream = rt_reset_stream self @ rt_reset_stream rhs,
      rt_stop_sending = rt_stop_sending self @ rt_stop_sending rhs,
      rt_max_stream_data = fold set_insert (rt_max_stream_data rhs) (rt_max_stream_data self),
      rt_crypto = rt_crypto rhs @ rt_crypto self,
      rt_new_cids = PendingNewCids_extend (rt_new_cids rhs) (rt_new_cids self),
      rt_retire_cids = rt_retire_cids self @ rt_retire_cids rhs,
      rt_ack_frequency = (rt_ack_frequency self \<or> rt_ack_frequency rhs),
      rt_handshake_done = (rt_handshake_done self \<or> rt_handshake_done rhs),
      rt_observed_addr = (rt_observed_addr self \<or> rt_observed_addr rhs),
      rt_max_path_id = (rt_max_path_id self \<or> rt_max_path_id rhs),
      rt_paths_blocked = (rt_paths_blocked self \<or> rt_paths_blocked rhs),
      rt_new_tokens = rt_new_tokens self @ rt_new_tokens rhs,
      rt_path_abandon = rt_path_abandon self ++ rt_path_abandon rhs,
      rt_path_status = rt_path_status self \<union> rt_path_status rhs,
      rt_path_cids_blocked = rt_path_cids_blocked self \<union> rt_path_cids_blocked rhs,
      rt_add_address = rt_add_address self \<union> rt_add_address rhs,
      rt_remove_address = rt_remove_address self \<union> rt_remove_address rhs,
      rt_reach_out = PendingReachOut_append (rt_reach_out rhs) (rt_reach_out self)\<rparr>"

text \<open>\<open>can_send_flow_control\<close> is the question \<open>is_empty\<close> asks of the streams.\<close>

definition Retransmits_is_empty :: "(StreamId \<Rightarrow> bool) \<Rightarrow> Retransmits \<Rightarrow> bool" where
  "Retransmits_is_empty can_send_flow_control r \<longleftrightarrow>
     \<not> rt_max_data r \<and> \<not> rt_max_stream_id r Bi \<and> \<not> rt_max_stream_id r Uni \<and>
     \<not> rt_streams_blocked r Bi \<and> \<not> rt_streams_blocked r Uni \<and>
     rt_reset_stream r = [] \<and> rt_stop_sending r = [] \<and>
     list_all (\<lambda>i. \<not> can_send_flow_control i) (rt_max_stream_data r) \<and>
     rt_crypto r = [] \<and> pnc_cids (rt_new_cids r) = [] \<and> rt_retire_cids r = [] \<and>
     \<not> rt_ack_frequency r \<and> \<not> rt_handshake_done r \<and> \<not> rt_observed_addr r \<and> \<not> rt_max_path_id r \<and>
     \<not> rt_paths_blocked r \<and> rt_new_tokens r = [] \<and> rt_path_abandon r = Map.empty \<and>
     rt_path_status r = {} \<and> rt_path_cids_blocked r = {} \<and> rt_add_address r = {} \<and>
     rt_remove_address r = {} \<and> pro_frames (rt_reach_out r) = []"

section \<open>Sent frames\<close>

record SentFrames =
  sfr_retransmits :: Retransmits
  sfr_largest_acked :: "PathId \<rightharpoonup> nat"
  sfr_stream_frames :: "StreamMeta list"
  sfr_non_retransmits :: bool
  sfr_requires_padding :: bool

definition SentFrames_default :: SentFrames where
  "SentFrames_default =
     \<lparr>sfr_retransmits = Retransmits_default, sfr_largest_acked = Map.empty, sfr_stream_frames = [],
      sfr_non_retransmits = False, sfr_requires_padding = False\<rparr>"

definition SentFrames_is_ack_only :: "(StreamId \<Rightarrow> bool) \<Rightarrow> SentFrames \<Rightarrow> bool" where
  "SentFrames_is_ack_only can_send_flow_control s \<longleftrightarrow>
     sfr_largest_acked s \<noteq> Map.empty \<and> \<not> sfr_non_retransmits s \<and> sfr_stream_frames s = [] \<and>
     Retransmits_is_empty can_send_flow_control (sfr_retransmits s)"

definition sfr_upd :: "(Retransmits \<Rightarrow> Retransmits) \<Rightarrow> SentFrames \<Rightarrow> SentFrames" where
  "sfr_upd g s = s\<lparr>sfr_retransmits := g (sfr_retransmits s)\<rparr>"

text \<open>The maximum of the ranges of an acknowledgement panics below zero like \<open>ArrayRangeSet::max\<close>.\<close>

definition record_acked :: "PathId \<Rightarrow> ArrayRangeSet \<Rightarrow> SentFrames \<Rightarrow> SentFrames option" where
  "record_acked p ranges s = do {
     m \<leftarrow> ars_max ranges;
     Some (case m of Some x \<Rightarrow> s\<lparr>sfr_largest_acked := (sfr_largest_acked s)(p \<mapsto> x)\<rparr> | None \<Rightarrow> s) }"

fun record_sent_frame :: "EncodableFrame \<Rightarrow> SentFrames \<Rightarrow> SentFrames option" where
  "record_sent_frame (EPathAck p delay ranges ecn) s = record_acked p ranges s"
| "record_sent_frame (EAck delay ranges ecn) s = record_acked (PathId 0) ranges s"
| "record_sent_frame (EClose c max_len) s = Some s"
| "record_sent_frame (EPathResponse x) s = Some (s\<lparr>sfr_non_retransmits := True\<rparr>)"
| "record_sent_frame EHandshakeDone s = Some (sfr_upd (\<lambda>r. r\<lparr>rt_handshake_done := True\<rparr>) s)"
| "record_sent_frame (EReachOut f) s = Some (sfr_upd (\<lambda>r. r\<lparr>rt_reach_out := PendingReachOut_push f (rt_reach_out r)\<rparr>) s)"
| "record_sent_frame (EObservedAddr f) s = Some (sfr_upd (\<lambda>r. r\<lparr>rt_observed_addr := True\<rparr>) s)"
| "record_sent_frame EPing s = Some (s\<lparr>sfr_non_retransmits := True\<rparr>)"
| "record_sent_frame EImmediateAck s = Some (s\<lparr>sfr_non_retransmits := True\<rparr>)"
| "record_sent_frame (EAckFrequency f) s = Some (sfr_upd (\<lambda>r. r\<lparr>rt_ack_frequency := True\<rparr>) s)"
| "record_sent_frame (EPathChallenge x) s = Some (s\<lparr>sfr_non_retransmits := True\<rparr>)"
| "record_sent_frame (ECrypto off data) s = Some (sfr_upd (\<lambda>r. r\<lparr>rt_crypto := rt_crypto r @ [(off, data)]\<rparr>) s)"
| "record_sent_frame (EPathAbandon p code) s =
     Some (sfr_upd (\<lambda>r. r\<lparr>rt_path_abandon := (case rt_path_abandon r p of
        None \<Rightarrow> (rt_path_abandon r)(p \<mapsto> code) | Some _ \<Rightarrow> rt_path_abandon r)\<rparr>) s)"
| "record_sent_frame (EPathStatusAvailable p sq) s = Some (sfr_upd (\<lambda>r. r\<lparr>rt_path_status := insert p (rt_path_status r)\<rparr>) s)"
| "record_sent_frame (EPathStatusBackup p sq) s = Some (sfr_upd (\<lambda>r. r\<lparr>rt_path_status := insert p (rt_path_status r)\<rparr>) s)"
| "record_sent_frame (EMaxPathId p) s = Some (sfr_upd (\<lambda>r. r\<lparr>rt_max_path_id := True\<rparr>) s)"
| "record_sent_frame (EPathsBlocked p) s = Some (sfr_upd (\<lambda>r. r\<lparr>rt_paths_blocked := True\<rparr>) s)"
| "record_sent_frame (EPathCidsBlocked p sq) s =
     Some (sfr_upd (\<lambda>r. r\<lparr>rt_path_cids_blocked := insert p (rt_path_cids_blocked r)\<rparr>) s)"
| "record_sent_frame (EResetStream f) s =
     Some (sfr_upd (\<lambda>r. r\<lparr>rt_reset_stream := rt_reset_stream r @ [(rs_id f, rs_error_code f)]\<rparr>) s)"
| "record_sent_frame (EStopSending f) s = Some (sfr_upd (\<lambda>r. r\<lparr>rt_stop_sending := rt_stop_sending r @ [f]\<rparr>) s)"
| "record_sent_frame (ENewConnectionId f) s =
     Some (sfr_upd (\<lambda>r. r\<lparr>rt_new_cids := PendingNewCids_push (NewConnectionId_issued f) (rt_new_cids r)\<rparr>) s)"
| "record_sent_frame (ERetireConnectionId f) s =
     Some (sfr_upd (\<lambda>r. r\<lparr>rt_retire_cids := rt_retire_cids r @
        [(case rcid_path_id f of Some p \<Rightarrow> p | None \<Rightarrow> PathId 0, rcid_sequence f)]\<rparr>) s)"
| "record_sent_frame (EDatagram data) s = Some (s\<lparr>sfr_non_retransmits := True\<rparr>)"
| "record_sent_frame (ENewToken token) s = Some s"
| "record_sent_frame (EAddAddress f) s = Some (sfr_upd (\<lambda>r. r\<lparr>rt_add_address := insert f (rt_add_address r)\<rparr>) s)"
| "record_sent_frame (ERemoveAddress sq) s = Some (sfr_upd (\<lambda>r. r\<lparr>rt_remove_address := insert sq (rt_remove_address r)\<rparr>) s)"
| "record_sent_frame (EStreamMeta m el) s = Some (s\<lparr>sfr_stream_frames := sfr_stream_frames s @ [m]\<rparr>)"
| "record_sent_frame (EMaxData v) s = Some (sfr_upd (\<lambda>r. r\<lparr>rt_max_data := True\<rparr>) s)"
| "record_sent_frame (EMaxStreamData i off) s =
     Some (sfr_upd (\<lambda>r. r\<lparr>rt_max_stream_data := set_insert i (rt_max_stream_data r)\<rparr>) s)"
| "record_sent_frame (EMaxStreams dir n) s =
     Some (sfr_upd (\<lambda>r. r\<lparr>rt_max_stream_id := (rt_max_stream_id r)(dir := True)\<rparr>) s)"
| "record_sent_frame (EStreamsBlocked dir limit) s =
     Some (sfr_upd (\<lambda>r. r\<lparr>rt_streams_blocked := (rt_streams_blocked r)(dir := True)\<rparr>) s)"

section \<open>Nothing that was sent is forgotten\<close>

text \<open>
  Whether what a frame announced is queued: the frame itself, a flag from which it is built anew,
  or, for REACH_OUT, a later round that replaces it.  Frames that are not retransmitted ask for
  nothing; STREAM frames are kept apart, in \<open>stream_frames\<close>.
\<close>

fun queued :: "EncodableFrame \<Rightarrow> Retransmits \<Rightarrow> bool" where
  "queued EHandshakeDone r = rt_handshake_done r"
| "queued (EReachOut f) r = (f \<in> set (pro_frames (rt_reach_out r)) \<or> reach_round f < pro_round (rt_reach_out r))"
| "queued (EObservedAddr f) r = rt_observed_addr r"
| "queued (EAckFrequency f) r = rt_ack_frequency r"
| "queued (ECrypto off data) r = ((off, data) \<in> set (rt_crypto r))"
| "queued (EPathAbandon p code) r = (p \<in> dom (rt_path_abandon r))"
| "queued (EPathStatusAvailable p sq) r = (p \<in> rt_path_status r)"
| "queued (EPathStatusBackup p sq) r = (p \<in> rt_path_status r)"
| "queued (EMaxPathId p) r = rt_max_path_id r"
| "queued (EPathsBlocked p) r = rt_paths_blocked r"
| "queued (EPathCidsBlocked p sq) r = (p \<in> rt_path_cids_blocked r)"
| "queued (EResetStream f) r = ((rs_id f, rs_error_code f) \<in> set (rt_reset_stream r))"
| "queued (EStopSending f) r = (f \<in> set (rt_stop_sending r))"
| "queued (ENewConnectionId f) r = (NewConnectionId_issued f \<in> set (pnc_cids (rt_new_cids r)))"
| "queued (ERetireConnectionId f) r =
     ((case rcid_path_id f of Some p \<Rightarrow> p | None \<Rightarrow> PathId 0, rcid_sequence f) \<in> set (rt_retire_cids r))"
| "queued (EAddAddress f) r = (f \<in> rt_add_address r)"
| "queued (ERemoveAddress sq) r = (sq \<in> rt_remove_address r)"
| "queued (EMaxData v) r = rt_max_data r"
| "queued (EMaxStreamData i off) r = (i \<in> set (rt_max_stream_data r))"
| "queued (EMaxStreams dir n) r = rt_max_stream_id r dir"
| "queued (EStreamsBlocked dir limit) r = rt_streams_blocked r dir"
| "queued _ r = True"

definition reach_le :: "PendingReachOutFrames \<Rightarrow> PendingReachOutFrames \<Rightarrow> bool" where
  "reach_le p q \<longleftrightarrow> pro_round p \<le> pro_round q \<and>
     (\<forall>f \<in> set (pro_frames p). f \<in> set (pro_frames q) \<or> reach_round f < pro_round q)"

definition rt_le :: "Retransmits \<Rightarrow> Retransmits \<Rightarrow> bool" where
  "rt_le r r' \<longleftrightarrow>
     (rt_max_data r \<longrightarrow> rt_max_data r') \<and> (\<forall>d. rt_max_stream_id r d \<longrightarrow> rt_max_stream_id r' d) \<and>
     (\<forall>d. rt_streams_blocked r d \<longrightarrow> rt_streams_blocked r' d) \<and>
     set (rt_reset_stream r) \<subseteq> set (rt_reset_stream r') \<and> set (rt_stop_sending r) \<subseteq> set (rt_stop_sending r') \<and>
     set (rt_max_stream_data r) \<subseteq> set (rt_max_stream_data r') \<and> set (rt_crypto r) \<subseteq> set (rt_crypto r') \<and>
     set (pnc_cids (rt_new_cids r)) \<subseteq> set (pnc_cids (rt_new_cids r')) \<and>
     set (rt_retire_cids r) \<subseteq> set (rt_retire_cids r') \<and> (rt_ack_frequency r \<longrightarrow> rt_ack_frequency r') \<and>
     (rt_handshake_done r \<longrightarrow> rt_handshake_done r') \<and> (rt_observed_addr r \<longrightarrow> rt_observed_addr r') \<and>
     (rt_max_path_id r \<longrightarrow> rt_max_path_id r') \<and> (rt_paths_blocked r \<longrightarrow> rt_paths_blocked r') \<and>
     set (rt_new_tokens r) \<subseteq> set (rt_new_tokens r') \<and> dom (rt_path_abandon r) \<subseteq> dom (rt_path_abandon r') \<and>
     rt_path_status r \<subseteq> rt_path_status r' \<and> rt_path_cids_blocked r \<subseteq> rt_path_cids_blocked r' \<and>
     rt_add_address r \<subseteq> rt_add_address r' \<and> rt_remove_address r \<subseteq> rt_remove_address r' \<and>
     reach_le (rt_reach_out r) (rt_reach_out r')"

lemma reach_le_refl [simp]: "reach_le p p"
  by (simp add: reach_le_def)

lemma rt_le_refl [simp]: "rt_le r r"
  by (simp add: rt_le_def)

lemma queued_mono:
  assumes "rt_le r r'" and "queued f r"
  shows "queued f r'"
proof (cases f)
  case (EReachOut g)
  then show ?thesis
    using assms unfolding rt_le_def reach_le_def by (metis less_le_trans queued.simps(2))
qed (use assms in \<open>simp_all add: rt_le_def subset_eq\<close>)

lemma set_set_insert [simp]: "set (set_insert x xs) = insert x (set xs)"
  by (auto simp: set_insert_def)

lemma set_fold_set_insert [simp]: "set (fold set_insert ys xs) = set ys \<union> set xs"
  by (induction ys arbitrary: xs) auto

text \<open>The frames pending are those of the current round, as the source documents.\<close>

definition reach_ok :: "PendingReachOutFrames \<Rightarrow> bool" where
  "reach_ok p \<longleftrightarrow> (\<forall>f \<in> set (pro_frames p). reach_round f = pro_round p)"

lemma reach_push:
  assumes "reach_ok p"
  shows "reach_ok (PendingReachOut_push f p)" and "reach_le p (PendingReachOut_push f p)"
    and "f \<in> set (pro_frames (PendingReachOut_push f p)) \<or> reach_round f < pro_round (PendingReachOut_push f p)"
  using assms by (auto simp: reach_ok_def reach_le_def PendingReachOut_push_def Let_def)

lemma reach_append:
  assumes "reach_ok p" and "reach_ok q"
  shows "reach_le p (PendingReachOut_append q p)" and "reach_le q (PendingReachOut_append q p)"
  using assms by (auto simp: reach_ok_def reach_le_def PendingReachOut_append_def Let_def)

lemma record_acked_retransmits: "record_acked p ranges s = Some s' \<Longrightarrow> sfr_retransmits s' = sfr_retransmits s"
  by (auto simp: record_acked_def split: option.splits elim!: bind_Some_elim)

lemma record_sent_frame_le:
  assumes "reach_ok (rt_reach_out (sfr_retransmits s))" and "record_sent_frame f s = Some s'"
  shows "rt_le (sfr_retransmits s) (sfr_retransmits s') \<and> queued f (sfr_retransmits s') \<and>
      reach_ok (rt_reach_out (sfr_retransmits s'))"
  using assms(2)
proof (cases f)
  case (EReachOut g)
  then show ?thesis
    using assms reach_push [OF assms(1)] by (clarsimp simp: rt_le_def sfr_upd_def)
qed (use assms in \<open>clarsimp simp: rt_le_def sfr_upd_def PendingNewCids_push_def subset_insertI
        dest!: record_acked_retransmits split: option.splits\<close>)+

fun record_all :: "EncodableFrame list \<Rightarrow> SentFrames \<Rightarrow> SentFrames option" where
  "record_all [] s = Some s"
| "record_all (f # fs) s = do { s \<leftarrow> record_sent_frame f s; record_all fs s }"

lemma record_all_queued:
  assumes "reach_ok (rt_reach_out (sfr_retransmits s))" and "record_all fs s = Some s'"
  shows "(\<forall>f. queued f (sfr_retransmits s) \<longrightarrow> queued f (sfr_retransmits s')) \<and>
     (\<forall>f \<in> set fs. queued f (sfr_retransmits s')) \<and> reach_ok (rt_reach_out (sfr_retransmits s'))"
  using assms
proof (induction fs arbitrary: s)
  case (Cons f fs)
  then obtain s1 where s1: "record_sent_frame f s = Some s1" "record_all fs s1 = Some s'"
    by (auto elim: bind_Some_elim)
  note step = record_sent_frame_le [OF Cons.prems(1) s1(1)]
  from Cons.IH [OF _ s1(2)] step show ?case
    using queued_mono by auto
qed simp

lemma bitor_le:
  assumes "reach_ok (rt_reach_out r)" and "reach_ok (rt_reach_out rhs)"
  shows "rt_le r (Retransmits_bitor_assign r rhs)" and "rt_le rhs (Retransmits_bitor_assign r rhs)"
  using reach_append [OF assms]
  by (auto simp: rt_le_def Retransmits_bitor_assign_def PendingNewCids_extend_def)

definition frame_meta :: "EncodableFrame \<Rightarrow> StreamMeta option" where
  "frame_meta f = (case f of EStreamMeta m _ \<Rightarrow> Some m | _ \<Rightarrow> None)"

lemma record_stream_frames:
  "record_sent_frame f s = Some s' \<Longrightarrow>
   sfr_stream_frames s' = sfr_stream_frames s @ (case frame_meta f of Some m \<Rightarrow> [m] | None \<Rightarrow> [])"
  by (cases f) (clarsimp simp: sfr_upd_def frame_meta_def record_acked_def split: option.splits
      elim!: bind_Some_elim)+

lemma record_all_stream_frames:
  "record_all fs s = Some s' \<Longrightarrow> sfr_stream_frames s' = sfr_stream_frames s @ List.map_filter frame_meta fs"
proof (induction fs arbitrary: s)
  case (Cons f fs)
  then obtain s1 where "record_sent_frame f s = Some s1" "record_all fs s1 = Some s'"
    by (auto elim: bind_Some_elim)
  then show ?case
    using record_stream_frames [of f s s1] Cons.IH [of s1] by (simp add: map_filter_simps split: option.splits)
qed (simp add: map_filter_simps)

section \<open>Order of new connection ids\<close>

definition pnc_ok :: "PendingNewCids \<Rightarrow> bool" where
  "pnc_ok p \<longleftrightarrow> (pnc_sorted p \<longrightarrow> sorted_wrt (\<lambda>a b. cid_before b a) (pnc_cids p))"

lemma cid_before_total: "cid_before a b \<or> cid_before b a"
  by (auto simp: cid_before_def)

lemma cid_before_trans: "cid_before a b \<Longrightarrow> cid_before b c \<Longrightarrow> cid_before a c"
  by (auto simp: cid_before_def)

lemma mset_cid_insort [simp]: "mset (cid_insort x ys) = add_mset x (mset ys)"
  by (induction ys) auto

lemma set_cid_insort [simp]: "set (cid_insort x ys) = insert x (set ys)"
  by (induction ys) auto

lemma sorted_cid_insort:
  "sorted_wrt (\<lambda>a b. cid_before b a) ys \<Longrightarrow> sorted_wrt (\<lambda>a b. cid_before b a) (cid_insort x ys)"
proof (induction ys)
  case (Cons y ys)
  then show ?case
    using cid_before_total [of x y] cid_before_trans [of _ y x] by auto
qed simp

lemma cid_sort_props: "mset (cid_sort xs) = mset xs" "sorted_wrt (\<lambda>a b. cid_before b a) (cid_sort xs)"
  unfolding cid_sort_def by (induction xs) (auto intro: sorted_cid_insort)

lemma PendingNewCids_ok:
  "pnc_ok PendingNewCids_new" "pnc_ok (PendingNewCids_push c p)" "pnc_ok (PendingNewCids_extend q p)"
  "pnc_ok p \<Longrightarrow> pnc_ok (PendingNewCids_retain f p)"
  by (auto simp: pnc_ok_def PendingNewCids_new_def PendingNewCids_push_def PendingNewCids_extend_def
      PendingNewCids_retain_def sorted_wrt_filter)

section \<open>Properties\<close>



text \<open>
  connection ids are issued in order: \<open>pop\<close> returns the pending id with the lowest path and
  sequence number and keeps the others, whatever was pushed, merged or filtered before.
\<close>

theorem PendingNewCids_pop_min:
  assumes "pnc_ok p"
  shows "case PendingNewCids_pop p of
      (None, p') \<Rightarrow> pnc_cids p = [] \<and> pnc_ok p'
    | (Some c, p') \<Rightarrow> mset (pnc_cids p) = add_mset c (mset (pnc_cids p')) \<and> pnc_ok p' \<and>
        list_all (cid_before c) (pnc_cids p')"
proof -
  define cids where "cids = (if pnc_sorted p then pnc_cids p else cid_sort (pnc_cids p))"
  have cids: "mset cids = mset (pnc_cids p)" "sorted_wrt (\<lambda>a b. cid_before b a) cids"
    using assms cid_sort_props by (auto simp: cids_def pnc_ok_def)
  show ?thesis
  proof (cases cids rule: rev_cases)
    case Nil
    then show ?thesis
      using cids by (auto simp: PendingNewCids_pop_def cids_def [symmetric] pnc_ok_def)
  next
    case (snoc xs c)
    then show ?thesis
      using cids by (auto simp: PendingNewCids_pop_def cids_def [symmetric] pnc_ok_def list_all_iff sorted_wrt_append)
  qed
qed

theorem PendingNewCids_pop_min_witness:
  "(case PendingNewCids_pop (PendingNewCids_push \<lparr>ic_path_id = PathId 0, ic_sequence = 4, ic_id = [], ic_reset_token = []\<rparr>
        PendingNewCids_new) of (None, _) \<Rightarrow> False | (Some c, p') \<Rightarrow> ic_sequence c = 4 \<and> pnc_ok p')"
  using PendingNewCids_pop_min [OF PendingNewCids_ok(2)
      [of "\<lparr>ic_path_id = PathId 0, ic_sequence = 4, ic_id = [], ic_reset_token = []\<rparr>" PendingNewCids_new]]
  by (auto simp: PendingNewCids_push_def PendingNewCids_new_def split: prod.splits option.splits)

end
