(* ===== verification/Frame_Decode.thy ===== *)
theory Frame_Decode
  imports Frame
begin

text \<open>
  The frame decoder of \<open>noq-proto/src/frame.rs\<close>: the \<open>Decodable\<close> implementations, the reading
  of acknowledgement ranges and \<open>Iter\<close>, the iterator over the frames of a payload.
\<close>

section \<open>Parts of frames\<close>

definition take_len :: "byte list parser" where
  "take_len =
     pbind (pget get_varn) (\<lambda>len bytes.
       if len > length bytes then Inl UnexpectedEnd else Inr (take len bytes, drop len bytes))"

definition take_remaining :: "byte list parser" where
  "take_remaining bytes = Inr (bytes, [])"

text \<open>
  \<open>read_ack_blocks\<close>: \<open>n\<close> is the number of gaps still to come.  The counters are below
  \<open>2^62 + 2\<close>, so that none of the additions of the source overflows.
\<close>

fun read_ack_loop :: "nat \<Rightarrow> nat \<Rightarrow> ArrayRangeSet \<Rightarrow> ArrayRangeSet parser" where
  "read_ack_loop n largest out =
     pbind (pget get_varn) (\<lambda>range.
       let range = range + 1 in
       case csub (largest + 1) range of
         None \<Rightarrow> pfail Malformed
       | Some start \<Rightarrow>
           let out = (if range > 0 then snd (ars_insert (start, largest + 1) out) else out) in
           case n of
             0 \<Rightarrow> pret out
           | Suc n \<Rightarrow>
               pbind (pget get_varn) (\<lambda>block_to_block.
                 let block_to_block = block_to_block + 1 + range in
                 case csub largest block_to_block of
                   None \<Rightarrow> pfail Malformed
                 | Some largest \<Rightarrow> read_ack_loop n largest out))"

declare read_ack_loop.simps [simp del]

definition read_ack_blocks :: "nat \<Rightarrow> ArrayRangeSet parser" where
  "read_ack_blocks largest = pbind (pget get_varn) (\<lambda>num_blocks. read_ack_loop num_blocks largest [])"

definition EcnCounts_read :: "EcnCounts parser" where
  "EcnCounts_read =
     pbind (pget get_varn) (\<lambda>e0. pbind (pget get_varn) (\<lambda>e1. pbind (pget get_varn) (\<lambda>c.
       pret \<lparr>ect0 = e0, ect1 = e1, ce = c\<rparr>)))"

text \<open>The acknowledgement frames: the \<open>Ack\<close>, \<open>AckEcn\<close>, \<open>PathAck\<close> and \<open>PathAckEcn\<close> arms.\<close>

definition Ack_read :: "bool \<Rightarrow> Ack parser" where
  "Ack_read ecn =
     pbind (pget get_varn) (\<lambda>largest. pbind (pget get_varn) (\<lambda>delay.
     pbind (read_ack_blocks largest) (\<lambda>ranges.
     pbind (if ecn then pbind EcnCounts_read (\<lambda>x. pret (Some x)) else pret None) (\<lambda>ecn.
       pret \<lparr>ack_largest = largest, ack_delay = delay, ack_ranges = ranges, ack_ecn = ecn\<rparr>))))"

definition PathAck_read :: "bool \<Rightarrow> PathAck parser" where
  "PathAck_read ecn =
     pbind (pget PathId_decode) (\<lambda>path_id.
     pbind (pget get_varn) (\<lambda>largest. pbind (pget get_varn) (\<lambda>delay.
     pbind (read_ack_blocks largest) (\<lambda>ranges.
     pbind (if ecn then pbind EcnCounts_read (\<lambda>x. pret (Some x)) else pret None) (\<lambda>ecn.
       pret \<lparr>pa_path_id = path_id, pa_largest = largest, pa_delay = delay, pa_ranges = ranges, pa_ecn = ecn\<rparr>)))))"

definition RetireConnectionId_decode :: "bool \<Rightarrow> RetireConnectionId parser" where
  "RetireConnectionId_decode read_path =
     pbind (if read_path then pbind (pget PathId_decode) (\<lambda>p. pret (Some p)) else pret None) (\<lambda>path_id.
     pbind (pget get_varn) (\<lambda>sequence.
       pret \<lparr>rcid_path_id = path_id, rcid_sequence = sequence\<rparr>))"

definition NewConnectionId_read :: "bool \<Rightarrow> NewConnectionId parser" where
  "NewConnectionId_read read_path =
     pbind (if read_path then pbind (pget PathId_decode) (\<lambda>p. pret (Some p)) else pret None) (\<lambda>path_id.
     pbind (pget get_varn) (\<lambda>sequence.
     pbind (pget get_varn) (\<lambda>retire_prior_to.
       if retire_prior_to > sequence then pfail Malformed
       else pbind (pget u8_decode) (\<lambda>l.
         let length = unat l in
         if length > MAX_CID_SIZE \<or> length = 0 then pfail Malformed
         else pbind (pget (octets_decode length)) (\<lambda>cid.
              pbind (pget (octets_decode RESET_TOKEN_SIZE)) (\<lambda>reset_token.
                pret \<lparr>ncid_path_id = path_id, ncid_sequence = sequence, ncid_retire_prior_to = retire_prior_to,
                      ncid_id = cid, ncid_reset_token = reset_token\<rparr>))))))"

text \<open>\<open>ObservedAddr\<close>, \<open>AddAddress\<close> and \<open>ReachOut\<close> are read in the same way.\<close>

definition AddrFrame_read :: "bool \<Rightarrow> AddrFrame parser" where
  "AddrFrame_read ipv6 =
     pbind (pget VarInt_decode) (\<lambda>seq_no.
     pbind (if ipv6 then pbind (pget Ipv6Addr_decode) (\<lambda>a. pret (V6 a))
            else pbind (pget Ipv4Addr_decode) (\<lambda>a. pret (V4 a))) (\<lambda>ip.
     pbind (pget u16_decode) (\<lambda>port.
       pret \<lparr>addr_seq_no = seq_no, addr_ip = ip, addr_port = port\<rparr>)))"

section \<open>One frame\<close>

fun Frame_read :: "FrameType \<Rightarrow> Frame parser" where
  "Frame_read FT_Padding = pret Padding"
| "Frame_read FT_ResetStream =
     pbind (pget StreamId_decode) (\<lambda>i. pbind (pget VarInt_decode) (\<lambda>error_code.
     pbind (pget VarInt_decode) (\<lambda>final_offset.
       pret (FResetStream \<lparr>rs_id = i, rs_error_code = error_code, rs_final_offset = final_offset\<rparr>))))"
| "Frame_read FT_ConnectionClose =
     pbind (pget get_varn) (\<lambda>error_code. pbind (pget MaybeFrame_decode) (\<lambda>frame_type.
     pbind take_len (\<lambda>reason. pret (FClose (ConnectionClose error_code frame_type reason)))))"
| "Frame_read FT_ApplicationClose =
     pbind (pget VarInt_decode) (\<lambda>error_code.
     pbind take_len (\<lambda>reason. pret (FClose (ApplicationClose error_code reason))))"
| "Frame_read FT_MaxData = pbind (pget VarInt_decode) (\<lambda>v. pret (MaxData v))"
| "Frame_read FT_MaxStreamData =
     pbind (pget StreamId_decode) (\<lambda>i. pbind (pget get_varn) (\<lambda>off. pret (MaxStreamData i off)))"
| "Frame_read FT_MaxStreamsBidi = pbind (pget get_varn) (\<lambda>count. pret (MaxStreams Bi count))"
| "Frame_read FT_MaxStreamsUni = pbind (pget get_varn) (\<lambda>count. pret (MaxStreams Uni count))"
| "Frame_read FT_Ping = pret Ping"
| "Frame_read FT_DataBlocked = pbind (pget get_varn) (\<lambda>off. pret (DataBlocked off))"
| "Frame_read FT_StreamDataBlocked =
     pbind (pget StreamId_decode) (\<lambda>i. pbind (pget get_varn) (\<lambda>off. pret (StreamDataBlocked i off)))"
| "Frame_read FT_StreamsBlockedBidi = pbind (pget get_varn) (\<lambda>limit. pret (StreamsBlocked Bi limit))"
| "Frame_read FT_StreamsBlockedUni = pbind (pget get_varn) (\<lambda>limit. pret (StreamsBlocked Uni limit))"
| "Frame_read FT_StopSending =
     pbind (pget StreamId_decode) (\<lambda>i. pbind (pget VarInt_decode) (\<lambda>error_code.
       pret (FStopSending \<lparr>ss_id = i, ss_error_code = error_code\<rparr>)))"
| "Frame_read FT_RetireConnectionId =
     pbind (RetireConnectionId_decode False) (\<lambda>f. pret (FRetireConnectionId f))"
| "Frame_read FT_PathRetireConnectionId =
     pbind (RetireConnectionId_decode True) (\<lambda>f. pret (FRetireConnectionId f))"
| "Frame_read FT_Ack = pbind (Ack_read False) (\<lambda>a. pret (FAck a))"
| "Frame_read FT_AckEcn = pbind (Ack_read True) (\<lambda>a. pret (FAck a))"
| "Frame_read FT_PathAck = pbind (PathAck_read False) (\<lambda>a. pret (FPathAck a))"
| "Frame_read FT_PathAckEcn = pbind (PathAck_read True) (\<lambda>a. pret (FPathAck a))"
| "Frame_read FT_PathChallenge = pbind (pget u64_decode) (\<lambda>x. pret (PathChallenge x))"
| "Frame_read FT_PathResponse = pbind (pget u64_decode) (\<lambda>x. pret (PathResponse x))"
| "Frame_read FT_NewConnectionId = pbind (NewConnectionId_read False) (\<lambda>f. pret (FNewConnectionId f))"
| "Frame_read FT_PathNewConnectionId = pbind (NewConnectionId_read True) (\<lambda>f. pret (FNewConnectionId f))"
| "Frame_read FT_Crypto = pbind (pget get_varn) (\<lambda>off. pbind take_len (\<lambda>data. pret (Crypto off data)))"
| "Frame_read FT_NewToken = pbind take_len (\<lambda>token. pret (NewToken token))"
| "Frame_read FT_HandshakeDone = pret HandshakeDone"
| "Frame_read FT_AckFrequency =
     pbind (pget VarInt_decode) (\<lambda>sequence. pbind (pget VarInt_decode) (\<lambda>threshold.
     pbind (pget VarInt_decode) (\<lambda>delay. pbind (pget VarInt_decode) (\<lambda>reordering.
       pret (FAckFrequency \<lparr>af_sequence = sequence, af_ack_eliciting_threshold = threshold,
         af_request_max_ack_delay = delay, af_reordering_threshold = reordering\<rparr>)))))"
| "Frame_read FT_ImmediateAck = pret ImmediateAck"
| "Frame_read FT_ObservedIpv4Addr = pbind (AddrFrame_read False) (\<lambda>f. pret (ObservedAddr f))"
| "Frame_read FT_ObservedIpv6Addr = pbind (AddrFrame_read True) (\<lambda>f. pret (ObservedAddr f))"
| "Frame_read FT_PathAbandon =
     pbind (pget PathId_decode) (\<lambda>p. pbind (pget get_varn) (\<lambda>code. pret (PathAbandon p code)))"
| "Frame_read FT_PathStatusAvailable =
     pbind (pget PathId_decode) (\<lambda>p. pbind (pget VarInt_decode) (\<lambda>seq. pret (PathStatusAvailable p seq)))"
| "Frame_read FT_PathStatusBackup =
     pbind (pget PathId_decode) (\<lambda>p. pbind (pget VarInt_decode) (\<lambda>seq. pret (PathStatusBackup p seq)))"
| "Frame_read FT_MaxPathId = pbind (pget PathId_decode) (\<lambda>p. pret (MaxPathId p))"
| "Frame_read FT_PathsBlocked = pbind (pget PathId_decode) (\<lambda>p. pret (PathsBlocked p))"
| "Frame_read FT_PathCidsBlocked =
     pbind (pget PathId_decode) (\<lambda>p. pbind (pget VarInt_decode) (\<lambda>seq. pret (PathCidsBlocked p seq)))"
| "Frame_read FT_AddIpv4Address = pbind (AddrFrame_read False) (\<lambda>f. pret (AddAddress f))"
| "Frame_read FT_AddIpv6Address = pbind (AddrFrame_read True) (\<lambda>f. pret (AddAddress f))"
| "Frame_read FT_ReachOutAtIpv4 = pbind (AddrFrame_read False) (\<lambda>f. pret (ReachOut f))"
| "Frame_read FT_ReachOutAtIpv6 = pbind (AddrFrame_read True) (\<lambda>f. pret (ReachOut f))"
| "Frame_read FT_RemoveAddress = pbind (pget VarInt_decode) (\<lambda>seq_no. pret (RemoveAddress seq_no))"
| "Frame_read (FT_Stream s) =
     pbind (pget StreamId_decode) (\<lambda>i.
     pbind (if StreamInfo_off s then pget get_varn else pret 0) (\<lambda>off.
     pbind (if StreamInfo_len s then take_len else take_remaining) (\<lambda>data.
       pret (Stream \<lparr>sf_id = i, sf_offset = off, sf_fin = StreamInfo_fin s, sf_data = data\<rparr>))))"
| "Frame_read (FT_Datagram d) =
     pbind (if DatagramInfo_len d then take_len else take_remaining) (\<lambda>data. pret (Datagram data))"

section \<open>The frames of a payload\<close>

record Iter =
  it_bytes :: "byte list"
  it_last_ty :: MaybeFrame

record InvalidFrame =
  if_ty :: MaybeFrame
  if_reason :: IterErr

definition Iter_new :: "byte list \<Rightarrow> TransportError + Iter" where
  "Iter_new payload =
     (if payload = [] then Inl PROTOCOL_VIOLATION else Inr \<lparr>it_bytes = payload, it_last_ty = MF_None\<rparr>)"

definition MaybeFrame_read :: "MaybeFrame \<Rightarrow> Frame parser" where
  "MaybeFrame_read last_ty =
     (case last_ty of
        MF_None \<Rightarrow> Frame_read FT_Padding
      | MF_Unknown _ \<Rightarrow> pfail InvalidFrameId
      | MF_Known ty \<Rightarrow> Frame_read ty)"

definition Iter_try_next :: "Iter \<Rightarrow> (IterErr + Frame) \<times> Iter" where
  "Iter_try_next it =
     (case pget MaybeFrame_decode (it_bytes it) of
        Inl e \<Rightarrow> (Inl e, it)
      | Inr (ty, bytes) \<Rightarrow>
          let it = it\<lparr>it_last_ty := ty, it_bytes := bytes\<rparr> in
          case MaybeFrame_read ty bytes of
            Inl e \<Rightarrow> (Inl e, it)
          | Inr (frame, bytes) \<Rightarrow> (Inr frame, it\<lparr>it_bytes := bytes\<rparr>))"

text \<open>A frame that does not decode ends the iteration: everything behind it is dropped.\<close>

definition Iter_next :: "Iter \<Rightarrow> (InvalidFrame + Frame) option \<times> Iter" where
  "Iter_next it =
     (if it_bytes it = [] then (None, it)
      else case Iter_try_next it of
        (Inr x, it) \<Rightarrow> (Some (Inr x), it)
      | (Inl e, it) \<Rightarrow> (Some (Inl \<lparr>if_ty = it_last_ty it, if_reason = e\<rparr>), it\<lparr>it_bytes := []\<rparr>))"

definition InvalidFrame_into :: "InvalidFrame \<Rightarrow> TransportError" where
  "InvalidFrame_into err = FRAME_ENCODING_ERROR"

end
