(* ===== verification/Frame_Codec.thy ===== *)
theory Frame_Codec
  imports Frame_Encode Frame_Decode
begin

text \<open>
  Correctness of the frame codec: what is encoded decodes to itself, decoded frames are
  well-formed, and the iterator makes progress.
\<close>

section \<open>Well-formed frames\<close>

definition EcnCounts_ok :: "EcnCounts \<Rightarrow> bool" where
  "EcnCounts_ok x \<longleftrightarrow> ect0 x < 2 ^ 62 \<and> ect1 x < 2 ^ 62 \<and> ce x < 2 ^ 62"

text \<open>Acknowledged ranges: in canonical form, not empty, the largest packet number encodable.\<close>

definition ack_ranges_ok :: "nat \<Rightarrow> ArrayRangeSet \<Rightarrow> bool" where
  "ack_ranges_ok largest s \<longleftrightarrow> ars_inv s \<and> s \<noteq> [] \<and> snd (last s) = largest + 1 \<and> largest < 2 ^ 62"

fun IpAddr_ok :: "IpAddr \<Rightarrow> bool" where
  "IpAddr_ok (V4 a) = (length a = 4)"
| "IpAddr_ok (V6 a) = (length a = 16)"

definition AddrFrame_ok :: "AddrFrame \<Rightarrow> bool" where
  "AddrFrame_ok f \<longleftrightarrow> VarInt_ok (addr_seq_no f) \<and> IpAddr_ok (addr_ip f)"

fun Close_ok :: "Close \<Rightarrow> bool" where
  "Close_ok (ConnectionClose code ty reason) = (code < 2 ^ 62 \<and> MaybeFrame_ok ty)"
| "Close_ok (ApplicationClose code reason) = VarInt_ok code"

fun Frame_ok :: "Frame \<Rightarrow> bool" where
  "Frame_ok (FAck a) = (ack_ranges_ok (ack_largest a) (ack_ranges a) \<and> ack_delay a < 2 ^ 62 \<and>
     pred_option EcnCounts_ok (ack_ecn a))"
| "Frame_ok (FPathAck a) = (PathId_ok (pa_path_id a) \<and> ack_ranges_ok (pa_largest a) (pa_ranges a) \<and>
     pa_delay a < 2 ^ 62 \<and> pred_option EcnCounts_ok (pa_ecn a))"
| "Frame_ok (FResetStream f) = (sid (rs_id f) < 2 ^ 62 \<and> VarInt_ok (rs_error_code f) \<and> VarInt_ok (rs_final_offset f))"
| "Frame_ok (FStopSending f) = (sid (ss_id f) < 2 ^ 62 \<and> VarInt_ok (ss_error_code f))"
| "Frame_ok (Crypto off data) = (off < 2 ^ 62)"
| "Frame_ok (Stream f) = (sid (sf_id f) < 2 ^ 62 \<and> sf_offset f < 2 ^ 62)"
| "Frame_ok (MaxData v) = VarInt_ok v"
| "Frame_ok (MaxStreamData i off) = (sid i < 2 ^ 62 \<and> off < 2 ^ 62)"
| "Frame_ok (MaxStreams dir count) = (count < 2 ^ 62)"
| "Frame_ok (DataBlocked off) = (off < 2 ^ 62)"
| "Frame_ok (StreamDataBlocked i off) = (sid i < 2 ^ 62 \<and> off < 2 ^ 62)"
| "Frame_ok (StreamsBlocked dir limit) = (limit < 2 ^ 62)"
| "Frame_ok (FNewConnectionId f) = (pred_option PathId_ok (ncid_path_id f) \<and> ncid_sequence f < 2 ^ 62 \<and>
     ncid_retire_prior_to f \<le> ncid_sequence f \<and> 1 \<le> length (ncid_id f) \<and> length (ncid_id f) \<le> MAX_CID_SIZE \<and>
     length (ncid_reset_token f) = RESET_TOKEN_SIZE)"
| "Frame_ok (FRetireConnectionId f) = (pred_option PathId_ok (rcid_path_id f) \<and> rcid_sequence f < 2 ^ 62)"
| "Frame_ok (FClose c) = Close_ok c"
| "Frame_ok (FAckFrequency f) = (VarInt_ok (af_sequence f) \<and> VarInt_ok (af_ack_eliciting_threshold f) \<and>
     VarInt_ok (af_request_max_ack_delay f) \<and> VarInt_ok (af_reordering_threshold f))"
| "Frame_ok (ObservedAddr f) = AddrFrame_ok f"
| "Frame_ok (PathAbandon p code) = (PathId_ok p \<and> code < 2 ^ 62)"
| "Frame_ok (PathStatusAvailable p seq) = (PathId_ok p \<and> VarInt_ok seq)"
| "Frame_ok (PathStatusBackup p seq) = (PathId_ok p \<and> VarInt_ok seq)"
| "Frame_ok (MaxPathId p) = PathId_ok p"
| "Frame_ok (PathsBlocked p) = PathId_ok p"
| "Frame_ok (PathCidsBlocked p seq) = (PathId_ok p \<and> VarInt_ok seq)"
| "Frame_ok (AddAddress f) = AddrFrame_ok f"
| "Frame_ok (ReachOut f) = AddrFrame_ok f"
| "Frame_ok (RemoveAddress seq) = VarInt_ok seq"
| "Frame_ok _ = True"

section \<open>Decoded frames are well-formed\<close>

text \<open>Ranges are read from the highest to the lowest, so that each goes in front of the others.\<close>

lemma ars_insert_front:
  "fst x < snd x \<Longrightarrow> \<forall>r \<in> set out. snd x < fst r \<Longrightarrow> snd (ars_insert x out) = x # out"
  by (cases out) (auto simp: ars_insert_def range_is_empty_def)

lemma yields_ack_loop:
  assumes "ars_inv out" and "\<forall>r \<in> set out. largest + 1 < fst r"
  shows "yields (read_ack_loop n largest out)
     (\<lambda>s. ars_inv s \<and> (\<exists>ps start. s = ps @ (start, largest + 1) # out))"
  using assms
proof (induction n arbitrary: largest out)
  case 0
  show ?case
    unfolding read_ack_loop.simps [of 0]
    using 0 by (auto simp: Let_def ars_insert_front csub_def intro!: yields_bind [OF yields_varn] yields_ret yields_fail)
next
  case (Suc n)
  show ?case
    unfolding read_ack_loop.simps [of "Suc n"]
  proof (intro yields_bind [OF yields_varn], goal_cases)
    case (1 range)
    have step: "yields (read_ack_loop n (largest - Suc (Suc (x + range))) ((largest - range, Suc largest) # out))
        (\<lambda>s. ars_inv s \<and> (\<exists>ps start. s = ps @ (start, Suc largest) # out))"
      if "Suc (Suc (x + range)) \<le> largest" for x
    proof -
      define l where "l = largest - Suc (Suc (x + range))"
      have "yields (read_ack_loop n l ((largest - range, Suc largest) # out))
          (\<lambda>s. ars_inv s \<and> (\<exists>ps st. s = ps @ (st, l + 1) # (largest - range, Suc largest) # out))"
        using that Suc.prems by (intro Suc.IH) (auto simp: l_def)
      then show ?thesis
        unfolding yields_def l_def by (metis append.assoc append_Cons append_Nil)
    qed
    show ?case
      using Suc.prems 1
      by (auto simp: Let_def csub_def ars_insert_front intro!: yields_bind [OF yields_varn] yields_fail step)
  qed
qed

lemma yields_ack_blocks: "largest < 2 ^ 62 \<Longrightarrow> yields (read_ack_blocks largest) (ack_ranges_ok largest)"
  unfolding read_ack_blocks_def
proof (intro yields_bind [OF yields_varn])
  fix n
  assume "largest < 2 ^ 62"
  then show "yields (read_ack_loop n largest []) (ack_ranges_ok largest)"
    using yields_ack_loop [of "[]" largest n] unfolding yields_def ack_ranges_ok_def by fastforce
qed

lemma yields_take_len: "yields take_len (\<lambda>_. True)"
  unfolding take_len_def by (intro yields_bind [OF yields_varn]) (auto simp: yields_def)

lemma yields_take_remaining: "yields take_remaining (\<lambda>_. True)"
  by (simp add: yields_def take_remaining_def)

lemma yields_EcnCounts: "yields EcnCounts_read EcnCounts_ok"
  unfolding EcnCounts_read_def
  by (intro yields_bind [OF yields_varn] yields_ret) (simp add: EcnCounts_ok_def)

text \<open>A part that is read when a flag is set.\<close>

lemma yields_optional: "yields p P \<Longrightarrow> yields (if b then pbind p (\<lambda>x. pret (Some x)) else pret None) (pred_option P)"
  by (cases b) (auto intro!: yields_ret elim!: yields_bind)

lemma yields_octets: "yields (pget (octets_decode k)) (\<lambda>a. length a = k)"
  by (intro yields_pget) (auto simp: octets_decode_def split: if_splits)

lemma yields_IpAddr:
  "yields (if ipv6 then pbind (pget Ipv6Addr_decode) (\<lambda>a. pret (V6 a)) else pbind (pget Ipv4Addr_decode) (\<lambda>a. pret (V4 a)))
     IpAddr_ok"
  unfolding Ipv6Addr_decode_def Ipv4Addr_decode_def
  by (cases ipv6) (auto intro!: yields_bind [OF yields_octets] yields_ret)

lemmas yields_u8 = yields_codec [OF u8.codec_axioms]
lemmas yields_u16 = yields_codec [OF u16.codec_axioms]
lemmas yields_u64 = yields_codec [OF u64.codec_axioms]

lemmas yields_parts =
  yields_ret yields_bind [OF yields_varn] yields_bind [OF yields_VarInt] yields_bind [OF yields_StreamId]
  yields_bind [OF yields_PathId] yields_bind [OF yields_MaybeFrame] yields_bind [OF yields_take_len]
  yields_bind [OF yields_take_remaining] yields_bind [OF yields_u64] yields_bind [OF yields_u16]
  yields_bind [OF yields_u8] yields_bind [OF yields_optional [OF yields_PathId]]
  yields_bind [OF yields_optional [OF yields_EcnCounts]] yields_bind [OF yields_ack_blocks]
  yields_bind [OF yields_octets] yields_bind [OF yields_IpAddr]

lemma yields_Ack: "yields (Ack_read ecn) (\<lambda>a. Frame_ok (FAck a))"
  unfolding Ack_read_def by (intro yields_parts) simp_all

lemma yields_PathAck: "yields (PathAck_read ecn) (\<lambda>a. Frame_ok (FPathAck a))"
  unfolding PathAck_read_def by (intro yields_parts) simp_all

lemma yields_RetireConnectionId: "yields (RetireConnectionId_decode b) (\<lambda>f. Frame_ok (FRetireConnectionId f))"
  unfolding RetireConnectionId_decode_def by (intro yields_parts) simp_all

lemma yields_NewConnectionId: "yields (NewConnectionId_read b) (\<lambda>f. Frame_ok (FNewConnectionId f))"
  unfolding NewConnectionId_read_def Let_def by (intro yields_parts yields_if yields_fail) simp_all

lemma yields_AddrFrame: "yields (AddrFrame_read b) AddrFrame_ok"
  unfolding AddrFrame_read_def by (intro yields_parts) (simp add: AddrFrame_ok_def)

lemma pbind_pret: "pbind (pret x) f = f x"
  by (rule ext) (simp add: pbind_def pret_def)

lemma yields_Frame_read: "yields (Frame_read t) Frame_ok"
proof -
  have simple: "yields (pbind p (\<lambda>x. pret (c x))) Frame_ok" if "yields p (\<lambda>x. Frame_ok (c x))" for p :: "'a parser" and c
    using that by (auto intro: yields_bind yields_ret)
  note special = simple [OF yields_Ack] simple [OF yields_PathAck] simple [OF yields_RetireConnectionId]
    simple [OF yields_NewConnectionId] yields_bind [OF yields_AddrFrame]
  show ?thesis
    by (cases t; simp only: Frame_read.simps; (intro special)?; (intro yields_parts)?;
        (auto simp: pbind_pret intro!: yields_parts)?)
qed

definition frame_parser :: "Frame parser" where
  "frame_parser = pbind (pget MaybeFrame_decode) MaybeFrame_read"

lemma yields_frame: "yields frame_parser Frame_ok"
  unfolding frame_parser_def
  by (intro yields_bind [OF yields_MaybeFrame])
     (auto simp: MaybeFrame_read_def intro: yields_Frame_read yields_fail simp del: Frame_read.simps split: MaybeFrame.splits)

section \<open>Encoded frames decode to themselves\<close>

declare writes.simps [simp del]

lemma writes_append: "writes (xs @ ys) = writes (writes xs # ys)"
  by (cases "writes ys"; induction xs) (auto simp: writes.simps split: option.splits)

lemma encp_frame:
  assumes "FrameType_ok t" and "t \<noteq> FT_Padding" and "encp (writes ws) (Frame_read t) f"
  shows "encp (writes (FrameType_encode t # ws)) frame_parser f"
  unfolding frame_parser_def
  using encp_bind [OF encp_FrameType [OF assms(1,2)], of ws MaybeFrame_read f] assms(3)
  by (simp add: MaybeFrame_read_def)

lemma encp_frame_only:
  assumes "FrameType_ok t" and "t \<noteq> FT_Padding" and "Frame_read t = pret f"
  shows "encp (FrameType_encode t) frame_parser f"
proof -
  have "encp (writes [FrameType_encode t]) frame_parser f"
    using assms by (intro encp_frame) (simp_all add: encp_ret)
  then show ?thesis
    by (simp add: writes.simps encp_def split: option.splits)
qed

lemma encp_take_len:
  assumes "length d < 2 ^ 62" and "encp (writes ws) (f d) y"
  shows "encp (writes (write_varn (length d) # Some (put_slice d) # ws)) (pbind take_len f) y"
proof -
  obtain l where l: "write_varn (length d) = Some l" "\<forall>rest. get_varn (l @ rest) = Some (length d, rest)"
    using varn_codec [OF assms(1)] by blast
  then show ?thesis
    using assms(2)
    by (auto simp: encp_def parses_def pbind_def take_len_def pget_def writes.simps put_slice_def)
qed

lemmas encp_parts = encp_ret encp_bind encp_VarInt encp_varn encp_StreamId encp_PathId encp_MaybeFrame
  encp_u64 encp_u16

lemma encp_simple:
  "encp HandshakeDone_encode frame_parser HandshakeDone"
  "encp Ping_encode frame_parser Ping"
  "encp ImmediateAck_encode frame_parser ImmediateAck"
  unfolding HandshakeDone_encode_def Ping_encode_def ImmediateAck_encode_def
  by (rule encp_frame_only; simp)+

lemma encp_PathChallenge: "encp (PathChallenge_encode x) frame_parser (PathChallenge x)"
  unfolding PathChallenge_encode_def
  by ((rule encp_frame; (simp; fail)?), simp only: Frame_read.simps, (rule encp_parts | (simp; fail))+)

lemma encp_PathResponse: "encp (PathResponse_encode x) frame_parser (PathResponse x)"
  unfolding PathResponse_encode_def
  by ((rule encp_frame; (simp; fail)?), simp only: Frame_read.simps, (rule encp_parts | (simp; fail))+)

lemma encp_DataBlocked: "Frame_ok (DataBlocked off) \<Longrightarrow> encp (DataBlocked_encode off) frame_parser (DataBlocked off)"
  unfolding DataBlocked_encode_def
  by ((rule encp_frame; (simp; fail)?), simp only: Frame_read.simps, (rule encp_parts | (simp; fail))+)

lemma encp_StreamDataBlocked: "Frame_ok (StreamDataBlocked i off) \<Longrightarrow> encp (StreamDataBlocked_encode i off) frame_parser (StreamDataBlocked i off)"
  unfolding StreamDataBlocked_encode_def
  by ((rule encp_frame; (simp; fail)?), simp only: Frame_read.simps, (rule encp_parts | (simp; fail))+)

lemma encp_MaxData: "Frame_ok (MaxData v) \<Longrightarrow> encp (MaxData_encode v) frame_parser (MaxData v)"
  unfolding MaxData_encode_def
  by ((rule encp_frame; (simp; fail)?), simp only: Frame_read.simps, (rule encp_parts | (simp; fail))+)

lemma encp_MaxStreamData: "Frame_ok (MaxStreamData i off) \<Longrightarrow> encp (MaxStreamData_encode i off) frame_parser (MaxStreamData i off)"
  unfolding MaxStreamData_encode_def
  by ((rule encp_frame; (simp; fail)?), simp only: Frame_read.simps, (rule encp_parts | (simp; fail))+)

lemma encp_MaxPathId: "Frame_ok (MaxPathId p) \<Longrightarrow> encp (MaxPathId_encode p) frame_parser (MaxPathId p)"
  unfolding MaxPathId_encode_def
  by ((rule encp_frame; (simp; fail)?), simp only: Frame_read.simps, (rule encp_parts | (simp; fail))+)

lemma encp_PathsBlocked: "Frame_ok (PathsBlocked p) \<Longrightarrow> encp (PathsBlocked_encode p) frame_parser (PathsBlocked p)"
  unfolding PathsBlocked_encode_def
  by ((rule encp_frame; (simp; fail)?), simp only: Frame_read.simps, (rule encp_parts | (simp; fail))+)

lemma encp_PathCidsBlocked: "Frame_ok (PathCidsBlocked p sq) \<Longrightarrow> encp (PathCidsBlocked_encode p sq) frame_parser (PathCidsBlocked p sq)"
  unfolding PathCidsBlocked_encode_def
  by ((rule encp_frame; (simp; fail)?), simp only: Frame_read.simps, (rule encp_parts | (simp; fail))+)

lemma encp_PathAbandon: "Frame_ok (PathAbandon p c) \<Longrightarrow> encp (PathAbandon_encode p c) frame_parser (PathAbandon p c)"
  unfolding PathAbandon_encode_def
  by ((rule encp_frame; (simp; fail)?), simp only: Frame_read.simps, (rule encp_parts | (simp; fail))+)

lemma encp_PathStatusAvailable: "Frame_ok (PathStatusAvailable p sq) \<Longrightarrow> encp (PathStatusAvailable_encode p sq) frame_parser (PathStatusAvailable p sq)"
  unfolding PathStatusAvailable_encode_def
  by ((rule encp_frame; (simp; fail)?), simp only: Frame_read.simps, (rule encp_parts | (simp; fail))+)

lemma encp_PathStatusBackup: "Frame_ok (PathStatusBackup p sq) \<Longrightarrow> encp (PathStatusBackup_encode p sq) frame_parser (PathStatusBackup p sq)"
  unfolding PathStatusBackup_encode_def
  by ((rule encp_frame; (simp; fail)?), simp only: Frame_read.simps, (rule encp_parts | (simp; fail))+)

lemma encp_RemoveAddress: "Frame_ok (RemoveAddress sq) \<Longrightarrow> encp (RemoveAddress_encode sq) frame_parser (RemoveAddress sq)"
  unfolding RemoveAddress_encode_def
  by ((rule encp_frame; (simp; fail)?), simp only: Frame_read.simps, (rule encp_parts | (simp; fail))+)

text \<open>Records are rebuilt from their fields.\<close>

lemma encp_ret_eq: "x = y \<Longrightarrow> encp (writes []) (pret x) y"
  by (simp add: encp_ret)

lemma encp_ResetStream: "Frame_ok (FResetStream f) \<Longrightarrow> encp (ResetStream_encode f) frame_parser (FResetStream f)"
  unfolding ResetStream_encode_def
  by ((rule encp_frame; (simp; fail)?), simp only: Frame_read.simps, (rule encp_parts encp_ret_eq | (simp; fail))+)

lemma encp_StopSending: "Frame_ok (FStopSending f) \<Longrightarrow> encp (StopSending_encode f) frame_parser (FStopSending f)"
  unfolding StopSending_encode_def
  by ((rule encp_frame; (simp; fail)?), simp only: Frame_read.simps, (rule encp_parts encp_ret_eq | (simp; fail))+)

lemma encp_AckFrequency: "Frame_ok (FAckFrequency f) \<Longrightarrow> encp (AckFrequency_encode f) frame_parser (FAckFrequency f)"
  unfolding AckFrequency_encode_def
  by ((rule encp_frame; (simp; fail)?), simp only: Frame_read.simps, (rule encp_parts encp_ret_eq | (simp; fail))+)

lemma encp_Crypto: "off < 2 ^ 62 \<Longrightarrow> length d < 2 ^ 62 \<Longrightarrow> encp (Crypto_encode off d) frame_parser (Crypto off d)"
  unfolding Crypto_encode_def
  by ((rule encp_frame; (simp; fail)?), simp only: Frame_read.simps, (rule encp_take_len encp_parts | (simp; fail))+)

lemma encp_NewToken: "length d < 2 ^ 62 \<Longrightarrow> encp (NewToken_encode d) frame_parser (NewToken d)"
  unfolding NewToken_encode_def
  by ((rule encp_frame; (simp; fail)?), simp only: Frame_read.simps, (rule encp_take_len encp_parts | (simp; fail))+)

lemma encp_StreamsBlocked:
  "limit < 2 ^ 62 \<Longrightarrow> encp (StreamsBlocked_encode dir limit) frame_parser (StreamsBlocked dir limit)"
  unfolding StreamsBlocked_encode_def StreamsBlocked_get_type_def
  by (cases dir; simp only: Dir.case, (rule encp_frame; (simp; fail)?), simp only: Frame_read.simps,
      (rule encp_parts | (simp; fail))+)

lemma encp_MaxStreams:
  "count < 2 ^ 62 \<Longrightarrow> encp (MaxStreams_encode dir count) frame_parser (MaxStreams dir count)"
  unfolding MaxStreams_encode_def MaxStreams_get_type_def
  by (cases dir; simp only: Dir.case, (rule encp_frame; (simp; fail)?), simp only: Frame_read.simps,
      (rule encp_parts | (simp; fail))+)

lemma encp_Datagram: "length d < 2 ^ 62 \<Longrightarrow> encp (Datagram_encode d) frame_parser (Datagram d)"
  unfolding Datagram_encode_def
  by ((rule encp_frame; (simp add: DatagramInfo_VALUES_def; fail)?), simp only: Frame_read.simps,
      simp del: writes.simps, (rule encp_take_len encp_parts | (simp; fail))+)

lemma pbind_assoc: "pbind (pbind p f) g = pbind p (\<lambda>x. pbind (f x) g)"
  by (rule ext) (auto simp: pbind_def split: sum.splits)

lemma pbind_assoc_pret: "pbind (pbind p (\<lambda>x. pret (g x))) f = pbind p (\<lambda>x. f (g x))"
  by (rule ext) (auto simp: pbind_def pret_def split: sum.splits)

lemma encp_optional_path:
  assumes "pred_option PathId_ok o'" and "encp (writes ws) (f o') y"
  shows "encp (writes ((case o' of Some p \<Rightarrow> [PathId_encode p] | None \<Rightarrow> []) @ ws))
     (pbind (if o' \<noteq> None then pbind (pget PathId_decode) (\<lambda>p. pret (Some p)) else pret None) f) y"
  using assms by (cases o') (auto simp: pbind_pret pbind_assoc_pret intro: encp_bind encp_PathId)

lemma encp_RetireConnectionId:
  assumes "Frame_ok (FRetireConnectionId f)"
  shows "encp (RetireConnectionId_encode f) frame_parser (FRetireConnectionId f)"
proof -
  have "encp (writes ((case rcid_path_id f of Some p \<Rightarrow> [PathId_encode p] | None \<Rightarrow> []) @ [write_varn (rcid_sequence f)]))
      (pbind (RetireConnectionId_decode (rcid_path_id f \<noteq> None)) (\<lambda>f. pret (FRetireConnectionId f))) (FRetireConnectionId f)"
    unfolding RetireConnectionId_decode_def
    by (insert assms, simp only: pbind_assoc pbind_pret, rule encp_optional_path, simp, (rule encp_parts encp_ret_eq | (simp; fail))+)
  then show ?thesis
    unfolding RetireConnectionId_encode_def RetireConnectionId_get_type_def
    by (cases "rcid_path_id f = None") (auto intro: encp_frame)
qed

lemma encp_octets: "length d = k \<Longrightarrow> encp (Some (put_slice d)) (pget (octets_decode k)) d"
  by (intro encp_pget) (simp add: put_slice_def octets_decode_def)

lemma encp_NewConnectionId:
  assumes ok: "Frame_ok (FNewConnectionId f)"
  shows "encp (NewConnectionId_encode f) frame_parser (FNewConnectionId f)"
proof -
  have len: "unat (of_nat (length (ncid_id f)) :: byte) = length (ncid_id f)"
    using ok by (simp add: MAX_CID_SIZE_def unat_of_nat)
  have bounds: "\<not> ncid_retire_prior_to f > ncid_sequence f"
    "\<not> (length (ncid_id f) > MAX_CID_SIZE \<or> length (ncid_id f) = 0)"
    using ok by auto
  have "encp (writes ((case ncid_path_id f of Some p \<Rightarrow> [PathId_encode p] | None \<Rightarrow> [])
        @ [write_varn (ncid_sequence f), write_varn (ncid_retire_prior_to f),
          Some (put_u8 (of_nat (length (ncid_id f)))), Some (put_slice (ncid_id f)),
          Some (put_slice (ncid_reset_token f))]))
      (pbind (NewConnectionId_read (ncid_path_id f \<noteq> None)) (\<lambda>f. pret (FNewConnectionId f))) (FNewConnectionId f)"
    unfolding NewConnectionId_read_def Let_def
    apply (insert ok)
    apply (simp only: pbind_assoc pbind_pret)
    apply (rule encp_optional_path)
    apply simp
    apply (rule encp_bind [OF encp_varn])
    apply simp
    apply (rule encp_bind [OF encp_varn])
    apply simp
    apply (simp only: bounds if_False)
    apply (simp only: pbind_assoc pbind_pret)
    apply (rule encp_bind [OF encp_u8])
    apply simp
    apply (simp only: len bounds if_False)
    apply (simp only: pbind_assoc pbind_pret)
    apply (rule encp_octets encp_parts encp_ret_eq | (simp; fail))+
    done
  then show ?thesis
    unfolding NewConnectionId_encode_def NewConnectionId_get_type_def
    by (cases "ncid_path_id f = None") (auto intro: encp_frame)
qed

lemma encp_IpAddr:
  assumes "IpAddr_ok ip"
  shows "encp (IpAddr_encode ip)
     (if is_ipv6 ip then pbind (pget Ipv6Addr_decode) (\<lambda>a. pret (V6 a)) else pbind (pget Ipv4Addr_decode) (\<lambda>a. pret (V4 a)))
     ip"
  using assms by (cases ip)
    (auto simp: IpAddr_encode_def is_ipv6_def encp_def parses_def pbind_def pget_def pret_def put_slice_def
      Ipv4Addr_decode_def Ipv6Addr_decode_def octets_decode_def)

lemma encp_AddrFrame:
  assumes "AddrFrame_ok f"
  shows "encp (writes [VarInt_encode (addr_seq_no f), IpAddr_encode (addr_ip f), Some (put_u16 (addr_port f))])
     (pbind (AddrFrame_read (is_ipv6 (addr_ip f))) (\<lambda>x. pret (h x))) (h f)"
  unfolding AddrFrame_read_def pbind_assoc pbind_pret
  by (insert assms, (rule encp_IpAddr encp_parts encp_ret_eq | (cases f; simp add: AddrFrame_ok_def; fail))+)

lemma encp_addr_frames:
  assumes "AddrFrame_ok f"
  shows "encp (ObservedAddr_encode f) frame_parser (ObservedAddr f)"
    and "encp (AddAddress_encode f) frame_parser (AddAddress f)"
    and "encp (ReachOut_encode f) frame_parser (ReachOut f)"
  unfolding ObservedAddr_encode_def ObservedAddr_get_type_def AddAddress_encode_def AddAddress_get_type_def
    ReachOut_encode_def ReachOut_get_type_def
  using encp_AddrFrame [OF assms]
  by (cases "is_ipv6 (addr_ip f)"; auto intro!: encp_frame)+

subsection \<open>Acknowledgements\<close>

lemma ars_inv_append:
  "ars_inv (xs @ ys) \<longleftrightarrow> ars_inv xs \<and> ars_inv ys \<and> (\<forall>p \<in> set xs. \<forall>q \<in> set ys. snd p < fst q)"
  by (induction xs) auto

definition size_write :: "range \<Rightarrow> byte list option" where
  "size_write blk = do { size \<leftarrow> csub (snd blk) (fst blk); size \<leftarrow> csub size 1; write_varn size }"

lemma size_write_eq: "fst blk < snd blk \<Longrightarrow> size_write blk = write_varn (snd blk - fst blk - 1)"
  by (simp add: size_write_def)

lemma encp_ack_loop:
  assumes "ars_inv (rev rest @ blk # out)" and "snd blk \<le> 2 ^ 62"
  shows "encp (writes (size_write blk # ack_blocks_encode (fst blk) rest))
     (read_ack_loop (length rest) (snd blk - 1) out) (rev rest @ blk # out)"
  using assms
proof (induction rest arbitrary: blk out)
  case Nil
  then have "fst blk < snd blk" "\<forall>r \<in> set out. snd blk < fst r"
    by (auto simp: ars_inv_append)
  then show ?case
    using Nil.prems(2) unfolding read_ack_loop.simps [of "length []"]
    by (simp add: size_write_eq, intro encp_bind [OF encp_varn])
       (auto simp: Let_def csub_def ars_insert_front intro!: encp_ret_eq)
next
  case (Cons q rest)
  then have blk: "fst blk < snd blk" "\<forall>r \<in> set out. snd blk < fst r" "snd q < fst blk" "fst q < snd q"
    by (auto simp: ars_inv_append)
  have gap: "(do { gap \<leftarrow> csub (fst blk) (snd q); gap \<leftarrow> csub gap 1; write_varn gap }) = write_varn (fst blk - snd q - 1)"
    using blk by simp
  have IH: "encp (writes (size_write q # ack_blocks_encode (fst q) rest))
     (read_ack_loop (length rest) (snd q - 1) (blk # out)) (rev rest @ q # blk # out)"
    using Cons.prems blk by (intro Cons.IH) auto
  have next_largest: "csub (snd blk - 1) (fst blk - snd q - 1 + 1 + (snd blk - fst blk - 1 + 1)) = Some (snd q - 1)"
    using blk by auto
  have step: "encp (writes (write_varn (fst blk - snd q - 1) # size_write q # ack_blocks_encode (fst q) rest))
     (pbind (pget get_varn) (\<lambda>b. let b = b + 1 + (snd blk - fst blk - 1 + 1) in
        case csub (snd blk - 1) b of None \<Rightarrow> pfail Malformed
        | Some largest \<Rightarrow> read_ack_loop (length rest) largest (blk # out))) (rev rest @ q # blk # out)"
  proof (rule encp_bind [OF encp_varn], goal_cases)
    case 1
    then show ?case
      using Cons.prems(2) blk by simp
  next
    case 2
    show ?case
      using IH by (simp only: Let_def next_largest option.case)
  qed
  have "encp (writes (write_varn (snd blk - fst blk - 1) # write_varn (fst blk - snd q - 1)
        # size_write q # ack_blocks_encode (fst q) rest))
     (read_ack_loop (Suc (length rest)) (snd blk - 1) out) (rev rest @ q # blk # out)"
    unfolding read_ack_loop.simps [of "Suc (length rest)"]
  proof (rule encp_bind [OF encp_varn], goal_cases)
    case 1
    then show ?case
      using Cons.prems(2) by simp
  next
    case 2
    have "csub (snd blk - 1 + 1) (snd blk - fst blk - 1 + 1) = Some (fst blk)"
      "snd (ars_insert (fst blk, snd blk - 1 + 1) out) = blk # out"
      using blk by (simp_all add: ars_insert_front)
    then show ?case
      using step by (simp add: Let_def)
  qed
  then show ?case
    using blk by (simp add: size_write_eq gap size_write_def [symmetric])
qed

lemma writes_cong: "writes xs = writes ys \<Longrightarrow> writes (a # xs) = writes (a # ys)"
  by (cases a) (simp_all add: writes.simps)

lemma writes_group: "writes (a # b # xs @ ys) = writes [a, b, writes xs, writes ys]"
proof -
  have "writes (xs @ ys) = writes [writes xs, writes ys]"
    using writes_append [of xs ys] by (auto simp: writes.simps split: option.splits)
  then show ?thesis
    by (intro writes_cong)
qed

lemma encp_EcnCounts: "EcnCounts_ok x \<Longrightarrow> encp (EcnCounts_encode x) EcnCounts_read x"
  unfolding EcnCounts_encode_def EcnCounts_read_def
  by (rule encp_parts encp_ret_eq | (simp add: EcnCounts_ok_def; fail))+

lemma encp_optional_ecn:
  assumes "pred_option EcnCounts_ok ecn"
  shows "encp (writes (case ecn of Some x \<Rightarrow> [EcnCounts_encode x] | None \<Rightarrow> []))
     (if ecn \<noteq> None then pbind EcnCounts_read (\<lambda>x. pret (Some x)) else pret None) ecn"
  using assms by (cases ecn) (auto intro: encp_ret encp_bind encp_EcnCounts)

lemma encp_ack_fields:
  assumes ok: "ack_ranges_ok largest ranges" "delay < 2 ^ 62" "pred_option EcnCounts_ok ecn"
  shows "encp (ack_fields_encode delay ranges ecn)
     (pbind (pget get_varn) (\<lambda>largest. pbind (pget get_varn) (\<lambda>delay.
      pbind (read_ack_blocks largest) (\<lambda>ranges.
      pbind (if ecn \<noteq> None then pbind EcnCounts_read (\<lambda>x. pret (Some x)) else pret None) (\<lambda>ecn.
        pret (g largest delay ranges ecn)))))) (g largest delay ranges ecn)"
proof -
  obtain first rest where rev: "rev ranges = first # rest"
    using ok(1) by (cases "rev ranges") (auto simp: ack_ranges_ok_def)
  then have ranges: "ranges = rev rest @ [first]"
    by (simp add: rev_eq_Cons_iff)
  then have first: "snd first = largest + 1" "fst first < snd first" "ars_inv (rev rest @ [first])"
    "largest < 2 ^ 62"
    using ok(1) by (auto simp: ack_ranges_ok_def ars_inv_append)
  have len: "length rest < 2 ^ 62"
  proof -
    have "length s \<le> m" if "ars_inv s" "\<forall>q \<in> set s. snd q \<le> m" for s m
      using that
    proof (induction s arbitrary: m rule: rev_induct)
      case (snoc q s)
      then have "length s \<le> fst q"
        by (intro snoc.IH) (auto simp: ars_inv_append less_imp_le)
      then show ?case
        using snoc.prems by (auto simp: ars_inv_append)
    qed simp
    from this [of "rev rest" "fst first"] have "length rest \<le> fst first"
      using first(3) by (auto simp: ars_inv_append less_imp_le)
    then show ?thesis
      using first by simp
  qed
  define ecnw where "ecnw = (case ecn of Some x \<Rightarrow> [EcnCounts_encode x] | None \<Rightarrow> [])"
  have blocks: "encp (writes (write_varn (length rest) # size_write first # ack_blocks_encode (fst first) rest))
      (read_ack_blocks largest) ranges"
    unfolding read_ack_blocks_def using encp_ack_loop [OF first(3)] first(1,4) len
    by (intro encp_bind [OF encp_varn]) (simp_all add: ranges)
  have "ack_fields_encode delay ranges ecn =
      writes (write_varn largest # write_varn delay #
        (write_varn (length rest) # size_write first # ack_blocks_encode (fst first) rest) @ ecnw)"
    using first by (simp add: ack_fields_encode_def rev ranges ecnw_def size_write_def)
  moreover have "encp \<dots> (pbind (pget get_varn) (\<lambda>largest. pbind (pget get_varn) (\<lambda>delay.
      pbind (read_ack_blocks largest) (\<lambda>ranges.
      pbind (if ecn \<noteq> None then pbind EcnCounts_read (\<lambda>x. pret (Some x)) else pret None) (\<lambda>ecn.
        pret (g largest delay ranges ecn)))))) (g largest delay ranges ecn)"
    unfolding writes_group ecnw_def
    by (rule encp_bind, rule encp_varn [OF first(4)], rule encp_bind, rule encp_varn [OF ok(2)],
        rule encp_bind, rule blocks, rule encp_bind, rule encp_optional_ecn [OF ok(3)], rule encp_ret)
  ultimately show ?thesis
    by simp
qed

lemma encp_Ack:
  assumes "ack_ranges_ok largest ranges" "delay < 2 ^ 62" "pred_option EcnCounts_ok ecn"
  shows "encp (AckEncoder_encode delay ranges ecn) frame_parser
     (FAck \<lparr>ack_largest = largest, ack_delay = delay, ack_ranges = ranges, ack_ecn = ecn\<rparr>)"
proof -
  have "encp (writes [ack_fields_encode delay ranges ecn]) (pbind (Ack_read (ecn \<noteq> None)) (\<lambda>a. pret (FAck a)))
      (FAck \<lparr>ack_largest = largest, ack_delay = delay, ack_ranges = ranges, ack_ecn = ecn\<rparr>)"
    unfolding Ack_read_def by (rule encp_bind [OF encp_ack_fields [OF assms] encp_ret])
  then show ?thesis
    unfolding AckEncoder_encode_def Ack_get_type_def by - (rule encp_frame; cases "ecn = None"; simp)
qed

lemma encp_PathAck:
  assumes "PathId_ok p" "ack_ranges_ok largest ranges" "delay < 2 ^ 62" "pred_option EcnCounts_ok ecn"
  shows "encp (PathAckEncoder_encode p delay ranges ecn) frame_parser
     (FPathAck \<lparr>pa_path_id = p, pa_largest = largest, pa_delay = delay, pa_ranges = ranges, pa_ecn = ecn\<rparr>)"
proof -
  have "encp (writes [PathId_encode p, ack_fields_encode delay ranges ecn])
      (pbind (PathAck_read (ecn \<noteq> None)) (\<lambda>a. pret (FPathAck a)))
      (FPathAck \<lparr>pa_path_id = p, pa_largest = largest, pa_delay = delay, pa_ranges = ranges, pa_ecn = ecn\<rparr>)"
    unfolding PathAck_read_def pbind_assoc [of "pget PathId_decode"]
    by (rule encp_bind [OF encp_PathId [OF assms(1)] encp_bind [OF encp_ack_fields [OF assms(2-4)] encp_ret]])
  then show ?thesis
    unfolding PathAckEncoder_encode_def PathAck_get_type_def by - (rule encp_frame; cases "ecn = None"; simp)
qed

end
