(* ===== verification/Frame_Roundtrip.thy ===== *)
theory Frame_Roundtrip
  imports Frame_Codec
begin

text \<open>
  Round trips: each frame that can be sent decodes to the frame the receiver should see, and a
  payload decodes to the sequence of frames written into it.
\<close>

section \<open>Close and STREAM frames\<close>

lemma VarInt_size_length: "n < 2 ^ 62 \<Longrightarrow> \<exists>l. VarInt_size (VarInt (of_nat n)) = Some l \<and> 1 \<le> l \<and> l \<le> 8"
  using unat_of_nat [of n, where ?'a = 64] by (auto simp: VarInt_size_nat Let_def)

text \<open>What a close frame needs besides the reason, as the encoder counts it.\<close>

fun close_overhead :: "Close \<Rightarrow> nat" where
  "close_overhead (ConnectionClose code ty reason) =
     3 + the (MaybeFrame_size ty) + the (VarInt_size (VarInt (of_nat (length reason))))"
| "close_overhead (ApplicationClose code reason) =
     3 + the (VarInt_size (VarInt (of_nat (length reason))))"

text \<open>The frame with its reason cut to the space that is left.\<close>

fun Close_cut :: "nat \<Rightarrow> Close \<Rightarrow> Close" where
  "Close_cut max_len (ConnectionClose code ty reason) =
     ConnectionClose code ty (take (max_len - close_overhead (ConnectionClose code ty reason)) reason)"
| "Close_cut max_len (ApplicationClose code reason) =
     ApplicationClose code (take (max_len - close_overhead (ApplicationClose code reason)) reason)"

fun close_reason :: "Close \<Rightarrow> byte list" where
  "close_reason (ConnectionClose code ty reason) = reason"
| "close_reason (ApplicationClose code reason) = reason"

lemma MaybeFrame_size_ok: "MaybeFrame_ok m \<Longrightarrow> \<exists>l. MaybeFrame_size m = Some l"
proof (cases m)
  case MF_None
  then show ?thesis
    by (simp add: MaybeFrame_size_def VarInt_size_nat)
next
  case (MF_Unknown n)
  assume "MaybeFrame_ok m"
  then show ?thesis
    using MF_Unknown VarInt_size_length [of n] by (auto simp: MaybeFrame_size_def)
next
  case (MF_Known t)
  assume "MaybeFrame_ok m"
  then show ?thesis
    using MF_Known VarInt_size_length [of "FrameType_to_u64 t"] FrameType_to_u64_bound [of t]
    by (auto simp: MaybeFrame_size_def FrameType_size_def)
qed

lemma encp_ConnectionClose:
  "code < 2 ^ 62 \<Longrightarrow> MaybeFrame_ok ty \<Longrightarrow> length r < 2 ^ 62 \<Longrightarrow>
   encp (writes [FrameType_encode FT_ConnectionClose, write_varn code, MaybeFrame_encode ty,
       write_varn (length r), Some (put_slice r)]) frame_parser (FClose (ConnectionClose code ty r))"
  by ((rule encp_frame; (simp; fail)?), simp only: Frame_read.simps, (rule encp_take_len encp_parts | (simp; fail))+)

lemma encp_ApplicationClose:
  "VarInt_ok code \<Longrightarrow> length r < 2 ^ 62 \<Longrightarrow>
   encp (writes [FrameType_encode FT_ApplicationClose, VarInt_encode code,
       write_varn (length r), Some (put_slice r)]) frame_parser (FClose (ApplicationClose code r))"
  by ((rule encp_frame; (simp; fail)?), simp only: Frame_read.simps, (rule encp_take_len encp_parts | (simp; fail))+)

lemma encp_Close:
  assumes "Close_ok c" and "length (close_reason c) < 2 ^ 62" and "close_overhead c \<le> max_len"
  shows "encp (Close_encode c max_len) frame_parser (FClose (Close_cut max_len c))"
proof (cases c)
  case (ConnectionClose code ty reason)
  obtain l where l: "VarInt_size (VarInt (of_nat (length reason))) = Some l"
    using VarInt_size_length assms(2) ConnectionClose by auto
  obtain sz where sz: "MaybeFrame_size ty = Some sz"
    using assms(1) ConnectionClose MaybeFrame_size_ok by auto
  define r where "r = take (max_len - (3 + sz + l)) reason"
  have r: "reason_len (do { m \<leftarrow> csub max_len 3; csub m sz }) reason = Some (length r)"
    "take (length r) reason = r" "length r < 2 ^ 62"
    using assms(2,3) ConnectionClose l sz by (auto simp: reason_len_def r_def min_def)
  then show ?thesis
    using ConnectionClose l sz assms(1) encp_ConnectionClose [of code ty r]
    by (simp add: Close_encode_def ConnectionClose_encode_def r_def [symmetric])
next
  case (ApplicationClose code reason)
  obtain l where l: "VarInt_size (VarInt (of_nat (length reason))) = Some l"
    using VarInt_size_length assms(2) ApplicationClose by auto
  define r where "r = take (max_len - (3 + l)) reason"
  have r: "reason_len (csub max_len 3) reason = Some (length r)"
    "take (length r) reason = r" "length r < 2 ^ 62"
    using assms(2,3) ApplicationClose l by (auto simp: reason_len_def r_def min_def)
  then show ?thesis
    using ApplicationClose l assms(1) encp_ApplicationClose [of code r]
    by (simp add: Close_encode_def ApplicationClose_encode_def r_def [symmetric])
qed

text \<open>A STREAM frame header is followed by the data; without a length the data fills the packet.\<close>

lemma StreamMeta_get_type_flags:
  "StreamInfo_fin (StreamMeta_get_type m el) = sm_fin m"
  "StreamInfo_len (StreamMeta_get_type m el) = el"
  "StreamInfo_off (StreamMeta_get_type m el) = (fst (sm_offsets m) \<noteq> 0)"
  "FrameType_ok (FT_Stream (StreamMeta_get_type m el))"
  by (cases "fst (sm_offsets m) \<noteq> 0"; cases el; cases "sm_fin m";
      simp add: StreamMeta_get_type_def StreamInfo_VALUES_def)+

definition encr :: "byte list option \<Rightarrow> 'a parser \<Rightarrow> 'a \<Rightarrow> bool" where
  "encr w p x \<longleftrightarrow> (\<exists>bs. w = Some bs \<and> p bs = Inr (x, []))"

lemma encp_encr: "encp w p x \<Longrightarrow> encr w p x"
  by (auto simp: encp_def encr_def parses_def dest: spec [where x = "[]"])

lemma encr_bind:
  assumes "encp w p x" and "encr (writes ws) (f x) y"
  shows "encr (writes (w # ws)) (pbind p f) y"
  using assms by (force simp: encp_def encr_def parses_def pbind_def writes.simps)

lemma encr_remaining: "encr (writes [Some (put_slice d)]) (pbind take_remaining (\<lambda>d. pret (g d))) (g d)"
  by (simp add: encr_def pbind_def take_remaining_def pret_def writes.simps put_slice_def)

definition stream_frame :: "StreamMeta \<Rightarrow> byte list \<Rightarrow> Frame" where
  "stream_frame m d = Stream \<lparr>sf_id = sm_id m, sf_offset = fst (sm_offsets m), sf_fin = sm_fin m, sf_data = d\<rparr>"

definition StreamMeta_ok :: "StreamMeta \<Rightarrow> byte list \<Rightarrow> bool" where
  "StreamMeta_ok m d \<longleftrightarrow> sid (sm_id m) < 2 ^ 62 \<and> fst (sm_offsets m) + length d = snd (sm_offsets m) \<and>
     snd (sm_offsets m) < 2 ^ 62"

lemma stream_writes:
  assumes "StreamMeta_ok m d"
  shows "writes [StreamMetaEncoder_encode m el, Some (put_slice d)] =
     writes (FrameType_encode (FT_Stream (StreamMeta_get_type m el)) # StreamId_encode (sm_id m) #
       (if fst (sm_offsets m) \<noteq> 0 then [write_varn (fst (sm_offsets m))] else []) @
       (if el then [write_varn (length d)] else []) @ [Some (put_slice d)])"
proof -
  have "csub (snd (sm_offsets m)) (fst (sm_offsets m)) = Some (length d)"
    using assms by (auto simp: StreamMeta_ok_def)
  then have "StreamMetaEncoder_encode m el = writes ([FrameType_encode (FT_Stream (StreamMeta_get_type m el)), StreamId_encode (sm_id m)]
      @ (if fst (sm_offsets m) \<noteq> 0 then [write_varn (fst (sm_offsets m))] else [])
      @ (if el then [write_varn (length d)] else []))"
    by (simp add: StreamMetaEncoder_encode_def FrameType_encode_def)
  then show ?thesis
    by (simp only: writes_append [symmetric] append.assoc append_Cons append_Nil)
qed

lemma Frame_read_stream:
  "Frame_read (FT_Stream (StreamMeta_get_type m el)) =
     pbind (pget StreamId_decode) (\<lambda>i.
     pbind (if fst (sm_offsets m) \<noteq> 0 then pget get_varn else pret 0) (\<lambda>off.
     pbind (if el then take_len else take_remaining) (\<lambda>data.
       pret (Stream \<lparr>sf_id = i, sf_offset = off, sf_fin = sm_fin m, sf_data = data\<rparr>))))"
  by (simp only: Frame_read.simps StreamMeta_get_type_flags)

lemma encp_optional_offset:
  "off < 2 ^ 62 \<Longrightarrow> encp (writes ws) (f off) y \<Longrightarrow>
   encp (writes ((if off \<noteq> 0 then [write_varn off] else []) @ ws)) (pbind (if off \<noteq> 0 then pget get_varn else pret 0) f) y"
  by (cases "off = 0") (simp_all add: pbind_pret encp_bind [OF encp_varn])

lemma encr_optional_offset:
  "off < 2 ^ 62 \<Longrightarrow> encr (writes ws) (f off) y \<Longrightarrow>
   encr (writes ((if off \<noteq> 0 then [write_varn off] else []) @ ws)) (pbind (if off \<noteq> 0 then pget get_varn else pret 0) f) y"
  by (cases "off = 0") (simp_all add: pbind_pret encr_bind [OF encp_varn])

lemma encp_Stream:
  assumes "StreamMeta_ok m d"
  shows "encp (writes [StreamMetaEncoder_encode m True, Some (put_slice d)]) frame_parser (stream_frame m d)"
proof -
  have ok: "sid (sm_id m) < 2 ^ 62" "fst (sm_offsets m) < 2 ^ 62" "length d < 2 ^ 62"
    using assms by (auto simp: StreamMeta_ok_def)
  have "encp (writes (StreamId_encode (sm_id m) #
       (if fst (sm_offsets m) \<noteq> 0 then [write_varn (fst (sm_offsets m))] else []) @
       [write_varn (length d), Some (put_slice d)]))
     (Frame_read (FT_Stream (StreamMeta_get_type m True))) (stream_frame m d)"
    unfolding Frame_read_stream stream_frame_def
    by (rule encp_bind, rule encp_StreamId [OF ok(1)], rule encp_optional_offset [OF ok(2)],
        simp only: if_True, rule encp_take_len [OF ok(3)], rule encp_ret)
  then show ?thesis
    unfolding stream_writes [OF assms] using StreamMeta_get_type_flags(4) [of m True]
    by - (rule encp_frame; simp)
qed

lemma encr_Stream:
  assumes "StreamMeta_ok m d"
  shows "encr (writes [StreamMetaEncoder_encode m False, Some (put_slice d)]) frame_parser (stream_frame m d)"
proof -
  have ok: "sid (sm_id m) < 2 ^ 62" "fst (sm_offsets m) < 2 ^ 62"
    using assms by (auto simp: StreamMeta_ok_def)
  have "encr (writes (StreamId_encode (sm_id m) #
       (if fst (sm_offsets m) \<noteq> 0 then [write_varn (fst (sm_offsets m))] else []) @ [Some (put_slice d)]))
     (Frame_read (FT_Stream (StreamMeta_get_type m False))) (stream_frame m d)"
    unfolding Frame_read_stream stream_frame_def
    by (rule encr_bind, rule encp_StreamId [OF ok(1)], rule encr_optional_offset [OF ok(2)],
        simp only: if_False, rule encr_remaining)
  moreover have "encp (FrameType_encode (FT_Stream (StreamMeta_get_type m False))) (pget MaybeFrame_decode)
      (MF_Known (FT_Stream (StreamMeta_get_type m False)))"
    using StreamMeta_get_type_flags(4) [of m False] by (intro encp_FrameType) simp_all
  ultimately show ?thesis
    unfolding stream_writes [OF assms] frame_parser_def
    using encr_bind [where f = MaybeFrame_read] by (simp add: MaybeFrame_read_def)
qed

section \<open>Frames that are sent\<close>

text \<open>
  What the receiver should see of a frame that is sent; \<open>d\<close> is the data that follows a STREAM
  frame header.  An acknowledgement carries the largest packet number of its ranges, a close frame
  the part of the reason that fits.
\<close>

fun EncodableFrame_frame :: "EncodableFrame \<Rightarrow> byte list \<Rightarrow> Frame" where
  "EncodableFrame_frame (EPathAck p delay ranges ecn) d =
     FPathAck \<lparr>pa_path_id = p, pa_largest = snd (last ranges) - 1, pa_delay = delay, pa_ranges = ranges, pa_ecn = ecn\<rparr>"
| "EncodableFrame_frame (EAck delay ranges ecn) d =
     FAck \<lparr>ack_largest = snd (last ranges) - 1, ack_delay = delay, ack_ranges = ranges, ack_ecn = ecn\<rparr>"
| "EncodableFrame_frame (EClose c max_len) d = FClose (Close_cut max_len c)"
| "EncodableFrame_frame (EPathResponse x) d = PathResponse x"
| "EncodableFrame_frame EHandshakeDone d = HandshakeDone"
| "EncodableFrame_frame (EReachOut f) d = ReachOut f"
| "EncodableFrame_frame (EObservedAddr f) d = ObservedAddr f"
| "EncodableFrame_frame EPing d = Ping"
| "EncodableFrame_frame EImmediateAck d = ImmediateAck"
| "EncodableFrame_frame (EAckFrequency f) d = FAckFrequency f"
| "EncodableFrame_frame (EPathChallenge x) d = PathChallenge x"
| "EncodableFrame_frame (ECrypto off data) d = Crypto off data"
| "EncodableFrame_frame (EPathAbandon p code) d = PathAbandon p code"
| "EncodableFrame_frame (EPathStatusAvailable p sq) d = PathStatusAvailable p sq"
| "EncodableFrame_frame (EPathStatusBackup p sq) d = PathStatusBackup p sq"
| "EncodableFrame_frame (EMaxPathId p) d = MaxPathId p"
| "EncodableFrame_frame (EPathsBlocked p) d = PathsBlocked p"
| "EncodableFrame_frame (EPathCidsBlocked p sq) d = PathCidsBlocked p sq"
| "EncodableFrame_frame (EResetStream f) d = FResetStream f"
| "EncodableFrame_frame (EStopSending f) d = FStopSending f"
| "EncodableFrame_frame (ENewConnectionId f) d = FNewConnectionId f"
| "EncodableFrame_frame (ERetireConnectionId f) d = FRetireConnectionId f"
| "EncodableFrame_frame (EDatagram data) d = Datagram data"
| "EncodableFrame_frame (ENewToken token) d = NewToken token"
| "EncodableFrame_frame (EAddAddress f) d = AddAddress f"
| "EncodableFrame_frame (ERemoveAddress sq) d = RemoveAddress sq"
| "EncodableFrame_frame (EStreamMeta m el) d = stream_frame m d"
| "EncodableFrame_frame (EMaxData v) d = MaxData v"
| "EncodableFrame_frame (EMaxStreamData i off) d = MaxStreamData i off"
| "EncodableFrame_frame (EMaxStreams dir count) d = MaxStreams dir count"
| "EncodableFrame_frame (EStreamsBlocked dir limit) d = StreamsBlocked dir limit"

text \<open>What the sender has to ensure: encodable values, and the data announced by a STREAM frame.\<close>

fun EncodableFrame_ok :: "EncodableFrame \<Rightarrow> byte list \<Rightarrow> bool" where
  "EncodableFrame_ok (EStreamMeta m el) d = StreamMeta_ok m d"
| "EncodableFrame_ok (EClose c max_len) d =
     (d = [] \<and> Close_ok c \<and> length (close_reason c) < 2 ^ 62 \<and> close_overhead c \<le> max_len)"
| "EncodableFrame_ok (ECrypto off data) d = (d = [] \<and> off < 2 ^ 62 \<and> length data < 2 ^ 62)"
| "EncodableFrame_ok (EDatagram data) d = (d = [] \<and> length data < 2 ^ 62)"
| "EncodableFrame_ok (ENewToken token) d = (d = [] \<and> length token < 2 ^ 62)"
| "EncodableFrame_ok (EPathAck p delay ranges ecn) d = (d = [] \<and> ranges \<noteq> [] \<and> 0 < snd (last ranges) \<and>
     Frame_ok (EncodableFrame_frame (EPathAck p delay ranges ecn) []))"
| "EncodableFrame_ok (EAck delay ranges ecn) d = (d = [] \<and> ranges \<noteq> [] \<and> 0 < snd (last ranges) \<and>
     Frame_ok (EncodableFrame_frame (EAck delay ranges ecn) []))"
| "EncodableFrame_ok f d = (d = [] \<and> Frame_ok (EncodableFrame_frame f []))"

definition sent_bytes :: "EncodableFrame \<Rightarrow> byte list \<Rightarrow> byte list option" where
  "sent_bytes f d = writes [EncodableFrame_encode f, Some (put_slice d)]"

text \<open>Whether the receiver can tell where the frame ends.\<close>

definition sent_delimited :: "EncodableFrame \<Rightarrow> bool" where
  "sent_delimited f = (case f of EStreamMeta m el \<Rightarrow> el | _ \<Rightarrow> True)"

lemma sent_bytes_Nil: "encp w p x \<Longrightarrow> encp (writes [w, Some (put_slice [])]) p x"
  by (auto simp: encp_def writes.simps put_slice_def)

lemma encp_sent:
  assumes "EncodableFrame_ok f d" and "sent_delimited f"
  shows "encp (sent_bytes f d) frame_parser (EncodableFrame_frame f d)"
proof (cases "\<exists>m el. f = EStreamMeta m el")
  case True
  then show ?thesis
    using assms encp_Stream by (auto simp: sent_bytes_def sent_delimited_def)
next
  case False
  then have "d = []"
    using assms(1) by (cases f) auto
  moreover have "encp (EncodableFrame_encode f) frame_parser (EncodableFrame_frame f [])"
    using assms False
    by (cases f)
       (auto simp del: Frame_ok.simps
         simp: encp_simple encp_PathChallenge encp_PathResponse encp_MaxData encp_MaxStreamData
           encp_MaxPathId encp_PathsBlocked encp_PathCidsBlocked encp_PathAbandon encp_PathStatusAvailable
           encp_PathStatusBackup encp_RemoveAddress encp_ResetStream encp_StopSending encp_AckFrequency
           encp_Crypto encp_NewToken encp_Datagram encp_RetireConnectionId encp_NewConnectionId
           encp_Close,
         auto intro: encp_StreamsBlocked encp_MaxStreams encp_addr_frames encp_Ack encp_PathAck)
  ultimately show ?thesis
    by (simp add: sent_bytes_def sent_bytes_Nil)
qed

lemma encr_sent:
  assumes "EncodableFrame_ok f d"
  shows "encr (sent_bytes f d) frame_parser (EncodableFrame_frame f d)"
proof (cases "sent_delimited f")
  case True
  then show ?thesis
    using encp_sent [OF assms] by (intro encp_encr)
next
  case False
  then obtain m where "f = EStreamMeta m False"
    by (auto simp: sent_delimited_def split: EncodableFrame.splits)
  then show ?thesis
    using assms encr_Stream by (simp add: sent_bytes_def)
qed

end
