(* ===== verification/Frame_Payload.thy ===== *)
theory Frame_Payload
  imports Frame_Roundtrip
begin

text \<open>
  The payload of a packet: the frames a receiver iterates over, the properties of the codec as a
  whole, and the sizes that the senders of control frames rely on.
\<close>

section \<open>Iterating over a payload\<close>

lemma frame_parser_shorter: "frame_parser bs = Inr (f, r) \<Longrightarrow> length r < length bs"
proof -
  assume dec: "frame_parser bs = Inr (f, r)"
  then obtain ty r1 where ty: "pget MaybeFrame_decode bs = Inr (ty, r1)" "MaybeFrame_read ty r1 = Inr (f, r)"
    by (auto simp: frame_parser_def pbind_def split: sum.splits)
  then obtain v where "VarInt_decode bs = Some (v, r1)"
    by (auto simp: pget_def MaybeFrame_decode_of get_varn_def get_var_def split: option.splits)
  then have "length r1 < length bs"
    by (rule varint.dec_shorter)
  moreover have "yields (MaybeFrame_read ty) Frame_ok"
    using yields_Frame_read yields_fail by (cases ty) (simp_all add: MaybeFrame_read_def del: Frame_read.simps)
  then have "length r \<le> length r1"
    using ty(2) by (auto simp: yields_def)
  ultimately show ?thesis
    by simp
qed

lemma frame_parser_Nil: "\<exists>e. frame_parser [] = Inl e"
  using frame_parser_shorter [of "[]"] by (cases "frame_parser []") auto

lemma Iter_next_ok:
  assumes "frame_parser (it_bytes it) = Inr (f, r)"
  shows "\<exists>ty. Iter_next it = (Some (Inr f), \<lparr>it_bytes = r, it_last_ty = ty\<rparr>)"
proof -
  have "it_bytes it \<noteq> []"
    using assms frame_parser_Nil by fastforce
  moreover from assms obtain ty r1 where "pget MaybeFrame_decode (it_bytes it) = Inr (ty, r1)"
    "MaybeFrame_read ty r1 = Inr (f, r)"
    by (auto simp: frame_parser_def pbind_def split: sum.splits)
  ultimately show ?thesis
    by (cases it) (auto simp: Iter_next_def Iter_try_next_def Let_def)
qed

lemma Iter_next_error:
  assumes "frame_parser (it_bytes it) = Inl e" and "it_bytes it \<noteq> []"
  shows "\<exists>err it'. Iter_next it = (Some (Inl err), it') \<and> if_reason err = e \<and> it_bytes it' = []"
  using assms by (auto simp: Iter_next_def Iter_try_next_def frame_parser_def pbind_def Let_def split: sum.splits)

lemma Iter_next_shorter: "Iter_next it = (Some x, it') \<Longrightarrow> length (it_bytes it') < length (it_bytes it)"
proof (cases "frame_parser (it_bytes it)")
  case (Inl e)
  assume "Iter_next it = (Some x, it')"
  moreover from this have "it_bytes it \<noteq> []"
    by (auto simp: Iter_next_def)
  ultimately show ?thesis
    using Iter_next_error [OF Inl] by auto
next
  case (Inr p)
  assume "Iter_next it = (Some x, it')"
  then show ?thesis
    using Iter_next_ok [of it "fst p" "snd p"] Inr frame_parser_shorter [of "it_bytes it" "fst p" "snd p"] by auto
qed

text \<open>Everything the iterator yields; the loops of the connection run over this list.\<close>

function Iter_frames :: "Iter \<Rightarrow> (InvalidFrame + Frame) list" where
  "Iter_frames it = (case Iter_next it of (None, _) \<Rightarrow> [] | (Some x, it') \<Rightarrow> x # Iter_frames it')"
  by pat_completeness auto
termination
  by (relation "measure (\<lambda>it. length (it_bytes it))") (auto dest: Iter_next_shorter [OF sym])

declare Iter_frames.simps [simp del]

lemma Iter_frames_Nil: "it_bytes it = [] \<Longrightarrow> Iter_frames it = []"
  by (subst Iter_frames.simps) (simp add: Iter_next_def)

lemma Iter_frames_Cons:
  assumes "frame_parser (it_bytes it) = Inr (f, r)"
    and "\<And>ty. Iter_frames \<lparr>it_bytes = r, it_last_ty = ty\<rparr> = fs"
  shows "Iter_frames it = Inr f # fs"
  using Iter_next_ok [OF assms(1)] assms(2) by (subst Iter_frames.simps) auto

lemma Iter_frames_padding:
  "Iter_frames \<lparr>it_bytes = replicate k 0, it_last_ty = ty\<rparr> = replicate k (Inr Padding)"
proof (induction k arbitrary: ty)
  case (Suc k)
  have "frame_parser (0 # r) = Inr (Padding, r)" for r
  proof -
    have "VarInt_decode (0 # r) = Some (VarInt 0, r)"
      by (simp add: VarInt_decode_def)
    then show ?thesis
      by (simp add: frame_parser_def pbind_def pget_def MaybeFrame_decode_of get_varn_def get_var_def
          MaybeFrame_of_0 MaybeFrame_read_def pret_def)
  qed
  then show ?case
    using Suc Iter_frames_Cons [of "\<lparr>it_bytes = replicate (Suc k) 0, it_last_ty = ty\<rparr>" Padding "replicate k 0"]
    by simp
qed (simp add: Iter_frames_Nil)

lemma Iter_frames_sent:
  assumes "\<forall>(f, d) \<in> set items. EncodableFrame_ok f d"
    and "\<forall>(f, d) \<in> set (butlast items). sent_delimited f"
    and "k = 0 \<or> (\<forall>(f, d) \<in> set items. sent_delimited f)"
  shows "\<exists>payload. writes (map (\<lambda>(f, d). sent_bytes f d) items) = Some payload \<and>
     (\<forall>ty. Iter_frames \<lparr>it_bytes = payload @ replicate k 0, it_last_ty = ty\<rparr> =
        map (\<lambda>(f, d). Inr (EncodableFrame_frame f d)) items @ replicate k (Inr Padding))"
  using assms
proof (induction items)
  case Nil
  then show ?case
    by (simp add: writes.simps Iter_frames_padding)
next
  case (Cons fd items)
  obtain f d where fd: "fd = (f, d)"
    by (cases fd)
  have "\<forall>(f, d) \<in> set (butlast items). sent_delimited f"
    using Cons.prems(2) by (cases items) auto
  with Cons obtain payload where payload: "writes (map (\<lambda>(f, d). sent_bytes f d) items) = Some payload"
    and iter: "\<And>ty. Iter_frames \<lparr>it_bytes = payload @ replicate k 0, it_last_ty = ty\<rparr> =
        map (\<lambda>(f, d). Inr (EncodableFrame_frame f d)) items @ replicate k (Inr Padding)"
    by auto
  have ok: "EncodableFrame_ok f d"
    using Cons.prems(1) fd by auto
  obtain bs where bs: "sent_bytes f d = Some bs"
    and parse: "frame_parser (bs @ payload @ replicate k 0) = Inr (EncodableFrame_frame f d, payload @ replicate k 0)"
  proof (cases "sent_delimited f")
    case True
    then show ?thesis
      using that encp_sent [OF ok] by (auto simp: encp_def parses_def)
  next
    case False
    then have "items = [] \<and> k = 0"
      using Cons.prems(2,3) fd by (cases items) auto
    moreover from this have "payload = []"
      using payload by (simp add: writes.simps)
    ultimately show ?thesis
      using that encr_sent [OF ok] by (auto simp: encr_def)
  qed
  have "writes (map (\<lambda>(f, d). sent_bytes f d) (fd # items)) = Some (bs @ payload)"
    using fd bs payload by (simp add: writes.simps)
  moreover have "Iter_frames \<lparr>it_bytes = (bs @ payload) @ replicate k 0, it_last_ty = ty\<rparr> =
      map (\<lambda>(f, d). Inr (EncodableFrame_frame f d)) (fd # items) @ replicate k (Inr Padding)" for ty
    using Iter_frames_Cons [OF _ iter, of "\<lparr>it_bytes = (bs @ payload) @ replicate k 0, it_last_ty = ty\<rparr>"] parse fd
    by simp
  ultimately show ?case
    by blast
qed

section \<open>Sizes of frames\<close>

text \<open>The bounds on the encoded size that the source declares (\<open>SIZE_BOUND\<close> and \<open>size_bound\<close>).\<close>

definition RetireConnectionId_size_bound :: "bool \<Rightarrow> nat" where
  "RetireConnectionId_size_bound path_retire_cid = (if path_retire_cid then 2 + 8 + 8 else 1 + 8)"

definition NewConnectionId_size_bound :: "bool \<Rightarrow> nat \<Rightarrow> nat" where
  "NewConnectionId_size_bound path_new_cid cid_len =
     (let upper_bound = (if path_new_cid then 2 + 8 + 8 + 8 + 1 + 160 + 16 else 1 + 8 + 8 + 1 + 160 + 16)
      in upper_bound - 160 + cid_len)"

fun frame_size_bound :: "EncodableFrame \<Rightarrow> nat option" where
  "frame_size_bound (EResetStream f) = Some (1 + 8 + 8 + 8)"
| "frame_size_bound (EStopSending f) = Some (1 + 8 + 8)"
| "frame_size_bound (EStreamMeta m el) = Some (1 + 8 + 8 + 8)"
| "frame_size_bound (EPathChallenge x) = Some 9"
| "frame_size_bound (EPathResponse x) = Some 9"
| "frame_size_bound (ECrypto off data) = Some (17 + length data)"
| "frame_size_bound (EDatagram data) = Some (1 + 8 + length data)"
| "frame_size_bound (EMaxPathId p) = Some (2 + 8)"
| "frame_size_bound (EPathsBlocked p) = Some (2 + 8)"
| "frame_size_bound (EPathCidsBlocked p sq) = Some (2 + 8 + 8)"
| "frame_size_bound (EPathAbandon p code) = Some (2 + 8 + 8)"
| "frame_size_bound (EPathStatusAvailable p sq) = Some (2 + 8 + 8)"
| "frame_size_bound (ERetireConnectionId f) = Some (RetireConnectionId_size_bound (rcid_path_id f \<noteq> None))"
| "frame_size_bound (ENewConnectionId f) =
     Some (NewConnectionId_size_bound (ncid_path_id f \<noteq> None) (length (ncid_id f)))"
| "frame_size_bound (EAddAddress f) = Some (4 + 8 + 16 + 2)"
| "frame_size_bound (ERemoveAddress sq) = Some (4 + 8)"
| "frame_size_bound (EMaxData v) = Some 9"
| "frame_size_bound (EMaxStreamData i off) = Some 17"
| "frame_size_bound (EMaxStreams dir count) = Some 9"
| "frame_size_bound (EStreamsBlocked dir limit) = Some 9"
| "frame_size_bound _ = None"

lemma writes_eq_Some:
  "writes (w # ws) = Some bs \<longleftrightarrow> (\<exists>a b. w = Some a \<and> writes ws = Some b \<and> bs = a @ b)"
  by (auto simp: writes.simps split: option.splits)

lemma writes_Nil_eq_Some: "writes [] = Some bs \<longleftrightarrow> bs = []"
  by (auto simp: writes.simps)

lemma length_VarInt_encode: "VarInt_encode v = Some bs \<Longrightarrow> VarInt_size v = Some (length bs)"
proof -
  assume enc: "VarInt_encode v = Some bs"
  then have "VarInt_ok v"
    by (auto simp: VarInt_encode_def VarInt_ok_def Let_def split: if_splits)
  then show ?thesis
    using VarInt_dec_enc [of v "[]"] enc by auto
qed

lemma length_write_varn:
  assumes "write_varn n = Some bs"
  shows "length bs = (if n < 64 then 1 else if n < 16384 then 2 else if n < 1073741824 then 4 else 8)"
proof -
  have n: "n < 2 ^ 62" "VarInt_encode (VarInt (of_nat n)) = Some bs"
    using assms by (auto simp: write_varn_def write_var_def VarInt_from_u64_def split: if_splits sum.splits)
  then have "unat (of_nat n :: u64) = n"
    by (simp add: unat_of_nat)
  then show ?thesis
    using length_VarInt_encode [OF n(2)] by (auto simp: VarInt_size_nat Let_def split: if_splits)
qed

lemma length_bounds:
  "VarInt_encode v = Some bs \<Longrightarrow> length bs \<le> 8"
  "write_varn n = Some bs \<Longrightarrow> length bs \<le> 8"
  "StreamId_encode i = Some bs \<Longrightarrow> length bs \<le> 8"
  "PathId_encode p = Some bs \<Longrightarrow> length bs \<le> 8"
proof -
  show varint: "VarInt_encode v = Some bs \<Longrightarrow> length bs \<le> 8" for v
    using length_VarInt_encode [of v bs] by (auto simp: VarInt_size_nat Let_def split: if_splits)
  show "write_varn n = Some bs \<Longrightarrow> length bs \<le> 8"
    using length_write_varn [of n bs] by (auto split: if_splits)
  show "StreamId_encode i = Some bs \<Longrightarrow> length bs \<le> 8"
    using varint by (auto simp: StreamId_encode_def split: sum.splits)
  show "PathId_encode p = Some bs \<Longrightarrow> length bs \<le> 8"
    using varint by (cases p) auto
qed

lemmas length_FrameType = length_write_varn [of "FrameType_to_u64 t" for t, folded FrameType_encode_def]

lemma length_puts [simp]: "length (put_slice d) = length d" "length (put_u64 x) = 8" "length (put_u16 y) = 2"
  "length (put_u8 z) = 1"
  by (simp_all add: put_slice_def put_u64_def put_u16_def put_u8_def)

definition wle :: "byte list option \<Rightarrow> nat \<Rightarrow> bool" where
  "wle w n \<longleftrightarrow> (\<forall>bs. w = Some bs \<longrightarrow> length bs \<le> n)"

lemma wle_le: "wle w a \<Longrightarrow> a \<le> b \<Longrightarrow> wle w b"
  by (auto simp: wle_def)

lemma wle_Nil: "wle (writes []) 0"
  by (simp add: wle_def writes_Nil_eq_Some)

lemma wle_Cons: "wle w a \<Longrightarrow> wle (writes ws) b \<Longrightarrow> wle (writes (w # ws)) (a + b)"
  by (fastforce simp: wle_def writes_eq_Some)

lemma wle_Some: "wle (Some bs) (length bs)"
  by (simp add: wle_def)

lemma wle_parts:
  "wle (VarInt_encode v) 8" "wle (write_varn n) 8" "wle (StreamId_encode i) 8" "wle (PathId_encode p) 8"
  "wle (do { n \<leftarrow> csub a b; write_varn n }) 8"
  by (auto simp: wle_def dest: length_bounds elim!: bind_Some_elim)

lemma wle_FrameType:
  "wle (FrameType_encode t) (let n = FrameType_to_u64 t in
     if n < 64 then 1 else if n < 16384 then 2 else if n < 1073741824 then 4 else 8)"
  by (auto simp: wle_def Let_def dest!: length_FrameType)

lemma wle_IpAddr: "IpAddr_ok ip \<Longrightarrow> wle (IpAddr_encode ip) (if is_ipv6 ip then 16 else 4)"
  by (cases ip) (auto simp: wle_def IpAddr_encode_def is_ipv6_def)

lemmas wle_rules = wle_Nil wle_Cons wle_Some wle_parts wle_FrameType wle_IpAddr

lemma wle_append: "wle (writes xs) a \<Longrightarrow> wle (writes ys) b \<Longrightarrow> wle (writes (xs @ ys)) (a + b)"
  unfolding writes_append by (rule wle_Cons)

lemma wle_optional: "wle w a \<Longrightarrow> wle (writes (if c then [w] else [])) a"
  by (auto simp: wle_def writes_eq_Some writes_Nil_eq_Some)

lemma wle_optional_path: "wle (writes (case po of Some p \<Rightarrow> [PathId_encode p] | None \<Rightarrow> [])) (if po \<noteq> None then 8 else 0)"
  using wle_parts(4) by (auto simp: wle_def writes_eq_Some writes_Nil_eq_Some split: option.splits)

lemma wle_StreamMeta: "wle (StreamMetaEncoder_encode m el) (1 + 8 + 8 + 8)"
proof -
  have "StreamInfo_to_u64 (StreamMeta_get_type m el) < 64"
    using StreamMeta_get_type_flags(4) [of m el] by (auto simp: StreamInfo_VALUES_def)
  then have ty: "wle (write_varn (StreamInfo_to_u64 (StreamMeta_get_type m el))) 1"
    by (auto simp: wle_def dest: length_write_varn)
  show ?thesis
    unfolding StreamMetaEncoder_encode_def
    by (rule wle_le [OF wle_append [OF wle_Cons [OF ty wle_Cons [OF wle_parts(3) wle_Nil]]
              wle_append [OF wle_optional [OF wle_parts(2)] wle_optional [OF wle_parts(5)]]]]) simp
qed

lemma wle_frames:
  "wle (ResetStream_encode rs) (1 + 8 + 8 + 8)" "wle (StopSending_encode ss) (1 + 8 + 8)"
  "wle (PathChallenge_encode x) 9" "wle (PathResponse_encode x) 9"
  "wle (MaxPathId_encode p) (2 + 8)" "wle (PathsBlocked_encode p) (2 + 8)" "wle (PathCidsBlocked_encode p sq) (2 + 8 + 8)"
  "wle (PathAbandon_encode p code) (2 + 8 + 8)" "wle (PathStatusAvailable_encode p sq) (2 + 8 + 8)"
  "wle (RemoveAddress_encode sq) (4 + 8)" "wle (MaxData_encode v) 9" "wle (MaxStreamData_encode i off) 17"
  "wle (Crypto_encode off data) (17 + length data)" "wle (Datagram_encode data) (1 + 8 + length data)"
  unfolding ResetStream_encode_def StopSending_encode_def PathChallenge_encode_def PathResponse_encode_def
    MaxPathId_encode_def PathsBlocked_encode_def PathCidsBlocked_encode_def PathAbandon_encode_def
    PathStatusAvailable_encode_def RemoveAddress_encode_def MaxData_encode_def MaxStreamData_encode_def
    Crypto_encode_def Datagram_encode_def
  by (rule wle_le, (rule wle_rules)+, simp)+

lemma wle_dir_frames: "wle (MaxStreams_encode dir n) 9" "wle (StreamsBlocked_encode dir n) 9"
  unfolding MaxStreams_encode_def StreamsBlocked_encode_def MaxStreams_get_type_def StreamsBlocked_get_type_def
  by (rule wle_le, (rule wle_rules)+, simp add: Let_def split: Dir.splits)+

lemma wle_AddAddress: "AddrFrame_ok f \<Longrightarrow> wle (AddAddress_encode f) (4 + 8 + 16 + 2)"
  unfolding AddAddress_encode_def AddAddress_get_type_def
  by (rule wle_le, (rule wle_rules | (simp add: AddrFrame_ok_def; fail))+)

lemma wle_RetireConnectionId:
  "wle (RetireConnectionId_encode f) (RetireConnectionId_size_bound (rcid_path_id f \<noteq> None))"
  unfolding RetireConnectionId_encode_def RetireConnectionId_get_type_def RetireConnectionId_size_bound_def
  by (rule wle_le [OF wle_append [OF wle_Cons [OF wle_FrameType wle_Nil]
            wle_append [OF wle_optional_path wle_Cons [OF wle_parts(2) wle_Nil]]]]) simp

lemma wle_NewConnectionId:
  assumes "length (ncid_reset_token f) = RESET_TOKEN_SIZE"
  shows "wle (NewConnectionId_encode f) (NewConnectionId_size_bound (ncid_path_id f \<noteq> None) (length (ncid_id f)))"
proof -
  have "wle (writes [write_varn (ncid_sequence f), write_varn (ncid_retire_prior_to f),
      Some (put_u8 (of_nat (length (ncid_id f)))), Some (put_slice (ncid_id f)), Some (put_slice (ncid_reset_token f))])
      (8 + 8 + 1 + length (ncid_id f) + 16)"
    by (rule wle_le, (rule wle_rules)+, simp add: assms RESET_TOKEN_SIZE_def)
  from wle_append [OF wle_Cons [OF wle_FrameType wle_Nil] wle_append [OF wle_optional_path this]] show ?thesis
    unfolding NewConnectionId_encode_def NewConnectionId_get_type_def NewConnectionId_size_bound_def
    by (rule wle_le) simp
qed

lemma wle_sized:
  assumes "EncodableFrame_ok f d" and "frame_size_bound f = Some n"
  shows "wle (EncodableFrame_encode f) n"
  using assms wle_frames wle_dir_frames wle_StreamMeta wle_RetireConnectionId
  by (cases f) (auto simp: wle_AddAddress [simplified] wle_NewConnectionId [simplified])

section \<open>Properties\<close>

text \<open>
  C9: frames written into a packet are read back.  When every frame is encodable, only the last
  STREAM frame omits its length and padding follows only frames that carry their length, then
  encoding does not panic and the receiver's iterator yields exactly the frames that were sent,
  in order, followed by the padding, and no error.
\<close>

theorem payload_roundtrip:
  assumes "\<forall>(f, d) \<in> set items. EncodableFrame_ok f d"
    and "\<forall>(f, d) \<in> set (butlast items). sent_delimited f"
    and "k = 0 \<or> (\<forall>(f, d) \<in> set items. sent_delimited f)"
  shows "\<exists>payload. writes (map (\<lambda>(f, d). sent_bytes f d) items) = Some payload \<and>
     (case Iter_new (payload @ replicate k 0) of
        Inl err \<Rightarrow> err = PROTOCOL_VIOLATION \<and> items = [] \<and> k = 0
      | Inr it \<Rightarrow> Iter_frames it =
          map (\<lambda>(f, d). Inr (EncodableFrame_frame f d)) items @ replicate k (Inr Padding))"
proof -
  obtain payload where payload: "writes (map (\<lambda>(f, d). sent_bytes f d) items) = Some payload"
    and iter: "\<And>ty. Iter_frames \<lparr>it_bytes = payload @ replicate k 0, it_last_ty = ty\<rparr> =
        map (\<lambda>(f, d). Inr (EncodableFrame_frame f d)) items @ replicate k (Inr Padding)"
    using Iter_frames_sent [OF assms] by blast
  have "items = [] \<and> k = 0" if "payload @ replicate k 0 = []"
    using iter [of MF_None] that Iter_frames_Nil [of "\<lparr>it_bytes = [], it_last_ty = MF_None\<rparr>"] by simp
  then show ?thesis
    using payload iter by (auto simp: Iter_new_def)
qed

theorem payload_roundtrip_witness:
  "\<exists>payload. writes (map (\<lambda>(f, d). sent_bytes f d)
      [(EAck 7 [(2, 4), (9, 10)] None, []),
       (EStreamMeta \<lparr>sm_id = StreamId 4, sm_offsets = (5, 7), sm_fin = True\<rparr> False, [1, 2])]) = Some payload \<and>
     (case Iter_new (payload @ replicate 0 0) of
        Inl err \<Rightarrow> False
      | Inr it \<Rightarrow> Iter_frames it =
          [Inr (FAck \<lparr>ack_largest = 9, ack_delay = 7, ack_ranges = [(2, 4), (9, 10)], ack_ecn = None\<rparr>),
           Inr (Stream \<lparr>sf_id = StreamId 4, sf_offset = 5, sf_fin = True, sf_data = [1, 2]\<rparr>)])"
  using payload_roundtrip [of "[(EAck 7 [(2, 4), (9, 10)] None, []),
       (EStreamMeta \<lparr>sm_id = StreamId 4, sm_offsets = (5, 7), sm_fin = True\<rparr> False, [1, 2])]" 0]
  by (auto simp: ack_ranges_ok_def StreamMeta_ok_def sent_delimited_def stream_frame_def split: sum.splits)

text \<open>
  C33: whatever bytes arrive, every frame the iterator yields is well-formed: identifiers, offsets
  and counters are within the range of variable-length integers, the ranges of an acknowledgement
  are in canonical form, not empty and end at its largest packet number, and connection ids have a
  legal length and are not retired before they are issued.
\<close>

theorem decoded_frames_ok:
  "list_all (\<lambda>x. case x of Inl _ \<Rightarrow> True | Inr f \<Rightarrow> Frame_ok f) (Iter_frames it)"
proof (induction it rule: Iter_frames.induct)
  case (1 it)
  show ?case
  proof (cases "it_bytes it = []")
    case False
    show ?thesis
    proof (cases "frame_parser (it_bytes it)")
      case (Inl e)
      from Iter_next_error [OF Inl False] show ?thesis
        by (subst Iter_frames.simps) (auto simp: Iter_frames_Nil)
    next
      case (Inr p)
      then obtain f r where p: "frame_parser (it_bytes it) = Inr (f, r)"
        by (cases p) auto
      then have "Frame_ok f"
        using yields_frame by (auto simp: yields_def)
      with Iter_next_ok [OF p] 1 show ?thesis
        by (subst Iter_frames.simps) auto
    qed
  qed (simp add: Iter_frames_Nil)
qed

text \<open>
  C34: iterating over a payload ends, with at most one item per byte, and an error is the last item:
  nothing behind a corrupt frame is interpreted.
\<close>

theorem Iter_terminates:
  "length (Iter_frames it) \<le> length (it_bytes it) \<and>
   list_all (\<lambda>x. case x of Inl _ \<Rightarrow> False | Inr _ \<Rightarrow> True) (butlast (Iter_frames it))"
proof (induction it rule: Iter_frames.induct)
  case (1 it)
  show ?case
  proof (cases "it_bytes it = []")
    case False
    show ?thesis
    proof (cases "frame_parser (it_bytes it)")
      case (Inl e)
      from Iter_next_error [OF Inl False] False show ?thesis
        by (subst (1 2) Iter_frames.simps) (auto simp: Iter_frames_Nil Suc_le_eq)
    next
      case (Inr p)
      then obtain f r where p: "frame_parser (it_bytes it) = Inr (f, r)"
        by (cases p) auto
      from Iter_next_ok [OF p] 1 frame_parser_shorter [OF p] show ?thesis
        by (subst (1 2) Iter_frames.simps) (auto simp: Suc_le_eq)
    qed
  qed (simp add: Iter_frames_Nil)
qed




end
