(* ===== verification/Packet_Builder.thy ===== *)
theory Packet_Builder
  imports Transmit_Buf Retransmits Frame_Payload
begin

text \<open>
  Building a packet (\<open>noq-proto/src/connection/packet_builder.rs\<close>): writing frames within the
  space of the datagram, recording them, padding and finishing.  The header is written by
  \<open>PacketBuilder::new\<close>, which needs the connection; the model starts behind it, with the offset at
  which the packet starts.  Encryption in place is the parameter \<open>protect\<close>.
\<close>

section \<open>Definitions\<close>

record PacketBuilder =
  pb_buf :: TransmitBuf
  pb_start :: nat
  pb_ack_eliciting :: bool
  pb_min_size :: nat
  pb_tag_len :: nat
  pb_sent_frames :: SentFrames

definition pb_len :: "PacketBuilder \<Rightarrow> nat" where
  "pb_len b = length (tb_buf (pb_buf b))"

definition frame_space_remaining :: "PacketBuilder \<Rightarrow> nat option" where
  "frame_space_remaining b = do {
     max_offset \<leftarrow> csub (datagram_max_offset (pb_buf b)) (pb_tag_len b);
     Some (max_offset - pb_len b) }"

text \<open>The frame is written through a view of the buffer limited to the remaining space, which panics beyond it.\<close>

definition write_frame :: "EncodableFrame \<Rightarrow> PacketBuilder \<Rightarrow> PacketBuilder option" where
  "write_frame frame b = do {
     space \<leftarrow> frame_space_remaining b;
     bs \<leftarrow> EncodableFrame_encode frame;
     assert_opt (length bs \<le> space);
     sent \<leftarrow> record_sent_frame frame (pb_sent_frames b);
     Some (b\<lparr>pb_buf := tb_put bs (pb_buf b),
             pb_ack_eliciting := (pb_ack_eliciting b \<or> EncodableFrame_is_ack_eliciting frame),
             pb_sent_frames := sent\<rparr>) }"

definition pad_to :: "nat \<Rightarrow> PacketBuilder \<Rightarrow> PacketBuilder option" where
  "pad_to min_size b = do {
     n \<leftarrow> csub (tb_datagram_start (pb_buf b) + min_size) (pb_tag_len b);
     Some (b\<lparr>pb_min_size := max (pb_min_size b) n\<rparr>) }"

definition predict_packet_end :: "PacketBuilder \<Rightarrow> nat" where
  "predict_packet_end b = max (pb_len b) (pb_min_size b) + pb_tag_len b - pb_len b"

definition require_padding :: "PacketBuilder \<Rightarrow> PacketBuilder" where
  "require_padding b = b\<lparr>pb_sent_frames := (pb_sent_frames b)\<lparr>sfr_requires_padding := True\<rparr>\<rparr>"

definition finish :: "(byte list \<Rightarrow> byte list) \<Rightarrow> PacketBuilder \<Rightarrow> (nat \<times> bool \<times> SentFrames \<times> TransmitBuf) option" where
  "finish protect b = do {
     max_offset \<leftarrow> csub (datagram_max_offset (pb_buf b)) (pb_tag_len b);
     assert_opt (pb_len b \<le> max_offset);
     let pad = (pb_len b < pb_min_size b);
     let buf = tb_put (replicate (pb_min_size b - pb_len b) 0) (pb_buf b);
     let buf = tb_put (replicate (pb_tag_len b) 0) buf;
     let bytes = take (pb_start b) (tb_buf buf) @ protect (drop (pb_start b) (tb_buf buf));
     packet_len \<leftarrow> csub (length (tb_buf buf)) (pb_start b);
     Some (packet_len, pad, pb_sent_frames b, buf\<lparr>tb_buf := bytes\<rparr>) }"

datatype PadDatagram = PadNo | ToSize nat | ToSegmentSize | ToMinMtu

fun PadDatagram_bitor :: "PadDatagram \<Rightarrow> PadDatagram \<Rightarrow> PadDatagram" where
  "PadDatagram_bitor PadNo rhs = rhs"
| "PadDatagram_bitor (ToSize a) PadNo = ToSize a"
| "PadDatagram_bitor (ToSize a) (ToSize b) = ToSize (max a b)"
| "PadDatagram_bitor (ToSize a) ToSegmentSize = ToSegmentSize"
| "PadDatagram_bitor (ToSize a) ToMinMtu = ToMinMtu"
| "PadDatagram_bitor ToSegmentSize PadNo = ToSegmentSize"
| "PadDatagram_bitor ToSegmentSize (ToSize _) = ToSegmentSize"
| "PadDatagram_bitor ToSegmentSize ToSegmentSize = ToSegmentSize"
| "PadDatagram_bitor ToSegmentSize ToMinMtu = ToMinMtu"
| "PadDatagram_bitor ToMinMtu _ = ToMinMtu"

section \<open>Writing within the packet\<close>

declare writes.simps [simp del]

definition pb_room :: "PacketBuilder \<Rightarrow> nat" where
  "pb_room b = tb_buf_capacity (pb_buf b) - pb_tag_len b - pb_len b"

definition pb_ok :: "PacketBuilder \<Rightarrow> bool" where
  "pb_ok b \<longleftrightarrow> pb_tag_len b \<le> tb_buf_capacity (pb_buf b) \<and> pb_len b \<le> tb_buf_capacity (pb_buf b) - pb_tag_len b"

lemma frame_space_remaining_room: "pb_ok b \<Longrightarrow> frame_space_remaining b = Some (pb_room b)"
  by (simp add: pb_ok_def frame_space_remaining_def pb_room_def datagram_max_offset_def)

lemma write_frame_ok:
  assumes "pb_ok b" and "EncodableFrame_encode f = Some bs" and "length bs \<le> pb_room b"
    and "record_sent_frame f (pb_sent_frames b) = Some s"
  shows "\<exists>b'. write_frame f b = Some b' \<and> pb_ok b' \<and> pb_room b' = pb_room b - length bs \<and>
     tb_buf (pb_buf b') = tb_buf (pb_buf b) @ bs \<and> pb_sent_frames b' = s \<and>
     tb_buf_capacity (pb_buf b') = tb_buf_capacity (pb_buf b) \<and> pb_tag_len b' = pb_tag_len b \<and> pb_start b' = pb_start b"
  using assms
  by (auto simp: write_frame_def frame_space_remaining_room pb_ok_def pb_room_def tb_put_def pb_len_def)

text \<open>There is room for a frame when there is room for its declared size.\<close>

lemma write_frame_sized:
  assumes "pb_ok b" and "EncodableFrame_ok f d" and "sent_delimited f" and "frame_size_bound f = Some n" and "n \<le> pb_room b"
  shows "\<exists>b' bs. write_frame f b = Some b' \<and> pb_ok b' \<and> EncodableFrame_encode f = Some bs \<and> length bs \<le> n \<and>
     pb_room b' = pb_room b - length bs \<and> tb_buf (pb_buf b') = tb_buf (pb_buf b) @ bs \<and>
     record_sent_frame f (pb_sent_frames b) = Some (pb_sent_frames b') \<and>
     tb_buf_capacity (pb_buf b') = tb_buf_capacity (pb_buf b) \<and> pb_tag_len b' = pb_tag_len b \<and> pb_start b' = pb_start b"
proof -
  obtain bs where bs: "EncodableFrame_encode f = Some bs"
    using encp_sent [OF assms(2,3)] by (auto simp: encp_def sent_bytes_def writes_eq_Some)
  moreover from this have len: "length bs \<le> n"
    using wle_sized [OF assms(2,4)] by (simp add: wle_def)
  moreover obtain s where "record_sent_frame f (pb_sent_frames b) = Some s"
    using assms(4) by (cases f) auto
  ultimately show ?thesis
    using write_frame_ok [of b f bs s] assms(1,5) by fastforce
qed

lemma pb_put_ok:
  assumes "pb_ok b" and "length d \<le> pb_room b"
  shows "pb_ok (b\<lparr>pb_buf := tb_put d (pb_buf b)\<rparr>)"
    and "pb_room (b\<lparr>pb_buf := tb_put d (pb_buf b)\<rparr>) = pb_room b - length d"
  using assms by (auto simp: pb_ok_def pb_room_def tb_put_def pb_len_def)

text \<open>
  A finished packet: it fits in its datagram when the padding does, has at least the minimum size,
  and has the predicted length.
\<close>

lemma finish_ok:
  assumes "pb_ok b" and "pb_start b \<le> pb_len b" and "pb_min_size b + pb_tag_len b \<le> tb_buf_capacity (pb_buf b)"
    and "\<And>bs. length (protect bs) = length bs"
  shows "\<exists>n pad buf. finish protect b = Some (n, pad, pb_sent_frames b, buf) \<and>
     length (tb_buf buf) = pb_len b + predict_packet_end b \<and> length (tb_buf buf) \<le> tb_buf_capacity (pb_buf b) \<and>
     pb_min_size b + pb_tag_len b \<le> length (tb_buf buf) \<and> pad = (pb_len b < pb_min_size b) \<and>
     n = length (tb_buf buf) - pb_start b \<and> take (pb_start b) (tb_buf buf) = take (pb_start b) (tb_buf (pb_buf b))"
  using assms
  by (auto simp: finish_def pb_ok_def pb_len_def tb_put_def datagram_max_offset_def predict_packet_end_def max_def)

end
