(* ===== verification/Pending_Queue.thy ===== *)
theory Pending_Queue
  imports Stream_Id
begin

text \<open>
  The queue of streams with data to send (\<open>PendingStreamsQueue\<close> in
  \<open>noq-proto/src/connection/streams/mod.rs\<close>).  The binary heap is the list of its elements in the
  order it yields them, greatest first; it implements a stable priority queue.
\<close>

section \<open>Definitions\<close>

record PendingStream =
  ps_priority :: int
  ps_recency :: nat
  ps_id :: StreamId

text \<open>The derived order: by priority, then recency, then id.\<close>

definition ps_less :: "PendingStream \<Rightarrow> PendingStream \<Rightarrow> bool" where
  "ps_less a b \<longleftrightarrow> ps_priority a < ps_priority b \<or>
     ps_priority a = ps_priority b \<and> (ps_recency a < ps_recency b \<or>
       ps_recency a = ps_recency b \<and> sid (ps_id a) < sid (ps_id b))"

fun pending_push :: "PendingStream \<Rightarrow> PendingStream list \<Rightarrow> PendingStream list" where
  "pending_push x [] = [x]"
| "pending_push x (y # ys) = (if ps_less y x then x # y # ys else y # pending_push x ys)"

record PendingStreamsQueue =
  pq_streams :: "PendingStream list"
  pq_next :: "PendingStream option"
  pq_recency :: nat

definition pq_new :: PendingStreamsQueue where
  "pq_new = \<lparr>pq_streams = [], pq_next = None, pq_recency = u64_max\<rparr>"

definition reinsert_pending :: "StreamId \<Rightarrow> int \<Rightarrow> PendingStreamsQueue \<Rightarrow> PendingStreamsQueue option" where
  "reinsert_pending i priority q = do {
     assert_opt (pq_next q = None);
     Some (q\<lparr>pq_next := Some \<lparr>ps_priority = priority, ps_recency = pq_recency q, ps_id = i\<rparr>\<rparr>) }"

definition push_pending :: "StreamId \<Rightarrow> int \<Rightarrow> PendingStreamsQueue \<Rightarrow> PendingStreamsQueue option" where
  "push_pending i priority q = do {
     recency \<leftarrow> csub (pq_recency q) 1;
     Some (q\<lparr>pq_recency := recency,
             pq_streams := pending_push \<lparr>ps_priority = priority, ps_recency = recency, ps_id = i\<rparr> (pq_streams q)\<rparr>) }"

definition pq_pop :: "PendingStreamsQueue \<Rightarrow> PendingStream option \<times> PendingStreamsQueue" where
  "pq_pop q =
     (case pq_next q of
        Some x \<Rightarrow> (Some x, q\<lparr>pq_next := None\<rparr>)
      | None \<Rightarrow> (case pq_streams q of [] \<Rightarrow> (None, q) | x # xs \<Rightarrow> (Some x, q\<lparr>pq_streams := xs\<rparr>)))"

definition pq_clear :: "PendingStreamsQueue \<Rightarrow> PendingStreamsQueue" where
  "pq_clear q = q\<lparr>pq_next := None, pq_streams := []\<rparr>"

definition pq_iter :: "PendingStreamsQueue \<Rightarrow> PendingStream list" where
  "pq_iter q = (case pq_next q of Some x \<Rightarrow> [x] | None \<Rightarrow> []) @ pq_streams q"

section \<open>A stable priority queue\<close>

text \<open>The abstract queue: entries by descending priority, each class in the order of arrival.\<close>

definition stable_insert :: "int \<times> StreamId \<Rightarrow> (int \<times> StreamId) list \<Rightarrow> (int \<times> StreamId) list" where
  "stable_insert x xs = takeWhile (\<lambda>y. fst x \<le> fst y) xs @ x # dropWhile (\<lambda>y. fst x \<le> fst y) xs"

definition pq_abs :: "PendingStreamsQueue \<Rightarrow> (int \<times> StreamId) list" where
  "pq_abs q = map (\<lambda>p. (ps_priority p, ps_id p)) (pq_iter q)"

definition pq_inv :: "PendingStreamsQueue \<Rightarrow> bool" where
  "pq_inv q \<longleftrightarrow> sorted_wrt (\<lambda>a b. ps_priority b \<le> ps_priority a) (pq_streams q) \<and>
     (\<forall>p \<in> set (pq_streams q). pq_recency q \<le> ps_recency p)"

lemma pq_inv_new: "pq_inv pq_new"
  by (simp add: pq_inv_def pq_new_def)

lemma set_pending_push [simp]: "set (pending_push x xs) = insert x (set xs)"
  by (induction xs) auto

lemma pending_push_abs:
  assumes "sorted_wrt (\<lambda>a b. ps_priority b \<le> ps_priority a) xs" and "\<forall>p \<in> set xs. ps_recency x < ps_recency p"
  shows "map (\<lambda>p. (ps_priority p, ps_id p)) (pending_push x xs) =
     stable_insert (ps_priority x, ps_id x) (map (\<lambda>p. (ps_priority p, ps_id p)) xs)"
    and "sorted_wrt (\<lambda>a b. ps_priority b \<le> ps_priority a) (pending_push x xs)"
  using assms by (induction xs) (auto simp: stable_insert_def ps_less_def)

lemma push_pending_spec:
  assumes "pq_inv q" and "0 < pq_recency q"
  shows "\<exists>q'. push_pending i pr q = Some q' \<and> pq_inv q' \<and> pq_next q' = pq_next q \<and>
     pq_recency q' = pq_recency q - 1 \<and> set (map ps_id (pq_streams q')) = insert i (set (map ps_id (pq_streams q))) \<and>
     map (\<lambda>p. (ps_priority p, ps_id p)) (pq_streams q') =
       stable_insert (pr, i) (map (\<lambda>p. (ps_priority p, ps_id p)) (pq_streams q))"
proof -
  define x where "x = \<lparr>ps_priority = pr, ps_recency = pq_recency q - 1, ps_id = i\<rparr>"
  have "\<forall>p \<in> set (pq_streams q). ps_recency x < ps_recency p"
    using assms by (auto simp: pq_inv_def x_def)
  moreover have "sorted_wrt (\<lambda>a b. ps_priority b \<le> ps_priority a) (pq_streams q)"
    using assms by (simp add: pq_inv_def)
  ultimately show ?thesis
    using pending_push_abs [of "pq_streams q" x] assms
    by (auto simp: push_pending_def x_def [symmetric] pq_inv_def) (auto simp: x_def)
qed

lemma pq_pop_inv: "pq_inv q \<Longrightarrow> pq_pop q = (r, q') \<Longrightarrow> pq_inv q' \<and> pq_recency q' = pq_recency q"
  by (auto simp: pq_pop_def pq_inv_def split: option.splits list.splits)



end
