(* ===== verification/Transport_Parameters.thy ===== *)
theory Transport_Parameters
  imports Frame_Type Transport_Error
begin

text \<open>
  Transport parameters (\<open>noq-proto/src/transport_parameters.rs\<close>, the roles of
  \<open>noq-proto/src/address_discovery.rs\<close>): the values, their validation, writing and reading.

  The integer parameters, which the source generates with the macro \<open>apply_params\<close>, are one
  field that is indexed by the parameter.  Random choices are arguments.
\<close>

section \<open>Definitions\<close>

subsection \<open>Address discovery roles\<close>

datatype Role = SendOnly | ReceiveOnly | Both | Disabled

datatype ParamError = IllegalValue | MalformedParam

definition ParamError_into :: "ParamError \<Rightarrow> TransportError" where
  "ParamError_into e = TRANSPORT_PARAMETER_ERROR"

definition Role_try_from :: "VarInt \<Rightarrow> ParamError + Role" where
  "Role_try_from value =
     (if into_inner value = 0 then Inr SendOnly
      else if into_inner value = 1 then Inr ReceiveOnly
      else if into_inner value = 2 then Inr Both
      else Inl IllegalValue)"

definition Role_as_transport_parameter :: "Role \<Rightarrow> VarInt option" where
  "Role_as_transport_parameter r =
     (case r of SendOnly \<Rightarrow> Some (VarInt 0) | ReceiveOnly \<Rightarrow> Some (VarInt 1) | Both \<Rightarrow> Some (VarInt 2) | Disabled \<Rightarrow> None)"

definition Role_is_reporter :: "Role \<Rightarrow> bool" where
  "Role_is_reporter r = (r = SendOnly \<or> r = Both)"

definition Role_receives_reports :: "Role \<Rightarrow> bool" where
  "Role_receives_reports r = (r = ReceiveOnly \<or> r = Both)"

definition Role_should_report :: "Role \<Rightarrow> Role \<Rightarrow> bool" where
  "Role_should_report self other = (Role_is_reporter self \<and> Role_receives_reports other)"

definition Role_send_reports_to_peers :: "bool \<Rightarrow> Role \<Rightarrow> Role" where
  "Role_send_reports_to_peers provide r =
     (if provide
      then case r of SendOnly \<Rightarrow> SendOnly | ReceiveOnly \<Rightarrow> Both | Both \<Rightarrow> Both | Disabled \<Rightarrow> SendOnly
      else case r of SendOnly \<Rightarrow> Disabled | ReceiveOnly \<Rightarrow> ReceiveOnly | Both \<Rightarrow> ReceiveOnly | Disabled \<Rightarrow> Disabled)"

definition Role_receive_reports_from_peers :: "bool \<Rightarrow> Role \<Rightarrow> Role" where
  "Role_receive_reports_from_peers receive r =
     (if receive
      then case r of SendOnly \<Rightarrow> Both | ReceiveOnly \<Rightarrow> ReceiveOnly | Both \<Rightarrow> Both | Disabled \<Rightarrow> ReceiveOnly
      else case r of SendOnly \<Rightarrow> SendOnly | ReceiveOnly \<Rightarrow> Disabled | Both \<Rightarrow> SendOnly | Disabled \<Rightarrow> Disabled)"

subsection \<open>The parameters\<close>

datatype IntParam =
    MaxIdleTimeout | MaxUdpPayloadSize | InitialMaxData | InitialMaxStreamDataBidiLocal
  | InitialMaxStreamDataBidiRemote | InitialMaxStreamDataUni | InitialMaxStreamsBidi
  | InitialMaxStreamsUni | AckDelayExponent | MaxAckDelay | ActiveConnectionIdLimit

datatype TransportParameterId =
    TpInt IntParam | OriginalDestinationConnectionId | StatelessResetToken | DisableActiveMigration
  | PreferredAddressId | InitialSourceConnectionId | RetrySourceConnectionId
  | ReservedTransportParameterId | MaxDatagramFrameSize | GreaseQuicBit | MinAckDelayDraft07
  | ObservedAddrId | InitialMaxPathId | N0NatTraversal

fun TransportParameterId_code :: "TransportParameterId \<Rightarrow> nat" where
  "TransportParameterId_code OriginalDestinationConnectionId = 0x00"
| "TransportParameterId_code (TpInt MaxIdleTimeout) = 0x01"
| "TransportParameterId_code StatelessResetToken = 0x02"
| "TransportParameterId_code (TpInt MaxUdpPayloadSize) = 0x03"
| "TransportParameterId_code (TpInt InitialMaxData) = 0x04"
| "TransportParameterId_code (TpInt InitialMaxStreamDataBidiLocal) = 0x05"
| "TransportParameterId_code (TpInt InitialMaxStreamDataBidiRemote) = 0x06"
| "TransportParameterId_code (TpInt InitialMaxStreamDataUni) = 0x07"
| "TransportParameterId_code (TpInt InitialMaxStreamsBidi) = 0x08"
| "TransportParameterId_code (TpInt InitialMaxStreamsUni) = 0x09"
| "TransportParameterId_code (TpInt AckDelayExponent) = 0x0A"
| "TransportParameterId_code (TpInt MaxAckDelay) = 0x0B"
| "TransportParameterId_code DisableActiveMigration = 0x0C"
| "TransportParameterId_code PreferredAddressId = 0x0D"
| "TransportParameterId_code (TpInt ActiveConnectionIdLimit) = 0x0E"
| "TransportParameterId_code InitialSourceConnectionId = 0x0F"
| "TransportParameterId_code RetrySourceConnectionId = 0x10"
| "TransportParameterId_code ReservedTransportParameterId = 0x1B"
| "TransportParameterId_code MaxDatagramFrameSize = 0x20"
| "TransportParameterId_code GreaseQuicBit = 0x2AB2"
| "TransportParameterId_code MinAckDelayDraft07 = 0xFF04DE1B"
| "TransportParameterId_code ObservedAddrId = 0x9f81a176"
| "TransportParameterId_code InitialMaxPathId = 0x3e"
| "TransportParameterId_code N0NatTraversal = 0x3d7f91120401"

definition SUPPORTED :: "TransportParameterId list" where
  "SUPPORTED =
     [TpInt MaxIdleTimeout, TpInt MaxUdpPayloadSize, TpInt InitialMaxData,
      TpInt InitialMaxStreamDataBidiLocal, TpInt InitialMaxStreamDataBidiRemote,
      TpInt InitialMaxStreamDataUni, TpInt InitialMaxStreamsBidi, TpInt InitialMaxStreamsUni,
      TpInt AckDelayExponent, TpInt MaxAckDelay, TpInt ActiveConnectionIdLimit,
      ReservedTransportParameterId, StatelessResetToken, DisableActiveMigration, MaxDatagramFrameSize,
      PreferredAddressId, OriginalDestinationConnectionId, InitialSourceConnectionId,
      RetrySourceConnectionId, GreaseQuicBit, MinAckDelayDraft07, ObservedAddrId, InitialMaxPathId,
      N0NatTraversal]"

definition TransportParameterId_try_from :: "nat \<Rightarrow> TransportParameterId option" where
  "TransportParameterId_try_from value = List.find (\<lambda>p. TransportParameterId_code p = value) SUPPORTED"

fun int_default :: "IntParam \<Rightarrow> VarInt" where
  "int_default MaxUdpPayloadSize = VarInt 65527"
| "int_default AckDelayExponent = VarInt 3"
| "int_default MaxAckDelay = VarInt 25"
| "int_default ActiveConnectionIdLimit = VarInt 2"
| "int_default _ = VarInt 0"

text \<open>Socket addresses are the octets of the address and the port.\<close>

record PreferredAddress =
  pra_address_v4 :: "(byte list \<times> u16) option"
  pra_address_v6 :: "(byte list \<times> u16) option"
  pra_connection_id :: ConnectionId
  pra_stateless_reset_token :: "byte list"

record ReservedTransportParameter =
  rtp_id :: nat
  rtp_payload :: "byte list"
  rtp_payload_len :: nat

record TransportParameters =
  tp_int :: "IntParam \<Rightarrow> VarInt"
  tp_disable_active_migration :: bool
  tp_max_datagram_frame_size :: "VarInt option"
  tp_initial_src_cid :: "ConnectionId option"
  tp_grease_quic_bit :: bool
  tp_min_ack_delay :: "VarInt option"
  tp_original_dst_cid :: "ConnectionId option"
  tp_retry_src_cid :: "ConnectionId option"
  tp_stateless_reset_token :: "byte list option"
  tp_preferred_address :: "PreferredAddress option"
  tp_grease_transport_parameter :: "ReservedTransportParameter option"
  tp_write_order :: "nat list option"
  tp_address_discovery_role :: Role
  tp_initial_max_path_id :: "PathId option"
  tp_max_remote_nat_traversal_addresses :: "byte option"

definition TransportParameters_default :: TransportParameters where
  "TransportParameters_default =
     \<lparr>tp_int = int_default, tp_disable_active_migration = False, tp_max_datagram_frame_size = None,
      tp_initial_src_cid = None, tp_grease_quic_bit = False, tp_min_ack_delay = None,
      tp_original_dst_cid = None, tp_retry_src_cid = None, tp_stateless_reset_token = None,
      tp_preferred_address = None, tp_grease_transport_parameter = None, tp_write_order = None,
      tp_address_discovery_role = Disabled, tp_initial_max_path_id = None,
      tp_max_remote_nat_traversal_addresses = None\<rparr>"

text \<open>The comparison of optional values puts \<open>None\<close> first.\<close>

definition opt_gt :: "VarInt option \<Rightarrow> VarInt option \<Rightarrow> bool" where
  "opt_gt a b =
     (case a of None \<Rightarrow> False | Some x \<Rightarrow> (case b of None \<Rightarrow> True | Some y \<Rightarrow> into_inner x > into_inner y))"

definition validate_resumption_from :: "TransportParameters \<Rightarrow> TransportParameters \<Rightarrow> TransportError + unit" where
  "validate_resumption_from cached self =
     (let gt = (\<lambda>i. into_inner (tp_int cached i) > into_inner (tp_int self i)) in
      if gt ActiveConnectionIdLimit \<or> gt InitialMaxData \<or> gt InitialMaxStreamDataBidiLocal \<or>
         gt InitialMaxStreamDataBidiRemote \<or> gt InitialMaxStreamDataUni \<or> gt InitialMaxStreamsBidi \<or>
         gt InitialMaxStreamsUni \<or>
         opt_gt (tp_max_datagram_frame_size cached) (tp_max_datagram_frame_size self) \<or>
         tp_grease_quic_bit cached \<and> \<not> tp_grease_quic_bit self \<or>
         tp_address_discovery_role cached \<noteq> tp_address_discovery_role self \<or>
         tp_max_remote_nat_traversal_addresses cached \<noteq> tp_max_remote_nat_traversal_addresses self
      then Inl PROTOCOL_VIOLATION
      else Inr ())"

definition LOCAL_CID_COUNT :: nat where
  "LOCAL_CID_COUNT = 12"

definition issue_cids_limit :: "TransportParameters \<Rightarrow> nat" where
  "issue_cids_limit self = min (unat (into_inner (tp_int self ActiveConnectionIdLimit))) LOCAL_CID_COUNT"

subsection \<open>Preferred addresses\<close>

definition PreferredAddress_wire_size :: "PreferredAddress \<Rightarrow> nat" where
  "PreferredAddress_wire_size self = 4 + 2 + 16 + 2 + 1 + length (pra_connection_id self) + 16"

definition PreferredAddress_write :: "PreferredAddress \<Rightarrow> byte list option" where
  "PreferredAddress_write self = writes
     [Some (case pra_address_v4 self of None \<Rightarrow> replicate 4 0 | Some (ip, _) \<Rightarrow> ip),
      Some (put_u16 (case pra_address_v4 self of None \<Rightarrow> 0 | Some (_, port) \<Rightarrow> port)),
      Some (case pra_address_v6 self of None \<Rightarrow> replicate 16 0 | Some (ip, _) \<Rightarrow> ip),
      Some (put_u16 (case pra_address_v6 self of None \<Rightarrow> 0 | Some (_, port) \<Rightarrow> port)),
      Some (put_u8 (of_nat (length (pra_connection_id self)))),
      Some (put_slice (pra_connection_id self)),
      Some (put_slice (pra_stateless_reset_token self))]"

text \<open>Decoders of parameters: the value and the bytes that are left.\<close>

type_synonym 'a pparser = "byte list \<Rightarrow> ParamError + ('a \<times> byte list)"

definition qget :: "(byte list \<Rightarrow> ('a \<times> byte list) option) \<Rightarrow> 'a pparser" where
  "qget d bs = (case d bs of None \<Rightarrow> Inl MalformedParam | Some r \<Rightarrow> Inr r)"

definition qbind :: "'a pparser \<Rightarrow> ('a \<Rightarrow> 'b pparser) \<Rightarrow> 'b pparser" where
  "qbind p f bs = (case p bs of Inl e \<Rightarrow> Inl e | Inr (x, r) \<Rightarrow> f x r)"

definition qret :: "'a \<Rightarrow> 'a pparser" where
  "qret x bs = Inr (x, bs)"

definition PreferredAddress_read :: "PreferredAddress pparser" where
  "PreferredAddress_read =
     qbind (qget Ipv4Addr_decode) (\<lambda>ip_v4. qbind (qget u16_decode) (\<lambda>port_v4.
     qbind (qget Ipv6Addr_decode) (\<lambda>ip_v6. qbind (qget u16_decode) (\<lambda>port_v6.
     qbind (qget u8_decode) (\<lambda>cid_len.
     (\<lambda>r. let n = unat cid_len in
        if length r < n \<or> n > MAX_CID_SIZE then Inl MalformedParam
        else let cid = take n r; r = drop n r in
          if length r < 16 then Inl MalformedParam
          else let token = take 16 r; r = drop 16 r;
                 address_v4 = (if list_all (\<lambda>b. b = 0) ip_v4 \<and> port_v4 = 0 then None else Some (ip_v4, port_v4));
                 address_v6 = (if list_all (\<lambda>b. b = 0) ip_v6 \<and> port_v6 = 0 then None else Some (ip_v6, port_v6)) in
            if address_v4 = None \<and> address_v6 = None then Inl IllegalValue
            else Inr (\<lparr>pra_address_v4 = address_v4, pra_address_v6 = address_v6, pra_connection_id = cid,
                       pra_stateless_reset_token = token\<rparr>, r)))))))"

subsection \<open>Writing\<close>

definition ReservedTransportParameter_write :: "ReservedTransportParameter \<Rightarrow> byte list option" where
  "ReservedTransportParameter_write self = writes
     [write_varn (rtp_id self), write_varn (rtp_payload_len self),
      (if rtp_payload_len self \<le> length (rtp_payload self)
       then Some (put_slice (take (rtp_payload_len self) (rtp_payload self))) else None)]"

text \<open>The random number is below \<open>2^62 - 27\<close>.\<close>

definition generate_reserved_id :: "nat \<Rightarrow> nat option" where
  "generate_reserved_id rand = do {
     let i = 31 * (rand div 31) + 27;
     assert_opt (i mod 31 = 27);
     assert_opt (i < 2 ^ 62);
     Some i }"

definition write_id :: "TransportParameterId \<Rightarrow> byte list option" where
  "write_id i = write_varn (TransportParameterId_code i)"

definition write_sized :: "TransportParameterId \<Rightarrow> VarInt \<Rightarrow> byte list option" where
  "write_sized i x = writes [write_id i, (case VarInt_size x of None \<Rightarrow> None | Some n \<Rightarrow> write_varn n), VarInt_encode x]"

definition write_cid :: "TransportParameterId \<Rightarrow> ConnectionId \<Rightarrow> byte list option" where
  "write_cid i cid = writes [write_id i, write_varn (length cid), Some (put_slice cid)]"

definition write_param :: "TransportParameters \<Rightarrow> TransportParameterId \<Rightarrow> byte list option" where
  "write_param self i =
     (case i of
        ReservedTransportParameterId \<Rightarrow>
          (case tp_grease_transport_parameter self of None \<Rightarrow> Some [] | Some p \<Rightarrow> ReservedTransportParameter_write p)
      | StatelessResetToken \<Rightarrow>
          (case tp_stateless_reset_token self of None \<Rightarrow> Some []
           | Some x \<Rightarrow> writes [write_id i, write_varn 16, Some (put_slice x)])
      | DisableActiveMigration \<Rightarrow>
          if tp_disable_active_migration self then writes [write_id i, write_varn 0] else Some []
      | MaxDatagramFrameSize \<Rightarrow>
          (case tp_max_datagram_frame_size self of None \<Rightarrow> Some [] | Some x \<Rightarrow> write_sized i x)
      | PreferredAddressId \<Rightarrow>
          (case tp_preferred_address self of None \<Rightarrow> Some []
           | Some x \<Rightarrow> writes [write_id i, write_varn (PreferredAddress_wire_size x), PreferredAddress_write x])
      | OriginalDestinationConnectionId \<Rightarrow>
          (case tp_original_dst_cid self of None \<Rightarrow> Some [] | Some cid \<Rightarrow> write_cid i cid)
      | InitialSourceConnectionId \<Rightarrow>
          (case tp_initial_src_cid self of None \<Rightarrow> Some [] | Some cid \<Rightarrow> write_cid i cid)
      | RetrySourceConnectionId \<Rightarrow>
          (case tp_retry_src_cid self of None \<Rightarrow> Some [] | Some cid \<Rightarrow> write_cid i cid)
      | GreaseQuicBit \<Rightarrow> if tp_grease_quic_bit self then writes [write_id i, write_varn 0] else Some []
      | MinAckDelayDraft07 \<Rightarrow> (case tp_min_ack_delay self of None \<Rightarrow> Some [] | Some x \<Rightarrow> write_sized i x)
      | ObservedAddrId \<Rightarrow>
          (case Role_as_transport_parameter (tp_address_discovery_role self) of None \<Rightarrow> Some []
           | Some x \<Rightarrow> write_sized i x)
      | InitialMaxPathId \<Rightarrow>
          (case tp_initial_max_path_id self of None \<Rightarrow> Some []
           | Some (PathId n) \<Rightarrow> writes [write_id i,
               (case VarInt_size (VarInt (of_nat n)) of None \<Rightarrow> None | Some k \<Rightarrow> write_varn k), PathId_encode (PathId n)])
      | N0NatTraversal \<Rightarrow>
          (case tp_max_remote_nat_traversal_addresses self of None \<Rightarrow> Some []
           | Some val \<Rightarrow> writes [write_id i, VarInt_encode (VarInt 1), Some (put_u8 val)])
      | TpInt n \<Rightarrow>
          if tp_int self n \<noteq> int_default n then write_sized i (tp_int self n) else Some [])"

text \<open>\<open>SUPPORTED[idx]\<close> panics for an index out of range.\<close>

definition TransportParameters_write :: "TransportParameters \<Rightarrow> byte list option" where
  "TransportParameters_write self =
     (let ids = (case tp_write_order self of Some order \<Rightarrow> order | None \<Rightarrow> [0..<length SUPPORTED]) in
      writes (map (\<lambda>idx. if idx < length SUPPORTED then write_param self (SUPPORTED ! idx) else None) ids))"

subsection \<open>Reading\<close>

definition decode_cid :: "nat \<Rightarrow> ConnectionId option \<Rightarrow> ConnectionId option pparser" where
  "decode_cid len value r =
     (if len > MAX_CID_SIZE \<or> value \<noteq> None \<or> length r < len then Inl MalformedParam
      else Inr (Some (take len r), drop len r))"

text \<open>
  One parameter of \<open>len\<close> bytes; \<open>got\<close> records the integer parameters seen.  \<open>r.take(len)\<close>
  limits the bytes that a preferred address is read from.
\<close>

definition read_param :: "TransportParameterId \<Rightarrow> nat \<Rightarrow> TransportParameters \<Rightarrow> (IntParam \<Rightarrow> bool) \<Rightarrow>
    (TransportParameters \<times> (IntParam \<Rightarrow> bool)) pparser" where
  "read_param i len params got =
     (case i of
        OriginalDestinationConnectionId \<Rightarrow>
          qbind (decode_cid len (tp_original_dst_cid params)) (\<lambda>v. qret (params\<lparr>tp_original_dst_cid := v\<rparr>, got))
      | StatelessResetToken \<Rightarrow> (\<lambda>r.
          if len \<noteq> 16 \<or> tp_stateless_reset_token params \<noteq> None then Inl MalformedParam
          else Inr ((params\<lparr>tp_stateless_reset_token := Some (take 16 r)\<rparr>, got), drop 16 r))
      | DisableActiveMigration \<Rightarrow> (\<lambda>r.
          if len \<noteq> 0 \<or> tp_disable_active_migration params then Inl MalformedParam
          else Inr ((params\<lparr>tp_disable_active_migration := True\<rparr>, got), r))
      | PreferredAddressId \<Rightarrow> (\<lambda>r.
          if tp_preferred_address params \<noteq> None then Inl MalformedParam
          else case PreferredAddress_read (take len r) of
            Inl e \<Rightarrow> Inl e
          | Inr (x, rest) \<Rightarrow> Inr ((params\<lparr>tp_preferred_address := Some x\<rparr>, got), rest @ drop len r))
      | InitialSourceConnectionId \<Rightarrow>
          qbind (decode_cid len (tp_initial_src_cid params)) (\<lambda>v. qret (params\<lparr>tp_initial_src_cid := v\<rparr>, got))
      | RetrySourceConnectionId \<Rightarrow>
          qbind (decode_cid len (tp_retry_src_cid params)) (\<lambda>v. qret (params\<lparr>tp_retry_src_cid := v\<rparr>, got))
      | MaxDatagramFrameSize \<Rightarrow> (\<lambda>r.
          if len > 8 \<or> tp_max_datagram_frame_size params \<noteq> None then Inl MalformedParam
          else qbind (qget VarInt_decode) (\<lambda>v. qret (params\<lparr>tp_max_datagram_frame_size := Some v\<rparr>, got)) r)
      | GreaseQuicBit \<Rightarrow> (\<lambda>r.
          if len = 0 then Inr ((params\<lparr>tp_grease_quic_bit := True\<rparr>, got), r) else Inl MalformedParam)
      | MinAckDelayDraft07 \<Rightarrow>
          qbind (qget VarInt_decode) (\<lambda>v. qret (params\<lparr>tp_min_ack_delay := Some v\<rparr>, got))
      | ObservedAddrId \<Rightarrow> (\<lambda>r.
          if tp_address_discovery_role params \<noteq> Disabled then Inl MalformedParam
          else qbind (qget VarInt_decode) (\<lambda>value r.
            if Some len \<noteq> VarInt_size value then Inl MalformedParam
            else case Role_try_from value of
              Inl e \<Rightarrow> Inl e
            | Inr role \<Rightarrow> Inr ((params\<lparr>tp_address_discovery_role := role\<rparr>, got), r)) r)
      | InitialMaxPathId \<Rightarrow> (\<lambda>r.
          if tp_initial_max_path_id params \<noteq> None then Inl MalformedParam
          else qbind (qget PathId_decode) (\<lambda>value r.
            if Some len \<noteq> (case value of PathId n \<Rightarrow> VarInt_size (VarInt (of_nat n))) then Inl MalformedParam
            else Inr ((params\<lparr>tp_initial_max_path_id := Some value\<rparr>, got), r)) r)
      | N0NatTraversal \<Rightarrow> (\<lambda>r.
          if tp_max_remote_nat_traversal_addresses params \<noteq> None then Inl MalformedParam
          else if len \<noteq> 1 then Inl MalformedParam
          else qbind (qget u8_decode) (\<lambda>value r.
            if value = 0 then Inl IllegalValue
            else Inr ((params\<lparr>tp_max_remote_nat_traversal_addresses := Some value\<rparr>, got), r)) r)
      | TpInt n \<Rightarrow>
          qbind (qget VarInt_decode) (\<lambda>value r.
            if Some len \<noteq> VarInt_size value \<or> got n then Inl MalformedParam
            else Inr ((params\<lparr>tp_int := (tp_int params)(n := value)\<rparr>, got(n := True)), r))
      | ReservedTransportParameterId \<Rightarrow> (\<lambda>r. Inr ((params, got), drop len r)))"

text \<open>
  The loop.  Every round consumes at least the id and the length, so the length of the buffer
  bounds the number of rounds and serves as fuel.
\<close>

definition read_round :: "TransportParameters \<Rightarrow> (IntParam \<Rightarrow> bool) \<Rightarrow> (TransportParameters \<times> (IntParam \<Rightarrow> bool)) pparser" where
  "read_round params got =
     qbind (qget get_varn) (\<lambda>i. qbind (qget get_varn) (\<lambda>len r.
       if length r < len then Inl MalformedParam
       else case TransportParameterId_try_from i of
         None \<Rightarrow> Inr ((params, got), drop len r)
       | Some i \<Rightarrow> read_param i len params got r))"

fun read_params :: "nat \<Rightarrow> TransportParameters \<Rightarrow> (IntParam \<Rightarrow> bool) \<Rightarrow> byte list \<Rightarrow>
    (ParamError + TransportParameters) option" where
  "read_params 0 params got r = (if r = [] then Some (Inr params) else None)"
| "read_params (Suc fuel) params got r =
     (if r = [] then Some (Inr params)
      else case read_round params got r of
        Inl e \<Rightarrow> Some (Inl e)
      | Inr ((params, got), r) \<Rightarrow> read_params fuel params got r)"

definition params_invalid :: "Side \<Rightarrow> TransportParameters \<Rightarrow> bool" where
  "params_invalid side params =
     (let v = (\<lambda>i. unat (into_inner (tp_int params i))) in
      v AckDelayExponent > 20 \<or> v MaxAckDelay \<ge> 2 ^ 14 \<or> v ActiveConnectionIdLimit < 2 \<or>
      v MaxUdpPayloadSize < 1200 \<or> v InitialMaxStreamsBidi > MAX_STREAM_COUNT \<or>
      v InitialMaxStreamsUni > MAX_STREAM_COUNT \<or>
      (case tp_min_ack_delay params of None \<Rightarrow> False | Some d \<Rightarrow> unat (into_inner d) > v MaxAckDelay * 1000) \<or>
      side = Server \<and>
        (tp_original_dst_cid params \<noteq> None \<or> tp_preferred_address params \<noteq> None \<or>
         tp_retry_src_cid params \<noteq> None \<or> tp_stateless_reset_token params \<noteq> None) \<or>
      (case tp_preferred_address params of None \<Rightarrow> False | Some x \<Rightarrow> pra_connection_id x = []))"

definition TransportParameters_read :: "Side \<Rightarrow> byte list \<Rightarrow> (ParamError + TransportParameters) option" where
  "TransportParameters_read side r = do {
     res \<leftarrow> read_params (length r) TransportParameters_default (\<lambda>_. False) r;
     Some (case res of
       Inl e \<Rightarrow> Inl e
     | Inr params \<Rightarrow> if params_invalid side params then Inl IllegalValue else Inr params) }"

section \<open>Codes\<close>

lemma try_from_code [simp]: "TransportParameterId_try_from (TransportParameterId_code i) = Some i"
  by (cases i rule: TransportParameterId_code.cases) (simp_all add: TransportParameterId_try_from_def SUPPORTED_def)

lemma code_bound: "TransportParameterId_code i < 2 ^ 62"
  by (cases i rule: TransportParameterId_code.cases) simp_all

lemma set_SUPPORTED: "set SUPPORTED = UNIV"
proof -
  have "i \<in> set SUPPORTED" for i
    by (cases i rule: TransportParameterId_code.cases) (simp_all add: SUPPORTED_def)
  then show ?thesis
    by blast
qed

lemma distinct_SUPPORTED: "distinct SUPPORTED"
  by (simp add: SUPPORTED_def)

lemma length_SUPPORTED: "length SUPPORTED = 24"
  by (simp add: SUPPORTED_def)

lemma reserved_code:
  assumes "n mod 31 = 27" and "TransportParameterId_try_from n = Some i"
  shows "i = ReservedTransportParameterId"
proof -
  have "TransportParameterId_code i = n"
    using assms(2) by (auto simp: TransportParameterId_try_from_def find_Some_iff)
  then show ?thesis
    using assms(1) by (cases i rule: TransportParameterId_code.cases) auto
qed

section \<open>Reading never gets stuck\<close>

lemma qbind_length:
  assumes "\<And>bs x r. p bs = Inr (x, r) \<Longrightarrow> length r \<le> length bs"
    and "\<And>x bs y r. f x bs = Inr (y, r) \<Longrightarrow> length r \<le> length bs"
  shows "qbind p f bs = Inr (y, r) \<Longrightarrow> length r \<le> length bs"
  using assms by (fastforce simp: qbind_def split: sum.splits intro: order_trans)

lemma qget_varn_length: "qget get_varn bs = Inr (x, r) \<Longrightarrow> length r < length bs"
  using varint.dec_shorter
  by (fastforce simp: qget_def get_varn_def get_var_def split: option.splits)

lemma qget_lengths:
  "qget VarInt_decode bs = Inr (v, r) \<Longrightarrow> length r \<le> length bs"
  "qget PathId_decode bs = Inr (pid, r) \<Longrightarrow> length r \<le> length bs"
  "qget u8_decode bs = Inr (b, r) \<Longrightarrow> length r \<le> length bs"
  "qget u16_decode bs = Inr (h, r) \<Longrightarrow> length r \<le> length bs"
  "qget Ipv4Addr_decode bs = Inr (a, r) \<Longrightarrow> length r \<le> length bs"
  "qget Ipv6Addr_decode bs = Inr (a, r) \<Longrightarrow> length r \<le> length bs"
  using varint.dec_shorter [of bs v r] u8.dec_shorter [of bs b r] u16.dec_shorter [of bs h r]
    get_varn_bound(2) [of bs _ r]
  by (auto simp: qget_def PathId_decode_def Ipv4Addr_decode_def Ipv6Addr_decode_def octets_decode_def
      split: option.splits if_splits)

lemma PreferredAddress_read_length: "PreferredAddress_read bs = Inr (x, r) \<Longrightarrow> length r \<le> length bs"
  unfolding PreferredAddress_read_def
  by (erule qbind_length [rotated 2], (erule qget_lengths | erule qbind_length [rotated 2])+)
     (auto simp: Let_def split: if_splits)

lemma read_param_length:
  assumes "read_param i len params got bs = Inr (x, r)"
  shows "length r \<le> length bs"
proof (cases i)
  case PreferredAddressId
  then show ?thesis
    using assms PreferredAddress_read_length [of "take len bs"]
    by (fastforce simp: read_param_def split: if_splits sum.splits)
qed (use assms in \<open>auto simp: read_param_def qbind_def qret_def decode_cid_def
      split: if_splits sum.splits dest!: qget_lengths\<close>)

lemma read_round_length: "read_round params got bs = Inr (x, r) \<Longrightarrow> length r < length bs"
  unfolding read_round_def qbind_def
  by (auto split: sum.splits if_splits option.splits dest!: qget_varn_length read_param_length) linarith+

lemma read_params_total: "length r \<le> fuel \<Longrightarrow> read_params fuel params got r \<noteq> None"
proof (induction fuel arbitrary: params got r)
  case (Suc fuel)
  then show ?case
    by (fastforce split: sum.splits prod.splits dest: read_round_length)
qed simp

section \<open>Reading back what was written\<close>

definition PreferredAddress_ok :: "PreferredAddress \<Rightarrow> bool" where
  "PreferredAddress_ok x \<longleftrightarrow>
     (case pra_address_v4 x of None \<Rightarrow> pra_address_v6 x \<noteq> None
      | Some (ip, port) \<Rightarrow> length ip = 4 \<and> \<not> (list_all (\<lambda>b. b = 0) ip \<and> port = 0)) \<and>
     (case pra_address_v6 x of None \<Rightarrow> True
      | Some (ip, port) \<Rightarrow> length ip = 16 \<and> \<not> (list_all (\<lambda>b. b = 0) ip \<and> port = 0)) \<and>
     length (pra_connection_id x) \<le> MAX_CID_SIZE \<and> length (pra_stateless_reset_token x) = 16"

definition cid_ok :: "ConnectionId option \<Rightarrow> bool" where
  "cid_ok c = pred_option (\<lambda>c. length c \<le> MAX_CID_SIZE) c"

definition params_ok :: "TransportParameters \<Rightarrow> bool" where
  "params_ok p \<longleftrightarrow>
     (\<forall>n. VarInt_ok (tp_int p n)) \<and> pred_option VarInt_ok (tp_max_datagram_frame_size p) \<and>
     pred_option VarInt_ok (tp_min_ack_delay p) \<and>
     cid_ok (tp_initial_src_cid p) \<and> cid_ok (tp_original_dst_cid p) \<and> cid_ok (tp_retry_src_cid p) \<and>
     pred_option (\<lambda>t. length t = 16) (tp_stateless_reset_token p) \<and>
     pred_option PreferredAddress_ok (tp_preferred_address p) \<and>
     pred_option (\<lambda>g. rtp_id g < 2 ^ 62 \<and> rtp_id g mod 31 = 27 \<and> rtp_payload_len g \<le> length (rtp_payload g) \<and>
       rtp_payload_len g < 2 ^ 62) (tp_grease_transport_parameter p) \<and>
     (case tp_initial_max_path_id p of None \<Rightarrow> True | Some (PathId n) \<Rightarrow> n < 2 ^ 32) \<and>
     tp_max_remote_nat_traversal_addresses p \<noteq> Some 0 \<and>
     pred_option (\<lambda>order. distinct order \<and> set order = {..<24}) (tp_write_order p)"

text \<open>The parameters read once those in \<open>S\<close> have been seen.\<close>

definition merged :: "TransportParameters \<Rightarrow> TransportParameterId set \<Rightarrow> TransportParameters" where
  "merged p S =
     \<lparr>tp_int = (\<lambda>n. if TpInt n \<in> S then tp_int p n else int_default n),
      tp_disable_active_migration = (DisableActiveMigration \<in> S \<and> tp_disable_active_migration p),
      tp_max_datagram_frame_size = (if MaxDatagramFrameSize \<in> S then tp_max_datagram_frame_size p else None),
      tp_initial_src_cid = (if InitialSourceConnectionId \<in> S then tp_initial_src_cid p else None),
      tp_grease_quic_bit = (GreaseQuicBit \<in> S \<and> tp_grease_quic_bit p),
      tp_min_ack_delay = (if MinAckDelayDraft07 \<in> S then tp_min_ack_delay p else None),
      tp_original_dst_cid = (if OriginalDestinationConnectionId \<in> S then tp_original_dst_cid p else None),
      tp_retry_src_cid = (if RetrySourceConnectionId \<in> S then tp_retry_src_cid p else None),
      tp_stateless_reset_token = (if StatelessResetToken \<in> S then tp_stateless_reset_token p else None),
      tp_preferred_address = (if PreferredAddressId \<in> S then tp_preferred_address p else None),
      tp_grease_transport_parameter = None, tp_write_order = None,
      tp_address_discovery_role = (if ObservedAddrId \<in> S then tp_address_discovery_role p else Disabled),
      tp_initial_max_path_id = (if InitialMaxPathId \<in> S then tp_initial_max_path_id p else None),
      tp_max_remote_nat_traversal_addresses =
        (if N0NatTraversal \<in> S then tp_max_remote_nat_traversal_addresses p else None)\<rparr>"

definition seen :: "TransportParameters \<Rightarrow> TransportParameterId set \<Rightarrow> IntParam \<Rightarrow> bool" where
  "seen p S n \<longleftrightarrow> TpInt n \<in> S \<and> tp_int p n \<noteq> int_default n"

lemma merged_empty: "merged p {} = TransportParameters_default"
  by (simp add: merged_def TransportParameters_default_def)

lemma merged_UNIV: "merged p UNIV = p\<lparr>tp_grease_transport_parameter := None, tp_write_order := None\<rparr>"
  by (simp add: merged_def)

lemma merged_insert:
  "merged p (insert (TpInt n) S) = (merged p S)\<lparr>tp_int := (tp_int (merged p S))(n := tp_int p n)\<rparr>"
  "merged p (insert DisableActiveMigration S) = (merged p S)\<lparr>tp_disable_active_migration := tp_disable_active_migration p\<rparr>"
  "merged p (insert MaxDatagramFrameSize S) = (merged p S)\<lparr>tp_max_datagram_frame_size := tp_max_datagram_frame_size p\<rparr>"
  "merged p (insert InitialSourceConnectionId S) = (merged p S)\<lparr>tp_initial_src_cid := tp_initial_src_cid p\<rparr>"
  "merged p (insert GreaseQuicBit S) = (merged p S)\<lparr>tp_grease_quic_bit := tp_grease_quic_bit p\<rparr>"
  "merged p (insert MinAckDelayDraft07 S) = (merged p S)\<lparr>tp_min_ack_delay := tp_min_ack_delay p\<rparr>"
  "merged p (insert OriginalDestinationConnectionId S) = (merged p S)\<lparr>tp_original_dst_cid := tp_original_dst_cid p\<rparr>"
  "merged p (insert RetrySourceConnectionId S) = (merged p S)\<lparr>tp_retry_src_cid := tp_retry_src_cid p\<rparr>"
  "merged p (insert StatelessResetToken S) = (merged p S)\<lparr>tp_stateless_reset_token := tp_stateless_reset_token p\<rparr>"
  "merged p (insert PreferredAddressId S) = (merged p S)\<lparr>tp_preferred_address := tp_preferred_address p\<rparr>"
  "merged p (insert ObservedAddrId S) = (merged p S)\<lparr>tp_address_discovery_role := tp_address_discovery_role p\<rparr>"
  "merged p (insert InitialMaxPathId S) = (merged p S)\<lparr>tp_initial_max_path_id := tp_initial_max_path_id p\<rparr>"
  "merged p (insert N0NatTraversal S) = (merged p S)\<lparr>tp_max_remote_nat_traversal_addresses := tp_max_remote_nat_traversal_addresses p\<rparr>"
  "merged p (insert ReservedTransportParameterId S) = merged p S"
  by (simp_all add: merged_def fun_eq_iff)

lemma merged_fresh:
  "TpInt n \<notin> S \<Longrightarrow> tp_int (merged p S) n = int_default n"
  "DisableActiveMigration \<notin> S \<Longrightarrow> tp_disable_active_migration (merged p S) = False"
  "MaxDatagramFrameSize \<notin> S \<Longrightarrow> tp_max_datagram_frame_size (merged p S) = None"
  "InitialSourceConnectionId \<notin> S \<Longrightarrow> tp_initial_src_cid (merged p S) = None"
  "GreaseQuicBit \<notin> S \<Longrightarrow> tp_grease_quic_bit (merged p S) = False"
  "MinAckDelayDraft07 \<notin> S \<Longrightarrow> tp_min_ack_delay (merged p S) = None"
  "OriginalDestinationConnectionId \<notin> S \<Longrightarrow> tp_original_dst_cid (merged p S) = None"
  "RetrySourceConnectionId \<notin> S \<Longrightarrow> tp_retry_src_cid (merged p S) = None"
  "StatelessResetToken \<notin> S \<Longrightarrow> tp_stateless_reset_token (merged p S) = None"
  "PreferredAddressId \<notin> S \<Longrightarrow> tp_preferred_address (merged p S) = None"
  "ObservedAddrId \<notin> S \<Longrightarrow> tp_address_discovery_role (merged p S) = Disabled"
  "InitialMaxPathId \<notin> S \<Longrightarrow> tp_initial_max_path_id (merged p S) = None"
  "N0NatTraversal \<notin> S \<Longrightarrow> tp_max_remote_nat_traversal_addresses (merged p S) = None"
  by (simp_all add: merged_def)

text \<open>Setting a field to the value it has.\<close>

lemma upd_same:
  "tp_int q n = x \<Longrightarrow> q\<lparr>tp_int := (tp_int q)(n := x)\<rparr> = q"
  "tp_disable_active_migration q = False \<Longrightarrow> q\<lparr>tp_disable_active_migration := False\<rparr> = q"
  "tp_max_datagram_frame_size q = None \<Longrightarrow> q\<lparr>tp_max_datagram_frame_size := None\<rparr> = q"
  "tp_initial_src_cid q = None \<Longrightarrow> q\<lparr>tp_initial_src_cid := None\<rparr> = q"
  "tp_grease_quic_bit q = False \<Longrightarrow> q\<lparr>tp_grease_quic_bit := False\<rparr> = q"
  "tp_min_ack_delay q = None \<Longrightarrow> q\<lparr>tp_min_ack_delay := None\<rparr> = q"
  "tp_original_dst_cid q = None \<Longrightarrow> q\<lparr>tp_original_dst_cid := None\<rparr> = q"
  "tp_retry_src_cid q = None \<Longrightarrow> q\<lparr>tp_retry_src_cid := None\<rparr> = q"
  "tp_stateless_reset_token q = None \<Longrightarrow> q\<lparr>tp_stateless_reset_token := None\<rparr> = q"
  "tp_preferred_address q = None \<Longrightarrow> q\<lparr>tp_preferred_address := None\<rparr> = q"
  "tp_address_discovery_role q = Disabled \<Longrightarrow> q\<lparr>tp_address_discovery_role := Disabled\<rparr> = q"
  "tp_initial_max_path_id q = None \<Longrightarrow> q\<lparr>tp_initial_max_path_id := None\<rparr> = q"
  "tp_max_remote_nat_traversal_addresses q = None \<Longrightarrow> q\<lparr>tp_max_remote_nat_traversal_addresses := None\<rparr> = q"
  by (cases q; auto)+

text \<open>A parameter with its id, its length and its body.\<close>

definition framed :: "nat \<Rightarrow> byte list \<Rightarrow> byte list \<Rightarrow> bool" where
  "framed i body bs \<longleftrightarrow> writes [write_varn i, write_varn (length body), Some body] = Some bs"

lemma framed_ex: "i < 2 ^ 62 \<Longrightarrow> length body < 2 ^ 62 \<Longrightarrow> \<exists>bs. framed i body bs"
  using varn_codec [of i] varn_codec [of "length body"] by (auto simp: framed_def)

lemma read_round_framed:
  assumes "framed i body bs"
  shows "read_round params got (bs @ rest) =
     (case TransportParameterId_try_from i of
        None \<Rightarrow> Inr ((params, got), rest)
      | Some i \<Rightarrow> read_param i (length body) params got (body @ rest))" and "bs \<noteq> []"
proof -
  have "i < 2 ^ 62" "length body < 2 ^ 62"
    using assms by (auto simp: framed_def write_varn_def split: if_splits option.splits)
  then obtain a b where "write_varn i = Some a" "write_varn (length body) = Some b"
    and dec: "\<And>rest. get_varn (a @ rest) = Some (i, rest)" "\<And>rest. get_varn (b @ rest) = Some (length body, rest)"
    using varn_codec by meson
  then have bs: "bs = a @ b @ body"
    using assms by (simp add: framed_def)
  show "read_round params got (bs @ rest) =
     (case TransportParameterId_try_from i of
        None \<Rightarrow> Inr ((params, got), rest)
      | Some i \<Rightarrow> read_param i (length body) params got (body @ rest))"
    using dec by (simp add: bs read_round_def qbind_def qget_def split: option.splits)
  show "bs \<noteq> []"
    using dec(1) [of "[]"] by (auto simp: bs get_varn_def get_var_def VarInt_decode_def)
qed

lemma sized_framed:
  assumes "VarInt_ok x"
  shows "\<exists>body bs. write_sized i x = Some bs \<and> framed (TransportParameterId_code i) body bs \<and>
     VarInt_size x = Some (length body) \<and> (\<forall>rest. VarInt_decode (body @ rest) = Some (x, rest)) \<and> length body \<le> 8"
proof -
  obtain body where body: "VarInt_encode x = Some body" "VarInt_size x = Some (length body)"
    using VarInt_dec_enc [OF assms] by blast
  then have "\<forall>rest. VarInt_decode (body @ rest) = Some (x, rest)"
    using VarInt_codec [OF assms] by simp
  moreover from body(2) have "length body \<le> 8"
    by (auto simp: VarInt_size_nat Let_def split: if_splits)
  moreover obtain bs where "framed (TransportParameterId_code i) body bs"
    using framed_ex [OF code_bound, of body i] calculation by auto
  ultimately show ?thesis
    using body by (intro exI [of _ body] exI [of _ bs]) (simp add: write_sized_def write_id_def framed_def)
qed

lemma PreferredAddress_read_bytes:
  assumes "length a4 = 4" and "length a6 = 16" and "length cid \<le> 20" and "length tok = 16"
    and "v4 = (if list_all (\<lambda>b. b = 0) a4 \<and> p4 = 0 then None else Some (a4, p4))"
    and "v6 = (if list_all (\<lambda>b. b = 0) a6 \<and> p6 = 0 then None else Some (a6, p6))"
    and "\<not> (v4 = None \<and> v6 = None)"
  shows "PreferredAddress_read (a4 @ put_u16 p4 @ a6 @ put_u16 p6 @ put_u8 (of_nat (length cid)) @ cid @ tok) =
      Inr (\<lparr>pra_address_v4 = v4, pra_address_v6 = v6, pra_connection_id = cid, pra_stateless_reset_token = tok\<rparr>, [])"
proof -
  have u8: "unat (of_nat (length cid) :: byte) = length cid"
    using assms(3) by (simp add: unat_of_nat)
  have "qget Ipv4Addr_decode (a4 @ r) = Inr (a4, r)" "qget Ipv6Addr_decode (a6 @ r) = Inr (a6, r)" for r
    using assms by (simp_all add: qget_def Ipv4Addr_decode_def Ipv6Addr_decode_def octets_decode_def)
  moreover have "qget u16_decode (put_u16 h @ r) = Inr (h, r)" "qget u8_decode (put_u8 b @ r) = Inr (b, r)" for h b r
    by (simp_all add: qget_def u16.dec_enc u8.dec_enc)
  ultimately show ?thesis
    using assms(3,4,7)
    by (simp add: PreferredAddress_read_def qbind_def u8 MAX_CID_SIZE_def Let_def assms(5,6) [symmetric])
qed

lemma PreferredAddress_roundtrip:
  assumes "PreferredAddress_ok x"
  shows "\<exists>bs. PreferredAddress_write x = Some bs \<and> length bs = PreferredAddress_wire_size x \<and>
     PreferredAddress_read bs = Inr (x, [])"
proof -
  define a4 where "a4 = (case pra_address_v4 x of None \<Rightarrow> replicate 4 0 | Some (ip, _) \<Rightarrow> ip)"
  define p4 where "p4 = (case pra_address_v4 x of None \<Rightarrow> 0 | Some (_, port) \<Rightarrow> port)"
  define a6 where "a6 = (case pra_address_v6 x of None \<Rightarrow> replicate 16 0 | Some (ip, _) \<Rightarrow> ip)"
  define p6 where "p6 = (case pra_address_v6 x of None \<Rightarrow> 0 | Some (_, port) \<Rightarrow> port)"
  let ?cid = "pra_connection_id x" and ?tok = "pra_stateless_reset_token x"
  have len: "length a4 = 4" "length a6 = 16" "length ?cid \<le> 20" "length ?tok = 16"
    using assms by (auto simp: PreferredAddress_ok_def a4_def a6_def MAX_CID_SIZE_def split: option.splits)
  have v4: "(if list_all (\<lambda>b. b = 0) a4 \<and> p4 = 0 then None else Some (a4, p4)) = pra_address_v4 x"
    and v6: "(if list_all (\<lambda>b. b = 0) a6 \<and> p6 = 0 then None else Some (a6, p6)) = pra_address_v6 x"
    and some: "\<not> (pra_address_v4 x = None \<and> pra_address_v6 x = None)"
    using assms by (auto simp: PreferredAddress_ok_def a4_def a6_def p4_def p6_def list_all_iff split: option.splits)
  have "PreferredAddress_write x =
      Some (a4 @ put_u16 p4 @ a6 @ put_u16 p6 @ put_u8 (of_nat (length ?cid)) @ ?cid @ ?tok)"
    by (simp add: PreferredAddress_write_def a4_def p4_def a6_def p6_def put_slice_def)
  moreover have "length (a4 @ put_u16 p4 @ a6 @ put_u16 p6 @ put_u8 (of_nat (length ?cid)) @ ?cid @ ?tok) =
      PreferredAddress_wire_size x"
    using len by (simp add: PreferredAddress_wire_size_def put_u16_def put_u8_def)
  moreover have "PreferredAddress_read (a4 @ put_u16 p4 @ a6 @ put_u16 p6 @ put_u8 (of_nat (length ?cid)) @ ?cid @ ?tok) =
      Inr (x, [])"
    using PreferredAddress_read_bytes [OF len v4 [symmetric] v6 [symmetric] some] by simp
  ultimately show ?thesis
    by blast
qed

definition step_ok :: "TransportParameters \<Rightarrow> TransportParameterId set \<Rightarrow> TransportParameterId \<Rightarrow> byte list \<Rightarrow> bool" where
  "step_ok p S i bs \<longleftrightarrow>
     (if bs = [] then merged p (insert i S) = merged p S \<and> seen p (insert i S) = seen p S
      else \<forall>rest. read_round (merged p S) (seen p S) (bs @ rest) =
             Inr ((merged p (insert i S), seen p (insert i S)), rest))"

lemma step_ok_framed:
  assumes "framed (TransportParameterId_code i) body bs"
    and "\<And>rest. read_param i (length body) (merged p S) (seen p S) (body @ rest) =
           Inr ((merged p (insert i S), seen p (insert i S)), rest)"
  shows "step_ok p S i bs"
  using read_round_framed [OF assms(1)] assms(2) by (simp add: step_ok_def)

lemma seen_insert: "(\<forall>n. i \<noteq> TpInt n) \<Longrightarrow> seen p (insert i S) = seen p S"
  by (intro ext) (auto simp: seen_def)

lemma seen_insert_int:
  "tp_int p n \<noteq> int_default n \<Longrightarrow> seen p (insert (TpInt n) S) = (seen p S)(n := True)"
  "tp_int p n = int_default n \<Longrightarrow> seen p (insert (TpInt n) S) = seen p S"
  by (intro ext; auto simp: seen_def)+

lemma body_framed:
  assumes "length body < 2 ^ 62"
  shows "\<exists>bs. writes [write_id i, write_varn (length body), Some body] = Some bs \<and>
    framed (TransportParameterId_code i) body bs"
  using framed_ex [OF code_bound assms, of i] by (auto simp: framed_def write_id_def)

lemma step_ok_Nil: "merged p (insert i S) = merged p S \<Longrightarrow> seen p (insert i S) = seen p S \<Longrightarrow> step_ok p S i []"
  by (simp add: step_ok_def)

lemmas read_simps = read_param_def qbind_def qget_def qret_def merged_insert merged_fresh upd_same

lemma step_int:
  assumes "params_ok p" and "TpInt n \<notin> S"
  shows "\<exists>bs. write_param p (TpInt n) = Some bs \<and> step_ok p S (TpInt n) bs"
proof (cases "tp_int p n = int_default n")
  case True
  then show ?thesis
    using assms(2) by (simp add: write_param_def step_ok_Nil seen_insert_int merged_insert upd_same merged_fresh)
next
  case False
  have "VarInt_ok (tp_int p n)"
    using assms(1) by (simp add: params_ok_def)
  from sized_framed [OF this, of "TpInt n"] obtain body bs where bs: "write_sized (TpInt n) (tp_int p n) = Some bs"
    and f: "framed (TransportParameterId_code (TpInt n)) body bs" and
    b: "VarInt_size (tp_int p n) = Some (length body)" "\<And>rest. VarInt_decode (body @ rest) = Some (tp_int p n, rest)"
    by blast
  have "\<not> seen p S n"
    using assms(2) by (simp add: seen_def)
  then have "step_ok p S (TpInt n) bs"
    using False by (intro step_ok_framed [OF f]) (simp add: read_simps b seen_insert_int)
  then show ?thesis
    using False bs by (simp add: write_param_def)
qed

lemma role_param:
  "Role_as_transport_parameter r = Some x \<Longrightarrow> Role_try_from x = Inr r \<and> VarInt_ok x"
  "Role_as_transport_parameter r = None \<longleftrightarrow> r = Disabled"
  by (cases r; auto simp: Role_as_transport_parameter_def Role_try_from_def VarInt_ok_def)+

lemma step_varint:
  assumes "write_param p i = (case v of None \<Rightarrow> Some [] | Some x \<Rightarrow> write_sized i x)" and "\<forall>n. i \<noteq> TpInt n"
    and "v = None \<Longrightarrow> merged p (insert i S) = merged p S"
    and "\<And>x. v = Some x \<Longrightarrow> VarInt_ok x"
    and "\<And>x body rest. v = Some x \<Longrightarrow> VarInt_size x = Some (length body) \<Longrightarrow> length body \<le> 8 \<Longrightarrow>
           (\<And>rest. VarInt_decode (body @ rest) = Some (x, rest)) \<Longrightarrow>
           read_param i (length body) (merged p S) (seen p S) (body @ rest) = Inr ((merged p (insert i S), seen p S), rest)"
  shows "\<exists>bs. write_param p i = Some bs \<and> step_ok p S i bs"
proof (cases v)
  case None
  then show ?thesis
    using assms by (simp add: step_ok_Nil seen_insert)
next
  case (Some x)
  from sized_framed [OF assms(4) [OF this], of i] obtain body bs where bs: "write_sized i x = Some bs"
    and f: "framed (TransportParameterId_code i) body bs" and
    b: "VarInt_size x = Some (length body)" "\<And>rest. VarInt_decode (body @ rest) = Some (x, rest)" "length body \<le> 8"
    by blast
  have "step_ok p S i bs"
    using assms(5) [OF Some b(1,3,2)] by (intro step_ok_framed [OF f]) (simp add: seen_insert [OF assms(2)])
  then show ?thesis
    by (simp add: assms(1) Some bs)
qed

lemma step_body:
  assumes "write_param p i = (case v of None \<Rightarrow> Some [] | Some body \<Rightarrow> writes [write_id i, write_varn (length body), Some body])"
    and "\<forall>n. i \<noteq> TpInt n" and "v = None \<Longrightarrow> merged p (insert i S) = merged p S"
    and "\<And>body. v = Some body \<Longrightarrow> length body < 2 ^ 62"
    and "\<And>body rest. v = Some body \<Longrightarrow>
           read_param i (length body) (merged p S) (seen p S) (body @ rest) = Inr ((merged p (insert i S), seen p S), rest)"
  shows "\<exists>bs. write_param p i = Some bs \<and> step_ok p S i bs"
proof (cases v)
  case None
  then show ?thesis
    using assms by (simp add: step_ok_Nil seen_insert)
next
  case (Some body)
  from body_framed [OF assms(4) [OF this], of i] obtain bs where
    bs: "writes [write_id i, write_varn (length body), Some body] = Some bs"
    and f: "framed (TransportParameterId_code i) body bs"
    by blast
  have "step_ok p S i bs"
    using assms(5) [OF Some] by (intro step_ok_framed [OF f]) (simp add: seen_insert [OF assms(2)])
  then show ?thesis
    by (simp only: assms(1) Some bs option.case) blast
qed

lemma step_path:
  assumes "params_ok p" and "InitialMaxPathId \<notin> S"
  shows "\<exists>bs. write_param p InitialMaxPathId = Some bs \<and> step_ok p S InitialMaxPathId bs"
proof (cases "tp_initial_max_path_id p")
  case None
  then show ?thesis
    using assms(2) by (simp add: write_param_def step_ok_Nil seen_insert read_simps)
next
  case (Some pid)
  then obtain n where n: "pid = PathId n" "n < 2 ^ 32"
    using assms(1) by (cases pid) (auto simp: params_ok_def)
  then have u: "unat (of_nat n :: u64) = n"
    by (simp add: unat_of_nat)
  then have "VarInt_ok (VarInt (of_nat n))"
    using n(2) by (simp add: VarInt_ok_def)
  from VarInt_codec [OF this] VarInt_dec_enc [OF this, of "[]"] obtain body where
    b: "VarInt_encode (VarInt (of_nat n)) = Some body" "VarInt_size (VarInt (of_nat n)) = Some (length body)"
      "\<And>rest. VarInt_decode (body @ rest) = Some (VarInt (of_nat n), rest)"
    by auto
  have "length body < 2 ^ 62"
    using b(2) by (auto simp: VarInt_size_nat Let_def split: if_splits)
  then show ?thesis
    using assms(2) n b Some u
    by (intro step_body [where v = "Some body"])
       (simp_all add: write_param_def read_simps PathId_decode_def get_varn_def get_var_def)
qed

lemma step_preferred:
  assumes "params_ok p" and "PreferredAddressId \<notin> S"
  shows "\<exists>bs. write_param p PreferredAddressId = Some bs \<and> step_ok p S PreferredAddressId bs"
proof (cases "tp_preferred_address p")
  case None
  then show ?thesis
    using assms(2) by (simp add: write_param_def step_ok_Nil seen_insert read_simps)
next
  case (Some x)
  then have ok: "PreferredAddress_ok x"
    using assms(1) by (simp add: params_ok_def)
  from PreferredAddress_roundtrip [OF this] obtain body where
    b: "PreferredAddress_write x = Some body" "length body = PreferredAddress_wire_size x"
      "PreferredAddress_read body = Inr (x, [])"
    by blast
  have "length body < 2 ^ 62"
    using ok by (simp add: b(2) PreferredAddress_wire_size_def PreferredAddress_ok_def MAX_CID_SIZE_def)
  then show ?thesis
    using assms(2) b Some
    by (intro step_body [where v = "Some body"]) (simp_all add: write_param_def read_simps)
qed

lemma step_reserved:
  assumes "params_ok p"
  shows "\<exists>bs. write_param p ReservedTransportParameterId = Some bs \<and> step_ok p S ReservedTransportParameterId bs"
proof (cases "tp_grease_transport_parameter p")
  case None
  then show ?thesis
    by (simp add: write_param_def step_ok_Nil seen_insert merged_insert)
next
  case (Some g)
  define body where "body = take (rtp_payload_len g) (rtp_payload g)"
  have g: "rtp_id g < 2 ^ 62" "rtp_id g mod 31 = 27" "rtp_payload_len g \<le> length (rtp_payload g)" "length body < 2 ^ 62"
    "length body = rtp_payload_len g"
    using assms Some by (auto simp: params_ok_def body_def)
  obtain bs where f: "framed (rtp_id g) body bs"
    using framed_ex g by blast
  have "step_ok p S ReservedTransportParameterId bs"
    using reserved_code [OF g(2)] read_round_framed [OF f]
    by (auto simp: step_ok_def read_simps seen_insert split: option.splits)
  then show ?thesis
    using f g Some
    by (simp add: write_param_def ReservedTransportParameter_write_def framed_def put_slice_def body_def [symmetric])
qed

lemma step_nat:
  assumes "params_ok p" and "N0NatTraversal \<notin> S"
  shows "\<exists>bs. write_param p N0NatTraversal = Some bs \<and> step_ok p S N0NatTraversal bs"
proof (cases "tp_max_remote_nat_traversal_addresses p")
  case None
  then show ?thesis
    using assms(2) by (simp add: write_param_def step_ok_Nil seen_insert read_simps)
next
  case (Some b)
  have "b \<noteq> 0"
    using assms(1) Some by (auto simp: params_ok_def)
  moreover have "VarInt_encode (VarInt 1) = write_varn (length (put_u8 b))"
    by (simp add: write_varn_def write_var_def VarInt_from_u64_def put_u8_def)
  moreover have "length (put_u8 b) = 1" "\<And>rest. u8_decode (put_u8 b @ rest) = Some (b, rest)"
    using u8.dec_enc by (simp_all add: put_u8_def)
  ultimately show ?thesis
    using assms(2) Some
    by (intro step_body [where v = "Some (put_u8 b)"]) (simp_all add: write_param_def read_simps)
qed

lemma params_ok_varints:
  assumes "params_ok p"
  shows "tp_max_datagram_frame_size p = Some x \<Longrightarrow> VarInt_ok x" and "tp_min_ack_delay p = Some x \<Longrightarrow> VarInt_ok x"
  using assms by (simp_all add: params_ok_def)

lemma param_step:
  assumes p: "params_ok p" and i: "i \<notin> S"
  shows "\<exists>bs. write_param p i = Some bs \<and> step_ok p S i bs"
proof (cases i)
  case (TpInt n)
  then show ?thesis
    using step_int assms by simp
next
  case OriginalDestinationConnectionId
  then show ?thesis
    using assms
    by (intro step_body [where v = "tp_original_dst_cid p"])
       (auto simp: write_param_def write_cid_def put_slice_def read_simps decode_cid_def params_ok_def cid_ok_def MAX_CID_SIZE_def split: option.splits)
next
  case InitialSourceConnectionId
  then show ?thesis
    using assms
    by (intro step_body [where v = "tp_initial_src_cid p"])
       (auto simp: write_param_def write_cid_def put_slice_def read_simps decode_cid_def params_ok_def cid_ok_def MAX_CID_SIZE_def split: option.splits)
next
  case RetrySourceConnectionId
  then show ?thesis
    using assms
    by (intro step_body [where v = "tp_retry_src_cid p"])
       (auto simp: write_param_def write_cid_def put_slice_def read_simps decode_cid_def params_ok_def cid_ok_def MAX_CID_SIZE_def split: option.splits)
next
  case StatelessResetToken
  then show ?thesis
    using assms
    by (intro step_body [where v = "tp_stateless_reset_token p"])
       (auto simp: write_param_def put_slice_def read_simps params_ok_def split: option.splits)
next
  case DisableActiveMigration
  then show ?thesis
    using assms
    by (intro step_body [where v = "if tp_disable_active_migration p then Some [] else None"])
       (auto simp: write_param_def read_simps split: if_splits option.splits)
next
  case GreaseQuicBit
  then show ?thesis
    using assms
    by (intro step_body [where v = "if tp_grease_quic_bit p then Some [] else None"])
       (auto simp: write_param_def read_simps split: if_splits option.splits)
next
  case MaxDatagramFrameSize
  show ?thesis
    using i params_ok_varints [OF p]
    unfolding MaxDatagramFrameSize by (intro step_varint [where v = "tp_max_datagram_frame_size p"]) (simp_all add: write_param_def read_simps)
next
  case MinAckDelayDraft07
  show ?thesis
    using i params_ok_varints [OF p]
    unfolding MinAckDelayDraft07 by (intro step_varint [where v = "tp_min_ack_delay p"]) (simp_all add: write_param_def read_simps)
next
  case ObservedAddrId
  show ?thesis
    using i role_param(1) [of "tp_address_discovery_role p"]
    unfolding ObservedAddrId by (intro step_varint [where v = "Role_as_transport_parameter (tp_address_discovery_role p)"])
       (simp_all add: write_param_def read_simps role_param(2))
next
  case N0NatTraversal
  then show ?thesis
    using step_nat assms by simp
next
  case PreferredAddressId
  then show ?thesis
    using step_preferred assms by simp
next
  case InitialMaxPathId
  then show ?thesis
    using step_path assms by simp
next
  case ReservedTransportParameterId
  then show ?thesis
    using step_reserved assms by simp
qed

lemma read_params_written:
  assumes "params_ok p" and "distinct ids" and "set ids \<inter> S = {}"
  shows "\<exists>bs. writes (map (write_param p) ids) = Some bs \<and>
     (\<forall>fuel. length bs \<le> fuel \<longrightarrow>
        read_params fuel (merged p S) (seen p S) bs = Some (Inr (merged p (S \<union> set ids))))"
  using assms(2,3)
proof (induction ids arbitrary: S)
  case Nil
  have "read_params fuel (merged p S) (seen p S) [] = Some (Inr (merged p S))" for fuel
    by (cases fuel) simp_all
  then show ?case
    by simp
next
  case (Cons i ids)
  obtain b where b: "write_param p i = Some b" "step_ok p S i b"
    using param_step [OF assms(1), of i S] Cons.prems by auto
  obtain bs where bs: "writes (map (write_param p) ids) = Some bs"
    and read: "\<And>fuel. length bs \<le> fuel \<Longrightarrow> read_params fuel (merged p (insert i S)) (seen p (insert i S)) bs =
      Some (Inr (merged p (insert i S \<union> set ids)))"
    using Cons.IH [of "insert i S"] Cons.prems by auto
  have "read_params fuel (merged p S) (seen p S) (b @ bs) = Some (Inr (merged p (S \<union> set (i # ids))))"
    if le: "length (b @ bs) \<le> fuel" for fuel
  proof (cases "b = []")
    case True
    then show ?thesis
      using b(2) read [of fuel] le by (simp add: step_ok_def)
  next
    case False
    then obtain k where k: "fuel = Suc k" "length bs \<le> k"
      using le by (cases fuel; cases b) auto
    then show ?thesis
      using b(2) read [of k] False by (simp add: step_ok_def)
  qed
  then show ?case
    using b(1) bs by simp
qed

section \<open>Properties\<close>

text \<open>
  C12: well-formed transport parameters that the peer accepts are read back exactly as written,
  whatever the (shuffled) order of writing; only the reserved parameter and the order itself, which
  are not part of the information, are dropped.
\<close>

theorem params_roundtrip:
  assumes "params_ok p" and "\<not> params_invalid side p"
  shows "\<exists>bs. TransportParameters_write p = Some bs \<and>
     TransportParameters_read side bs = Some (Inr (p\<lparr>tp_grease_transport_parameter := None, tp_write_order := None\<rparr>))"
proof -
  define order where "order = (case tp_write_order p of Some order \<Rightarrow> order | None \<Rightarrow> [0..<length SUPPORTED])"
  have order: "distinct order" "set order = {..<24}"
    using assms(1) by (auto simp: order_def params_ok_def length_SUPPORTED split: option.splits)
  let ?ids = "map ((!) SUPPORTED) order"
  have "inj_on ((!) SUPPORTED) {..<24}"
    using distinct_SUPPORTED by (simp add: inj_on_nth length_SUPPORTED)
  then have ids: "distinct ?ids"
    using order by (simp add: distinct_map)
  have "set SUPPORTED = (!) SUPPORTED ` {..<24}"
    by (auto simp: set_conv_nth length_SUPPORTED)
  then have "set ?ids = UNIV"
    using order(2) by (simp add: set_SUPPORTED)
  moreover from read_params_written [OF assms(1) ids, of "{}"] obtain bs where
    bs: "writes (map (write_param p) ?ids) = Some bs"
    and read: "read_params (length bs) (merged p {}) (seen p {}) bs = Some (Inr (merged p (set ?ids)))"
    by auto
  moreover have "seen p {} = (\<lambda>_. False)"
    by (simp add: seen_def fun_eq_iff)
  moreover have "map (\<lambda>idx. if idx < length SUPPORTED then write_param p (SUPPORTED ! idx) else None) order =
      map (write_param p) ?ids"
    using order(2) by (auto simp: length_SUPPORTED)
  then have "TransportParameters_write p = Some bs"
    using bs by (simp only: TransportParameters_write_def order_def [symmetric] Let_def)
  moreover have "\<not> params_invalid side (merged p UNIV)"
    using assms(2) by (simp add: merged_UNIV params_invalid_def Let_def)
  ultimately show ?thesis
    by (simp add: TransportParameters_read_def merged_empty merged_UNIV)
qed

theorem params_roundtrip_witness:
  "\<exists>bs. TransportParameters_write (TransportParameters_default\<lparr>tp_min_ack_delay := Some (VarInt 1000)\<rparr>) = Some bs \<and>
     TransportParameters_read Server bs = Some (Inr (TransportParameters_default\<lparr>tp_min_ack_delay := Some (VarInt 1000)\<rparr>))"
proof -
  let ?p = "TransportParameters_default\<lparr>tp_min_ack_delay := Some (VarInt 1000)\<rparr>"
  have "VarInt_ok (int_default n)" for n
    by (cases n) (simp_all add: VarInt_ok_def)
  then have "params_ok ?p"
    by (simp add: params_ok_def TransportParameters_default_def cid_ok_def) (simp add: VarInt_ok_def)
  moreover have "\<not> params_invalid Server ?p"
    by (simp add: params_invalid_def TransportParameters_default_def)
  ultimately show ?thesis
    using params_roundtrip [of ?p Server] by (simp add: TransportParameters_default_def)
qed

text \<open>
  C13: reading transport parameters terminates on every input, and parameters that are accepted
  satisfy the bounds of the protocol: an acknowledgement delay exponent of at most 20, delays below
  \<open>2^14\<close> ms with the minimum below the maximum, at least two connection ids, payloads of at least
  1200 bytes, at most \<open>2^60\<close> streams, and no server-only parameter from a client.
\<close>

theorem params_read_valid:
  "\<exists>res. TransportParameters_read side bs = Some res \<and>
     (case res of Inl e \<Rightarrow> True
      | Inr p \<Rightarrow>
          (let v = (\<lambda>i. unat (into_inner (tp_int p i))) in
           v AckDelayExponent \<le> 20 \<and> v MaxAckDelay < 2 ^ 14 \<and> 2 \<le> v ActiveConnectionIdLimit \<and>
           1200 \<le> v MaxUdpPayloadSize \<and> v InitialMaxStreamsBidi \<le> 2 ^ 60 \<and> v InitialMaxStreamsUni \<le> 2 ^ 60 \<and>
           pred_option (\<lambda>d. unat (into_inner d) \<le> v MaxAckDelay * 1000) (tp_min_ack_delay p) \<and>
           (if side = Server then tp_original_dst_cid p = None \<and> tp_preferred_address p = None \<and>
              tp_retry_src_cid p = None \<and> tp_stateless_reset_token p = None else True) \<and>
           2 \<le> issue_cids_limit p \<and> issue_cids_limit p \<le> LOCAL_CID_COUNT))"
proof -
  obtain res where "read_params (length bs) TransportParameters_default (\<lambda>_. False) bs = Some res"
    using read_params_total [of bs "length bs"] by blast
  then show ?thesis
    by (cases res)
       (auto simp: TransportParameters_read_def params_invalid_def Let_def not_less not_le MAX_STREAM_COUNT_def
         issue_cids_limit_def LOCAL_CID_COUNT_def option.pred_set split: option.splits if_splits)
qed

end
