(* ===== verification/Stream_Flight.thy ===== *)
theory Stream_Flight
  imports Send_Stream
begin

text \<open>
  One sending half together with the ranges of it that are in flight.  Every byte that has been sent
  is held exactly once: it is acknowledged, queued for retransmission or in flight, unless the
  stream has been reset, when acknowledgements are ignored.
\<close>

section \<open>The invariant of a sending half\<close>

definition holders :: "SendBuffer \<Rightarrow> range list \<Rightarrow> nat \<Rightarrow> nat" where
  "holders b R n = of_bool (n \<in> sb_acked b) + of_bool (n \<in> ars_set (sb_retransmits b)) +
     length (filter (\<lambda>r. n \<in> rset r) R)"

definition stream_ok :: "Send \<Rightarrow> range list \<Rightarrow> bool" where
  "stream_ok x R \<longleftrightarrow>
     (\<exists>xs. Send_inv xs x) \<and> s_max_data x < 2 ^ 62 \<and>
     (\<forall>r \<in> set R. fst r \<le> snd r \<and> snd r \<le> sb_unsent (s_pending x)) \<and>
     (\<forall>n. holders (s_pending x) R n \<le> of_bool (n < sb_unsent (s_pending x))) \<and>
     (\<not> Send_is_reset x \<longrightarrow> (\<forall>n < sb_unsent (s_pending x). 1 \<le> holders (s_pending x) R n))"

text \<open>The part of the send window that a stream uses.\<close>

definition unacked_of :: "Send \<Rightarrow> nat" where
  "unacked_of x = (if Send_is_reset x then 0 else the (sb_unacked (s_pending x)))"

lemma sb_acked_le: "sb_inv xs b \<Longrightarrow> sb_acked b \<subseteq> {0..<sb_unsent b}"
  by (auto simp: sb_inv_def sb_acked_def)

lemma card_sb_acked:
  assumes "sb_inv xs b"
  shows "card (sb_acked b) = sbd_offset (sb_data b) + sum_list (map rlen (sb_acks b))"
proof -
  have "card (sb_acked b) = sbd_offset (sb_data b) + card (ars_set (sb_acks b))"
    unfolding sb_acked_def using assms by (subst card_Un_disjoint) (auto simp: sb_inv_def)
  then show ?thesis
    using assms ars_card by (simp add: sb_inv_def)
qed

lemma sb_unacked_inv:
  assumes "sb_inv xs b"
  shows "sb_unacked b = Some (length xs - card (sb_acked b))" and "card (sb_acked b) \<le> length xs"
proof -
  have "card (sb_acked b) \<le> sb_unsent b"
    using card_mono [OF _ sb_acked_le [OF assms]] by simp
  then show "card (sb_acked b) \<le> length xs"
    using assms by (simp add: sb_inv_def)
  moreover have "sbd_offset (sb_data b) + sbd_len (sb_data b) = length xs"
    using sb_offset_inv [OF assms] by (simp add: sb_offset_def sbd_range_def)
  ultimately show "sb_unacked b = Some (length xs - card (sb_acked b))"
    using card_sb_acked [OF assms] by (simp add: sb_unacked_def)
qed

lemma stream_ok_new: "n < 2 ^ 62 \<Longrightarrow> stream_ok (Send_new n) []"
  using Send_inv_new
  by (auto simp: stream_ok_def Send_new_def holders_def sb_new_def sb_acked_def sbd_new_def)

lemma unacked_of_new [simp]: "unacked_of (Send_new n) = 0"
  by (simp add: unacked_of_def Send_is_reset_def Send_new_def sb_unacked_def sb_new_def sbd_new_def)

text \<open>Changes that do not touch the buffer.\<close>

lemma stream_ok_cong:
  assumes "stream_ok x R" and "s_pending y = s_pending x" and "s_max_data x \<le> s_max_data y" and "s_max_data y < 2 ^ 62"
    and "Send_is_reset x \<Longrightarrow> Send_is_reset y"
  shows "stream_ok y R"
  using assms by (auto simp: stream_ok_def Send_inv_def)

lemma stream_ok_ranges: "stream_ok x R \<Longrightarrow> r \<in> set R \<Longrightarrow> fst r \<le> snd r \<and> snd r \<le> sb_unsent (s_pending x)"
  by (simp add: stream_ok_def)

lemma filter_remove1_length:
  "r \<in> set R \<Longrightarrow> length (filter P R) = of_bool (P r) + length (filter P (remove1 r R))"
  by (induction R) auto

lemma stream_ok_write:
  fixes limit :: nat
  assumes ok: "stream_ok x R" and ready: "s_state x = Ready" "s_stop_reason x = None"
    and credit: "Send_offset x < s_max_data x"
  defines "n \<equiv> min limit (s_max_data x - Send_offset x)"
  shows "\<exists>w src' x'. Send_write src limit x = Some (Inr (w, src', x')) \<and> stream_ok x' R \<and>
     w_bytes w = min n (length (src_bytes src)) \<and> src_bytes src' = drop n (src_bytes src) \<and>
     x' = x\<lparr>s_pending := s_pending x'\<rparr> \<and> unacked_of x' = unacked_of x + w_bytes w \<and>
     Send_offset x' = Send_offset x + w_bytes w \<and> (Send_is_pending x \<longrightarrow> Send_is_pending x')"
proof -
  obtain xs where inv: "Send_inv xs x"
    using ok by (auto simp: stream_ok_def)
  have off: "Send_offset x = length xs"
    using Send_offset_inv [OF inv] .
  have sb: "sb_inv xs (s_pending x)"
    using inv by (simp add: Send_inv_def)
  from Send_write_ok [OF inv ready, of src limit] credit obtain w src' x' where
    w: "Send_write src limit x = Some (Inr (w, src', x'))" "w_bytes w = min n (length (src_bytes src))"
      "src_bytes src' = drop n (src_bytes src)" "Send_inv (xs @ take n (src_bytes src)) x'"
      "x' = x\<lparr>s_pending := s_pending x'\<rparr>" and b: "sb_acked (s_pending x') = sb_acked (s_pending x)"
      "sb_unsent (s_pending x') = sb_unsent (s_pending x)"
      "sb_retransmits (s_pending x') = sb_retransmits (s_pending x)"
    unfolding off n_def by blast
  have x': "s_max_data x' = s_max_data x" "s_state x' = s_state x" "s_fin_pending x' = s_fin_pending x"
    using w(5) by (metis Send.simps(1,2,5) Send.surjective Send.update_convs(3))+
  have sb': "sb_inv (xs @ take n (src_bytes src)) (s_pending x')"
    using w(4) by (simp add: Send_inv_def)
  have len: "length (xs @ take n (src_bytes src)) = length xs + w_bytes w"
    by (simp add: w(2))
  have "stream_ok x' R"
    using ok w(4) b x' by (auto simp: stream_ok_def holders_def Send_is_reset_def)
  moreover have "unacked_of x' = unacked_of x + w_bytes w"
    using sb_unacked_inv [OF sb] sb_unacked_inv [OF sb'] ready x'(2) b(1) len
    by (simp add: unacked_of_def Send_is_reset_def)
  moreover have "Send_offset x' = Send_offset x + w_bytes w"
    using Send_offset_inv [OF w(4)] off len by simp
  moreover from this have "Send_is_pending x \<longrightarrow> Send_is_pending x'"
    using sb b x'(3) off
    by (auto simp: Send_is_pending_def sb_has_unsent_data_def Send_offset_def sb_inv_def)
  ultimately show ?thesis
    using w by blast
qed

lemma stream_ok_ack:
  assumes ok: "stream_ok x R" and r: "sm_offsets m \<in> set R" and live: "\<not> Send_is_reset x"
  shows "\<exists>closed x'. Send_ack m x = Some (closed, x') \<and> stream_ok x' (remove1 (sm_offsets m) R) \<and>
     unacked_of x = unacked_of x' + (snd (sm_offsets m) - fst (sm_offsets m)) \<and>
     s_connection_blocked x' = s_connection_blocked x \<and> s_priority x' = s_priority x \<and> \<not> Send_is_reset x' \<and>
     (s_state x' = Ready \<longleftrightarrow> s_state x = Ready) \<and> (closed \<longrightarrow> s_state x \<noteq> Ready) \<and>
     (Send_is_pending x' \<longrightarrow> Send_is_pending x) \<and> (closed \<longrightarrow> unacked_of x' = 0)"
proof -
  let ?r = "sm_offsets m"
  obtain xs where inv: "Send_inv xs x"
    using ok by (auto simp: stream_ok_def)
  have rr: "fst ?r \<le> snd ?r" "snd ?r \<le> sb_unsent (s_pending x)"
    using stream_ok_ranges [OF ok r] by auto
  from Send_ack_spec [OF inv rr(2)] obtain x' closed where
    x': "Send_ack m x = Some (closed, x')" "Send_inv xs x'"
      "sb_acked (s_pending x') = sb_acked (s_pending x) \<union> rset ?r" "sb_unsent (s_pending x') = sb_unsent (s_pending x)"
      "ars_set (sb_retransmits (s_pending x')) =
         ars_set (sb_retransmits (s_pending x)) - {0..<sbd_offset (sb_data (s_pending x'))}"
      "s_fin_pending x' = s_fin_pending x" "s_max_data x' = s_max_data x" "s_priority x' = s_priority x"
      "s_connection_blocked x' = s_connection_blocked x" "s_state x' = ResetSent \<longleftrightarrow> s_state x = ResetSent"
      "s_state x' = Ready \<longleftrightarrow> s_state x = Ready" "closed \<longrightarrow> sb_is_fully_acked (s_pending x')"
      "closed \<longrightarrow> s_state x \<noteq> Ready"
    by (auto split: SendState.splits)
  have sb: "sb_inv xs (s_pending x)" "sb_inv xs (s_pending x')"
    using inv x'(2) by (simp_all add: Send_inv_def)
  have hold: "holders (s_pending x) R n \<le> of_bool (n < sb_unsent (s_pending x))"
    "n < sb_unsent (s_pending x) \<Longrightarrow> 1 \<le> holders (s_pending x) R n" for n
    using ok live by (auto simp: stream_ok_def)
  have fl: "length (filter (\<lambda>q. n \<in> rset q) R) =
      of_bool (n \<in> rset ?r) + length (filter (\<lambda>q. n \<in> rset q) (remove1 ?r R))" for n
    using filter_remove1_length [OF r] by blast
  have disj: "n \<notin> sb_acked (s_pending x)" "n \<notin> ars_set (sb_retransmits (s_pending x))" if "n \<in> rset ?r" for n
    using hold(1) [of n] fl [of n] that by (auto simp: holders_def of_bool_def split: if_splits)
  have base: "n \<in> sb_acked (s_pending x')" if "n < sbd_offset (sb_data (s_pending x'))" for n
    using that by (simp add: sb_acked_def)
  have same: "holders (s_pending x') (remove1 ?r R) n = holders (s_pending x) R n" for n
  proof (cases "n \<in> rset ?r")
    case True
    then show ?thesis
      using disj [of n] fl [of n] by (simp add: holders_def x'(3,5))
  next
    case False
    have "n \<in> ars_set (sb_retransmits (s_pending x)) \<Longrightarrow> \<not> n < sbd_offset (sb_data (s_pending x'))"
      using base [of n] False hold(1) [of n] x'(3) by (auto simp: holders_def of_bool_def split: if_splits)
    then show ?thesis
      using False fl [of n] by (auto simp: holders_def x'(3,5))
  qed
  have "stream_ok x' (remove1 ?r R)"
    using ok x' hold by (auto simp: stream_ok_def same dest: notin_set_remove1)
  moreover have "rset ?r \<inter> sb_acked (s_pending x) = {}"
    using disj by blast
  then have card: "card (sb_acked (s_pending x')) = card (sb_acked (s_pending x)) + (snd ?r - fst ?r)"
    using sb_acked_le [OF sb(1)] finite_subset
    by (subst x'(3), subst card_Un_disjoint) (auto simp: card_rset rlen_def)
  then have "unacked_of x = unacked_of x' + (snd ?r - fst ?r)"
    using sb_unacked_inv [OF sb(1)] sb_unacked_inv [OF sb(2)] live x'(10)
    by (simp add: unacked_of_def Send_is_reset_def)
  moreover have "Send_is_pending x' \<longrightarrow> Send_is_pending x"
    using x'(4,5,6) sb_offset_inv [OF sb(1)] sb_offset_inv [OF sb(2)] sb
      ars_set_empty_iff [of "sb_retransmits (s_pending x)"] ars_set_empty_iff [of "sb_retransmits (s_pending x')"]
    by (auto simp: Send_is_pending_def sb_has_unsent_data_def ars_is_empty_def sb_inv_def)
  moreover have "closed \<longrightarrow> unacked_of x' = 0"
    using x'(12) sb_unacked_inv [OF sb(2)] sb_offset_inv [OF sb(2)] card_sb_acked [OF sb(2)]
    by (auto simp: unacked_of_def sb_is_fully_acked_def sb_offset_def sbd_range_def sb_unacked_def)
  ultimately show ?thesis
    using x' live by (auto simp: Send_is_reset_def)
qed

lemma stream_ok_lose:
  assumes ok: "stream_ok x R" and r: "r \<in> set R"
  shows "\<exists>b. sb_retransmit r (s_pending x) = Some b \<and>
     (\<forall>f. stream_ok (x\<lparr>s_fin_pending := f, s_pending := b\<rparr>) (remove1 r R) \<and>
        unacked_of (x\<lparr>s_fin_pending := f, s_pending := b\<rparr>) = unacked_of x)"
proof -
  obtain xs where inv: "Send_inv xs x"
    using ok by (auto simp: stream_ok_def)
  have rr: "fst r \<le> snd r" "snd r \<le> sb_unsent (s_pending x)"
    using stream_ok_ranges [OF ok r] by auto
  have sb: "sb_inv xs (s_pending x)"
    using inv by (simp add: Send_inv_def)
  from sb_retransmit_spec [OF this rr(2)] obtain b where
    b: "sb_retransmit r (s_pending x) = Some b" "sb_inv xs b" "sb_unsent b = sb_unsent (s_pending x)"
      "sb_acked b = sb_acked (s_pending x)"
      "ars_set (sb_retransmits b) = ars_set (sb_retransmits (s_pending x)) \<union> (rset r - {0..<sbd_offset (sb_data (s_pending x))})"
    by blast
  have hold: "holders (s_pending x) R n \<le> of_bool (n < sb_unsent (s_pending x))" for n
    using ok by (auto simp: stream_ok_def)
  have fl: "length (filter (\<lambda>q. n \<in> rset q) R) =
      of_bool (n \<in> rset r) + length (filter (\<lambda>q. n \<in> rset q) (remove1 r R))" for n
    using filter_remove1_length [OF r] by blast
  have disj: "n \<notin> sb_acked (s_pending x)" "n \<notin> ars_set (sb_retransmits (s_pending x))" if "n \<in> rset r" for n
    using hold [of n] fl [of n] that by (auto simp: holders_def of_bool_def split: if_splits)
  have same: "holders b (remove1 r R) n = holders (s_pending x) R n" for n
  proof (cases "n \<in> rset r")
    case True
    then have "\<not> n < sbd_offset (sb_data (s_pending x))"
      using disj(1) [of n] by (simp add: sb_acked_def)
    then show ?thesis
      using True disj [of n] fl [of n] by (simp add: holders_def b(4,5))
  next
    case False
    then show ?thesis
      using fl [of n] by (simp add: holders_def b(4,5))
  qed
  have "stream_ok (x\<lparr>s_fin_pending := f, s_pending := b\<rparr>) (remove1 r R)" for f
    using ok b(2) inv by (auto simp: stream_ok_def same b(3) Send_inv_def Send_is_reset_def dest: notin_set_remove1)
  moreover have "unacked_of (x\<lparr>s_fin_pending := f, s_pending := b\<rparr>) = unacked_of x" for f
    using sb_unacked_inv [OF sb] sb_unacked_inv [OF b(2)] b(4) by (simp add: unacked_of_def Send_is_reset_def)
  ultimately show ?thesis
    using b(1) by blast
qed

lemma stream_ok_transmit:
  assumes ok: "stream_ok x R" and m: "16 \<le> max_len"
  shows "\<exists>xs a e enc b. Send_inv xs x \<and> sb_poll_transmit max_len (s_pending x) = Some (((a, e), enc), b) \<and>
     sb_takes xs (s_pending x) a e b \<and>
     offset_field_size a + (if enc then 8 else 0) + (e - a) \<le> max_len \<and>
     (\<not> enc \<longrightarrow> offset_field_size a + (e - a) = max_len) \<and>
     (\<forall>f. stream_ok (x\<lparr>s_fin_pending := f, s_pending := b\<rparr>) ((a, e) # R) \<and>
        unacked_of (x\<lparr>s_fin_pending := f, s_pending := b\<rparr>) = unacked_of x)"
proof -
  obtain xs where inv: "Send_inv xs x" and lt: "length xs < 2 ^ 62"
    using ok by (auto simp: stream_ok_def Send_inv_def)
  have sb: "sb_inv xs (s_pending x)"
    using inv by (simp add: Send_inv_def)
  from sb_poll_transmit_spec [OF this lt m] obtain a e enc b where
    poll: "sb_poll_transmit max_len (s_pending x) = Some (((a, e), enc), b)" and t: "sb_takes xs (s_pending x) a e b"
    and size: "offset_field_size a + (if enc then 8 else 0) + (e - a) \<le> max_len"
      "\<not> enc \<longrightarrow> offset_field_size a + (e - a) = max_len"
    by blast
  have tk: "sb_inv xs b" "sb_acked b = sb_acked (s_pending x)" "a \<le> e" "e \<le> sb_unsent b"
    "{0..<sb_unsent b} = {0..<sb_unsent (s_pending x)} \<union> {a..<e}"
    "ars_set (sb_retransmits b) = ars_set (sb_retransmits (s_pending x)) - {a..<e}"
    "{a..<e} \<subseteq> sb_pending xs (s_pending x)"
    using t by (auto simp: sb_takes_def sb_acked_def)
  have un: "n < sb_unsent b \<longleftrightarrow> n < sb_unsent (s_pending x) \<or> n \<in> {a..<e}" for n
    using tk(5) by (metis atLeastLessThan_iff le0 Un_iff)
  have hold: "holders (s_pending x) R n \<le> of_bool (n < sb_unsent (s_pending x))"
    "\<not> Send_is_reset x \<Longrightarrow> n < sb_unsent (s_pending x) \<Longrightarrow> 1 \<le> holders (s_pending x) R n" for n
    using ok by (auto simp: stream_ok_def)
  have taken: "n \<in> {a..<e} \<Longrightarrow> n \<in> ars_set (sb_retransmits (s_pending x)) \<or> sb_unsent (s_pending x) \<le> n" for n
    using tk(7) by (auto simp: sb_pending_def)
  have same: "holders b ((a, e) # R) n = holders (s_pending x) R n + of_bool (n \<in> {a..<e} \<and> sb_unsent (s_pending x) \<le> n)" for n
  proof (cases "n \<in> ars_set (sb_retransmits (s_pending x))")
    case True
    then have "n < sb_unsent (s_pending x)"
      using sb by (auto simp: sb_inv_def)
    with True show ?thesis
      by (auto simp: holders_def tk(2,6))
  next
    case False
    then show ?thesis
      using taken [of n] by (auto simp: holders_def tk(2,6))
  qed
  have ok': "stream_ok (x\<lparr>s_fin_pending := f, s_pending := b\<rparr>) ((a, e) # R)" for f
  proof -
    have "holders b ((a, e) # R) n \<le> of_bool (n < sb_unsent b)" for n
      using hold(1) [of n] un [of n] by (auto simp: same of_bool_def split: if_splits)
    moreover have "1 \<le> holders b ((a, e) # R) n" if "\<not> Send_is_reset x" "n < sb_unsent b" for n
      using hold(2) [of n] that un [of n] by (auto simp: same)
    moreover have "sb_unsent (s_pending x) \<le> sb_unsent b"
      using un by (metis leI nat_less_le order.irrefl)
    ultimately show ?thesis
      using ok tk inv by (auto simp: stream_ok_def Send_inv_def Send_is_reset_def)
  qed
  moreover have "unacked_of (x\<lparr>s_fin_pending := f, s_pending := b\<rparr>) = unacked_of x" for f
    using sb_unacked_inv [OF sb] sb_unacked_inv [OF tk(1)] tk(2) by (simp add: unacked_of_def Send_is_reset_def)
  ultimately show ?thesis
    using inv poll t size by blast
qed

lemma stream_ok_unacked:
  assumes "stream_ok x R" and "\<not> Send_is_reset x"
  shows "sb_unacked (s_pending x) = Some (unacked_of x)"
proof -
  obtain xs where "sb_inv xs (s_pending x)"
    using assms(1) by (auto simp: stream_ok_def Send_inv_def)
  then show ?thesis
    using sb_unacked_inv assms(2) by (simp add: unacked_of_def)
qed

lemma unacked_of_cong:
  "s_pending y = s_pending x \<Longrightarrow> Send_is_reset y = Send_is_reset x \<Longrightarrow> unacked_of y = unacked_of x"
  by (simp add: unacked_of_def)

end
