(* ===== verification/Streams_State.thy ===== *)
theory Streams_State
  imports Send_Stream Recv_Stream Retransmits Pending_Queue Transport_Parameters
begin

text \<open>
  The state of all streams of a connection (\<open>StreamsState\<close> in
  \<open>noq-proto/src/connection/streams/state.rs\<close>): the tables of the two halves of the streams, the
  stream limits of both sides, connection flow control and the queue of pending streams.

  Arrays indexed by \<open>Dir\<close> are functions, hash maps are maps whose values are the optional halves
  (a half that has not been used has no state yet), and the vectors that are only pushed and popped
  at their end (\<open>free_recv\<close>, \<open>connection_blocked\<close>) are lists with the end first.  Operations
  that may panic return \<open>None\<close> then.
\<close>

section \<open>Definitions\<close>

datatype StreamRecv = Free Recv | Open Recv

definition as_open_recv :: "StreamRecv \<Rightarrow> Recv option" where
  "as_open_recv s = (case s of Open r \<Rightarrow> Some r | Free _ \<Rightarrow> None)"

definition into_inner_recv :: "StreamRecv \<Rightarrow> Recv" where
  "into_inner_recv s = (case s of Free r \<Rightarrow> r | Open r \<Rightarrow> r)"

definition StreamRecv_free :: "nat \<Rightarrow> StreamRecv \<Rightarrow> StreamRecv option" where
  "StreamRecv_free initial_max_data s =
     (case s of Free _ \<Rightarrow> None | Open recv \<Rightarrow> Some (Free (Recv_reinit initial_max_data recv)))"

datatype StreamEvent =
    Opened Dir | Readable StreamId | Writable StreamId | Finished StreamId
  | StoppedEvent StreamId VarInt | Available Dir

datatype StreamHalf = SendHalf | RecvHalf

record StreamsState =
  st_side :: Side
  st_send :: "StreamId \<Rightarrow> Send option option"
  st_recv :: "StreamId \<Rightarrow> StreamRecv option option"
  st_free_recv :: "StreamRecv list"
  st_next :: "Dir \<Rightarrow> nat"
  st_max :: "Dir \<Rightarrow> nat"
  st_max_remote :: "Dir \<Rightarrow> nat"
  st_sent_max_remote :: "Dir \<Rightarrow> nat"
  st_allocated_remote_count :: "Dir \<Rightarrow> nat"
  st_max_concurrent_remote_count :: "Dir \<Rightarrow> nat"
  st_flow_control_adjusted :: bool
  st_next_remote :: "Dir \<Rightarrow> nat"
  st_opened :: "Dir \<Rightarrow> bool"
  st_next_reported_remote :: "Dir \<Rightarrow> nat"
  st_send_streams :: nat
  st_pending :: PendingStreamsQueue
  st_events :: "StreamEvent list"
  st_connection_blocked :: "StreamId list"
  st_max_data :: nat
  st_receive_window :: nat
  st_local_max_data :: nat
  st_sent_max_data :: nat
  st_data_sent :: nat
  st_data_recvd :: nat
  st_unacked_data :: nat
  st_send_window :: nat
  st_stream_receive_window :: nat
  st_initial_max_stream_data_uni :: nat
  st_initial_max_stream_data_bidi_local :: nat
  st_initial_max_stream_data_bidi_remote :: nat
  st_receive_window_shrink_debt :: nat
  st_streams_blocked :: "Dir \<Rightarrow> bool"

text \<open>A \<open>for\<close> loop over a list with a body that may panic.\<close>

fun for_each :: "('a \<Rightarrow> 's \<Rightarrow> 's option) \<Rightarrow> 'a list \<Rightarrow> 's \<Rightarrow> 's option" where
  "for_each f [] s = Some s"
| "for_each f (x # xs) s = (case f x s of None \<Rightarrow> None | Some s \<Rightarrow> for_each f xs s)"

text \<open>The closures \<open>get_or_insert_send\<close> and \<open>get_or_insert_recv\<close>: the state that the slot holds afterwards.\<close>

definition get_or_insert_send :: "nat \<Rightarrow> Send option \<Rightarrow> Send" where
  "get_or_insert_send max_data opt = (case opt of None \<Rightarrow> Send_new max_data | Some s \<Rightarrow> s)"

definition get_or_insert_recv :: "nat \<Rightarrow> StreamRecv option \<Rightarrow> Recv" where
  "get_or_insert_recv initial_max_data opt =
     (case opt of None \<Rightarrow> Recv_new initial_max_data | Some (Free recv) \<Rightarrow> recv | Some (Open recv) \<Rightarrow> recv)"

definition put_send :: "StreamId \<Rightarrow> Send \<Rightarrow> StreamsState \<Rightarrow> StreamsState" where
  "put_send i x s = s\<lparr>st_send := (st_send s)(i \<mapsto> Some x)\<rparr>"

definition put_recv :: "StreamId \<Rightarrow> Recv \<Rightarrow> StreamsState \<Rightarrow> StreamsState" where
  "put_recv i x s = s\<lparr>st_recv := (st_recv s)(i \<mapsto> Some (Open x))\<rparr>"

definition push_event :: "StreamEvent \<Rightarrow> StreamsState \<Rightarrow> StreamsState" where
  "push_event e s = s\<lparr>st_events := st_events s @ [e]\<rparr>"

subsection \<open>Creating streams\<close>

definition streams_insert :: "bool \<Rightarrow> StreamId \<Rightarrow> StreamsState \<Rightarrow> StreamsState option" where
  "streams_insert remote i s = do {
     let bi = (StreamId_dir i = Bi);
     s \<leftarrow> (if bi \<or> \<not> remote then do {
             assert_opt (st_send s i = None);
             Some (s\<lparr>st_send := (st_send s)(i \<mapsto> None)\<rparr>) }
           else Some s);
     if bi \<or> remote then do {
       let (recv, free) = (case st_free_recv s of [] \<Rightarrow> (None, []) | r # rs \<Rightarrow> (Some r, rs));
       assert_opt (st_recv s i = None);
       Some (s\<lparr>st_free_recv := free, st_recv := (st_recv s)(i \<mapsto> recv)\<rparr>) }
     else Some s }"

definition insert_remote :: "Dir \<Rightarrow> nat \<Rightarrow> StreamsState \<Rightarrow> StreamsState option" where
  "insert_remote dir i s = streams_insert True (StreamId_new (Side_not (st_side s)) dir i) s"

definition StreamsState_new :: "Side \<Rightarrow> nat \<Rightarrow> nat \<Rightarrow> nat \<Rightarrow> nat \<Rightarrow> nat \<Rightarrow> StreamsState option" where
  "StreamsState_new side max_remote_uni max_remote_bi send_window receive_window stream_receive_window =
     (let remote = (\<lambda>d. case d of Bi \<Rightarrow> max_remote_bi | Uni \<Rightarrow> max_remote_uni) in
      for_each (\<lambda>dir s. for_each (insert_remote dir) [0..<st_max_remote s dir] s) Dir_iter
       \<lparr>st_side = side, st_send = Map.empty, st_recv = Map.empty, st_free_recv = [], st_next = (\<lambda>_. 0),
        st_max = (\<lambda>_. 0), st_max_remote = remote, st_sent_max_remote = remote,
        st_allocated_remote_count = remote, st_max_concurrent_remote_count = remote,
        st_flow_control_adjusted = False, st_next_remote = (\<lambda>_. 0), st_opened = (\<lambda>_. False),
        st_next_reported_remote = (\<lambda>_. 0), st_send_streams = 0, st_pending = pq_new, st_events = [],
        st_connection_blocked = [], st_max_data = 0, st_receive_window = receive_window,
        st_local_max_data = receive_window, st_sent_max_data = receive_window, st_data_sent = 0,
        st_data_recvd = 0, st_unacked_data = 0, st_send_window = send_window,
        st_stream_receive_window = stream_receive_window, st_initial_max_stream_data_uni = 0,
        st_initial_max_stream_data_bidi_local = 0, st_initial_max_stream_data_bidi_remote = 0,
        st_receive_window_shrink_debt = 0, st_streams_blocked = (\<lambda>_. False)\<rparr>)"

definition received_max_data :: "nat \<Rightarrow> StreamsState \<Rightarrow> StreamsState" where
  "received_max_data n s = s\<lparr>st_max_data := max (st_max_data s) n\<rparr>"

definition set_params_stream :: "nat \<Rightarrow> nat \<Rightarrow> StreamsState \<Rightarrow> StreamsState" where
  "set_params_stream max_data i s =
     (let i = StreamId_new (Side_not (st_side s)) Bi i in
      case st_send s i of
        Some (Some x) \<Rightarrow> put_send i (x\<lparr>s_max_data := max_data\<rparr>) s
      | _ \<Rightarrow> s)"

definition set_params :: "TransportParameters \<Rightarrow> StreamsState \<Rightarrow> StreamsState" where
  "set_params params s =
     (let v = (\<lambda>i. unat (into_inner (tp_int params i)));
          s = s\<lparr>st_initial_max_stream_data_uni := v InitialMaxStreamDataUni,
                st_initial_max_stream_data_bidi_local := v InitialMaxStreamDataBidiLocal,
                st_initial_max_stream_data_bidi_remote := v InitialMaxStreamDataBidiRemote,
                st_max := (st_max s)(Bi := v InitialMaxStreamsBidi, Uni := v InitialMaxStreamsUni)\<rparr>;
          s = received_max_data (v InitialMaxData) s in
      fold (set_params_stream (v InitialMaxStreamDataBidiLocal)) [0..<st_max_remote s Bi] s)"

definition ensure_remote_streams :: "Dir \<Rightarrow> StreamsState \<Rightarrow> StreamsState option" where
  "ensure_remote_streams dir s = do {
     let new_count = st_max_concurrent_remote_count s dir - st_allocated_remote_count s dir;
     s \<leftarrow> for_each (insert_remote dir) [st_max_remote s dir..<st_max_remote s dir + new_count] s;
     Some (s\<lparr>st_allocated_remote_count := (st_allocated_remote_count s)(dir := st_allocated_remote_count s dir + new_count),
             st_max_remote := (st_max_remote s)(dir := st_max_remote s dir + new_count)\<rparr>) }"

definition zero_rtt_remove :: "Dir \<Rightarrow> nat \<Rightarrow> StreamsState \<Rightarrow> StreamsState option" where
  "zero_rtt_remove dir i s = do {
     let i = StreamId_new (st_side s) dir i;
     assert_opt (st_send s i \<noteq> None);
     let s = s\<lparr>st_send := (st_send s)(i := None)\<rparr>;
     if dir = Bi then do {
       assert_opt (st_recv s i \<noteq> None);
       Some (s\<lparr>st_recv := (st_recv s)(i := None)\<rparr>) }
     else Some s }"

definition zero_rtt_rejected :: "StreamsState \<Rightarrow> StreamsState option" where
  "zero_rtt_rejected s = do {
     s \<leftarrow> for_each (\<lambda>dir s. do {
         s \<leftarrow> for_each (zero_rtt_remove dir) [0..<st_next s dir] s;
         let s = s\<lparr>st_next := (st_next s)(dir := 0)\<rparr>;
         Some (if st_flow_control_adjusted s
               then s\<lparr>st_sent_max_remote := (st_sent_max_remote s)(dir := 0)\<rparr> else s) }) Dir_iter s;
     Some (s\<lparr>st_pending := pq_clear (st_pending s), st_send_streams := 0, st_data_sent := 0,
             st_connection_blocked := []\<rparr>) }"

subsection \<open>Bookkeeping\<close>

definition max_send_data :: "StreamId \<Rightarrow> StreamsState \<Rightarrow> nat" where
  "max_send_data i s =
     (let remote = (st_side s \<noteq> StreamId_initiator i) in
      case StreamId_dir i of
        Uni \<Rightarrow> st_initial_max_stream_data_uni s
      | Bi \<Rightarrow> if remote then st_initial_max_stream_data_bidi_local s else st_initial_max_stream_data_bidi_remote s)"

text \<open>\<open>max_data - data_sent\<close> underflows when more has been sent than allowed.\<close>

definition write_limit :: "StreamsState \<Rightarrow> nat option" where
  "write_limit s = do {
     n \<leftarrow> csub (st_max_data s) (st_data_sent s);
     Some (min n (st_send_window s - st_unacked_data s)) }"

definition add_read_credits :: "nat \<Rightarrow> StreamsState \<Rightarrow> (bool \<times> StreamsState) option" where
  "add_read_credits credits s = do {
     let s = (if credits > st_receive_window_shrink_debt s
              then s\<lparr>st_local_max_data := sat_add (st_local_max_data s) (credits - st_receive_window_shrink_debt s),
                     st_receive_window_shrink_debt := 0\<rparr>
              else s\<lparr>st_receive_window_shrink_debt := st_receive_window_shrink_debt s - credits\<rparr>);
     if st_local_max_data s > 2 ^ 62 - 1 then Some (False, s)
     else do {
       diff \<leftarrow> csub (st_local_max_data s) (st_sent_max_data s);
       Some (diff \<ge> st_receive_window s div 8, s) } }"

definition stream_freed :: "StreamId \<Rightarrow> StreamHalf \<Rightarrow> StreamsState \<Rightarrow> StreamsState option" where
  "stream_freed i half s = do {
     s \<leftarrow> (if StreamId_initiator i \<noteq> st_side s then do {
             let dir = StreamId_dir i;
             let fully_free = (dir = Uni \<or>
               (case half of SendHalf \<Rightarrow> st_recv s i = None | RecvHalf \<Rightarrow> st_send s i = None));
             if fully_free then do {
               count \<leftarrow> csub (st_allocated_remote_count s dir) 1;
               ensure_remote_streams dir
                 (s\<lparr>st_allocated_remote_count := (st_allocated_remote_count s)(dir := count)\<rparr>) }
             else Some s }
           else Some s);
     if half = SendHalf then do {
       n \<leftarrow> csub (st_send_streams s) 1;
       Some (s\<lparr>st_send_streams := n\<rparr>) }
     else Some s }"

definition stream_recv_freed :: "StreamId \<Rightarrow> StreamRecv \<Rightarrow> StreamsState \<Rightarrow> StreamsState option" where
  "stream_recv_freed i recv s = do {
     r \<leftarrow> StreamRecv_free (st_stream_receive_window s) recv;
     stream_freed i RecvHalf (s\<lparr>st_free_recv := r # st_free_recv s\<rparr>) }"

text \<open>The removal of an entry that is known to hold a state (\<open>remove(..).flatten().unwrap()\<close>).\<close>

definition remove_recv :: "StreamId \<Rightarrow> StreamsState \<Rightarrow> StreamsState option" where
  "remove_recv i s =
     (case st_recv s i of
        Some (Some rs) \<Rightarrow> stream_recv_freed i rs (s\<lparr>st_recv := (st_recv s)(i := None)\<rparr>)
      | _ \<Rightarrow> None)"

definition on_stream_frame :: "bool \<Rightarrow> StreamId \<Rightarrow> StreamsState \<Rightarrow> StreamsState" where
  "on_stream_frame notify_readable i s =
     (if StreamId_initiator i = st_side s then
        if notify_readable then push_event (Readable i) s else s
      else
        let dir = StreamId_dir i in
        if StreamId_index i \<ge> st_next_remote s dir
        then s\<lparr>st_next_remote := (st_next_remote s)(dir := StreamId_index i + 1),
               st_opened := (st_opened s)(dir := True)\<rparr>
        else if notify_readable then push_event (Readable i) s
        else s)"

definition validate_receive_id :: "StreamId \<Rightarrow> StreamsState \<Rightarrow> TransportError + unit" where
  "validate_receive_id i s =
     (if st_side s = StreamId_initiator i then
        case StreamId_dir i of
          Uni \<Rightarrow> Inl STREAM_STATE_ERROR
        | Bi \<Rightarrow> if StreamId_index i \<ge> st_next s Bi then Inl STREAM_STATE_ERROR else Inr ()
      else if StreamId_index i \<ge> st_max_remote s (StreamId_dir i) then Inl STREAM_LIMIT_ERROR
      else Inr ())"

definition is_local_unopened :: "StreamId \<Rightarrow> StreamsState \<Rightarrow> bool" where
  "is_local_unopened i s = (StreamId_index i \<ge> st_next s (StreamId_dir i))"

subsection \<open>Frames from the peer\<close>

definition received :: "StreamFrame \<Rightarrow> nat \<Rightarrow> StreamsState \<Rightarrow> ((TransportError + bool) \<times> StreamsState) option" where
  "received frame payload_len s =
     (let i = sf_id frame in
      case validate_receive_id i s of
        Inl e \<Rightarrow> Some (Inl e, s)
      | Inr _ \<Rightarrow>
          (case st_recv s i of
             None \<Rightarrow> Some (Inr False, s)
           | Some slot \<Rightarrow>
               let rs = get_or_insert_recv (st_stream_receive_window s) slot; s = put_recv i rs s in
               if \<not> Recv_is_receiving rs then Some (Inr False, s)
               else do {
                 res \<leftarrow> Recv_ingest frame payload_len (st_data_recvd s) (st_local_max_data s) rs;
                 case res of
                   Inl e \<Rightarrow> Some (Inl e, s)
                 | Inr ((new_bytes, closed), rs) \<Rightarrow> do {
                     let s = (put_recv i rs s)\<lparr>st_data_recvd := sat_add (st_data_recvd s) new_bytes\<rparr>;
                     if \<not> r_stopped rs then Some (Inr False, on_stream_frame True i s)
                     else do {
                       s \<leftarrow> (if closed then remove_recv i s else Some s);
                       (transmit, s) \<leftarrow> add_read_credits new_bytes s;
                       Some (Inr transmit, s) } } }))"

definition received_reset :: "ResetStream \<Rightarrow> StreamsState \<Rightarrow> ((TransportError + bool) \<times> StreamsState) option" where
  "received_reset frame s =
     (let i = rs_id frame; final_offset = unat (into_inner (rs_final_offset frame)) in
      case validate_receive_id i s of
        Inl e \<Rightarrow> Some (Inl e, s)
      | Inr _ \<Rightarrow>
          (case st_recv s i of
             None \<Rightarrow> Some (Inr False, s)
           | Some slot \<Rightarrow>
               let rs = get_or_insert_recv (st_stream_receive_window s) slot; s = put_recv i rs s in
               case Recv_reset (rs_error_code frame) final_offset (st_data_recvd s) (st_local_max_data s) rs of
                 Inl e \<Rightarrow> Some (Inl e, s)
               | Inr (False, rs) \<Rightarrow> Some (Inr False, put_recv i rs s)
               | Inr (True, rs) \<Rightarrow> do {
                   let s = put_recv i rs s;
                   let bytes_read = a_bytes_read (r_assembler rs);
                   let stopped = r_stopped rs;
                   let e = r_end rs;
                   s \<leftarrow> (if stopped then remove_recv i s else Some s);
                   let s = on_stream_frame (\<not> stopped) i s;
                   if bytes_read \<noteq> final_offset then do {
                     new_bytes \<leftarrow> csub final_offset e;
                     let s = s\<lparr>st_data_recvd := sat_add (st_data_recvd s) new_bytes\<rparr>;
                     credits \<leftarrow> csub final_offset bytes_read;
                     (transmit, s) \<leftarrow> add_read_credits credits s;
                     Some (Inr transmit, s) }
                   else Some (Inr False, s) }))"

definition received_stop_sending :: "StreamId \<Rightarrow> VarInt \<Rightarrow> StreamsState \<Rightarrow> StreamsState" where
  "received_stop_sending i error_code s =
     (case st_send s i of
        None \<Rightarrow> s
      | Some slot \<Rightarrow>
          let stream = get_or_insert_send (max_send_data i s) slot;
              (stopped, stream) = Send_try_stop error_code stream;
              s = put_send i stream s in
          if stopped then on_stream_frame False i (push_event (StoppedEvent i error_code) s) else s)"

definition reset_acked :: "StreamId \<Rightarrow> StreamsState \<Rightarrow> StreamsState option" where
  "reset_acked i s =
     (case st_send s i of
        Some (Some x) \<Rightarrow>
          if s_state x = ResetSent then stream_freed i SendHalf (s\<lparr>st_send := (st_send s)(i := None)\<rparr>) else Some s
      | _ \<Rightarrow> Some s)"

definition received_ack_of :: "StreamMeta \<Rightarrow> StreamsState \<Rightarrow> StreamsState option" where
  "received_ack_of frame s =
     (let i = sm_id frame in
      case st_send s i of
        Some (Some stream) \<Rightarrow>
          if Send_is_reset stream then Some s
          else do {
            len \<leftarrow> csub (snd (sm_offsets frame)) (fst (sm_offsets frame));
            unacked \<leftarrow> csub (st_unacked_data s) len;
            (closed, stream) \<leftarrow> Send_ack frame stream;
            let s = (put_send i stream s)\<lparr>st_unacked_data := unacked\<rparr>;
            if \<not> closed then Some s
            else do {
              s \<leftarrow> stream_freed i SendHalf (s\<lparr>st_send := (st_send s)(i := None)\<rparr>);
              Some (push_event (Finished i) s) } }
      | _ \<Rightarrow> Some s)"

definition retransmit :: "StreamMeta \<Rightarrow> StreamsState \<Rightarrow> StreamsState option" where
  "retransmit frame s =
     (let i = sm_id frame in
      case st_send s i of
        Some (Some stream) \<Rightarrow> do {
          pending \<leftarrow> (if \<not> Send_is_pending stream then push_pending i (s_priority stream) (st_pending s)
                     else Some (st_pending s));
          buf \<leftarrow> sb_retransmit (sm_offsets frame) (s_pending stream);
          Some (put_send i (stream\<lparr>s_fin_pending := (s_fin_pending stream \<or> sm_fin frame), s_pending := buf\<rparr>)
                  (s\<lparr>st_pending := pending\<rparr>)) }
      | _ \<Rightarrow> Some s)"

definition retransmit_stream_for_0rtt :: "Dir \<Rightarrow> nat \<Rightarrow> StreamsState \<Rightarrow> StreamsState option" where
  "retransmit_stream_for_0rtt dir index s =
     (let i = StreamId_new Client dir index in
      case st_send s i of
        Some (Some stream) \<Rightarrow>
          if sb_is_fully_acked (s_pending stream) \<and> \<not> s_fin_pending stream then Some s
          else do {
            pending \<leftarrow> (if \<not> Send_is_pending stream then push_pending i (s_priority stream) (st_pending s)
                       else Some (st_pending s));
            buf \<leftarrow> sb_retransmit_all_for_0rtt (s_pending stream);
            Some (put_send i (stream\<lparr>s_pending := buf\<rparr>) (s\<lparr>st_pending := pending\<rparr>)) }
      | _ \<Rightarrow> Some s)"

definition retransmit_all_for_0rtt :: "StreamsState \<Rightarrow> StreamsState option" where
  "retransmit_all_for_0rtt s =
     for_each (\<lambda>dir s. for_each (retransmit_stream_for_0rtt dir) [0..<st_next s dir] s) Dir_iter s"

definition received_max_streams :: "Dir \<Rightarrow> nat \<Rightarrow> StreamsState \<Rightarrow> (TransportError + unit) \<times> StreamsState" where
  "received_max_streams dir n s =
     (if n > MAX_STREAM_COUNT then (Inl FRAME_ENCODING_ERROR, s)
      else if n > st_max s dir
      then (Inr (), push_event (Available dir)
             (s\<lparr>st_max := (st_max s)(dir := n), st_streams_blocked := (st_streams_blocked s)(dir := False)\<rparr>))
      else (Inr (), s))"

definition received_max_stream_data :: "StreamId \<Rightarrow> nat \<Rightarrow> StreamsState \<Rightarrow>
    ((TransportError + unit) \<times> StreamsState) option" where
  "received_max_stream_data i off s =
     (if StreamId_initiator i \<noteq> st_side s \<and> StreamId_dir i = Uni then Some (Inl STREAM_STATE_ERROR, s)
      else do {
        limit \<leftarrow> write_limit s;
        case st_send s i of
          Some slot \<Rightarrow>
            let ss = get_or_insert_send (max_send_data i s) slot;
                (unblocked, ss) = Send_increase_max_data off ss;
                s = put_send i ss s in
            let s = (if \<not> unblocked then s
                     else if limit > 0 then push_event (Writable i) s
                     else if \<not> s_connection_blocked ss
                     then (put_send i (ss\<lparr>s_connection_blocked := True\<rparr>) s)
                            \<lparr>st_connection_blocked := i # st_connection_blocked s\<rparr>
                     else s) in
            Some (Inr (), on_stream_frame False i s)
        | None \<Rightarrow>
            if StreamId_initiator i = st_side s \<and> is_local_unopened i s then Some (Inl STREAM_STATE_ERROR, s)
            else Some (Inr (), on_stream_frame False i s) })"

subsection \<open>Events, limits and windows\<close>

fun poll_blocked :: "StreamId list \<Rightarrow> (StreamId \<Rightarrow> Send option option) \<Rightarrow>
    (StreamEvent option \<times> StreamId list \<times> (StreamId \<Rightarrow> Send option option)) option" where
  "poll_blocked [] send = Some (None, [], send)"
| "poll_blocked (i # blocked) send =
     (case send i of
        Some (Some stream) \<Rightarrow>
          if \<not> s_connection_blocked stream then None
          else
            let stream = stream\<lparr>s_connection_blocked := False\<rparr>; send = send(i \<mapsto> Some stream) in
            if Send_is_writable stream \<and> s_max_data stream > Send_offset stream
            then Some (Some (Writable i), blocked, send)
            else poll_blocked blocked send
      | _ \<Rightarrow> poll_blocked blocked send)"

definition streams_poll :: "StreamsState \<Rightarrow> (StreamEvent option \<times> StreamsState) option" where
  "streams_poll s =
     (case List.find (st_opened s) Dir_iter of
        Some dir \<Rightarrow> Some (Some (Opened dir), s\<lparr>st_opened := (st_opened s)(dir := False)\<rparr>)
      | None \<Rightarrow> do {
          limit \<leftarrow> write_limit s;
          (event, s) \<leftarrow> (if limit > 0 then do {
              (event, blocked, send) \<leftarrow> poll_blocked (st_connection_blocked s) (st_send s);
              Some (event, s\<lparr>st_connection_blocked := blocked, st_send := send\<rparr>) }
            else Some (None, s));
          case event of
            Some e \<Rightarrow> Some (Some e, s)
          | None \<Rightarrow>
              (case st_events s of
                 [] \<Rightarrow> Some (None, s)
               | e # es \<Rightarrow> Some (Some e, s\<lparr>st_events := es\<rparr>)) })"

fun queue_max_stream_id_loop :: "Dir list \<Rightarrow> StreamsState \<Rightarrow> bool \<times> Retransmits \<Rightarrow> (bool \<times> Retransmits) option" where
  "queue_max_stream_id_loop [] s acc = Some acc"
| "queue_max_stream_id_loop (dir # dirs) s acc = do {
     diff \<leftarrow> csub (st_max_remote s dir) (st_sent_max_remote s dir);
     queue_max_stream_id_loop dirs s
       (if diff > st_max_concurrent_remote_count s dir div 8
        then (True, (snd acc)\<lparr>rt_max_stream_id := (rt_max_stream_id (snd acc))(dir := True)\<rparr>)
        else acc) }"

definition queue_max_stream_id :: "Retransmits \<Rightarrow> StreamsState \<Rightarrow> (bool \<times> Retransmits) option" where
  "queue_max_stream_id pending s = queue_max_stream_id_loop Dir_iter s (False, pending)"

definition can_send_stream_data :: "StreamsState \<Rightarrow> bool" where
  "can_send_stream_data s =
     list_ex (\<lambda>p. case st_send s (ps_id p) of Some (Some x) \<Rightarrow> \<not> Send_is_reset x | _ \<Rightarrow> False) (pq_iter (st_pending s))"

definition can_send_flow_control :: "StreamId \<Rightarrow> StreamsState \<Rightarrow> bool" where
  "can_send_flow_control i s =
     (case st_recv s i of
        Some (Some x) \<Rightarrow> (case as_open_recv x of Some r \<Rightarrow> Recv_can_send_flow_control r | None \<Rightarrow> False)
      | _ \<Rightarrow> False)"

definition set_max_concurrent :: "Dir \<Rightarrow> nat \<Rightarrow> StreamsState \<Rightarrow> StreamsState option" where
  "set_max_concurrent dir n s =
     ensure_remote_streams dir
       (s\<lparr>st_flow_control_adjusted := True,
          st_max_concurrent_remote_count := (st_max_concurrent_remote_count s)(dir := n)\<rparr>)"

definition max_concurrent :: "Dir \<Rightarrow> StreamsState \<Rightarrow> nat" where
  "max_concurrent dir s = st_allocated_remote_count s dir"

definition set_send_window :: "nat \<Rightarrow> StreamsState \<Rightarrow> StreamsState" where
  "set_send_window send_window s = s\<lparr>st_send_window := send_window\<rparr>"

definition set_receive_window :: "nat \<Rightarrow> StreamsState \<Rightarrow> bool \<times> StreamsState" where
  "set_receive_window receive_window s =
     (if receive_window > st_receive_window s
      then (True, s\<lparr>st_local_max_data := sat_add (st_local_max_data s) (receive_window - st_receive_window s),
                    st_receive_window := receive_window\<rparr>)
      else (False, s\<lparr>st_receive_window_shrink_debt :=
                       sat_add (st_receive_window_shrink_debt s) (st_receive_window s - receive_window),
                     st_receive_window := receive_window\<rparr>))"

end
