(* ===== verification/Streams_Inv.thy ===== *)
theory Streams_Inv
  imports Stream_Flight Streams_State
begin

text \<open>
  The invariant of the state of the streams, in five parts: the tables and counters of streams, the
  receiving halves with flow control on received data, the sending halves with flow control and the
  ranges in flight, the queue of pending streams, and the streams blocked by the connection.
\<close>

section \<open>The invariant\<close>

text \<open>Ids that have been handed out, and those among them that the application can know.\<close>

definition allocated :: "StreamsState \<Rightarrow> StreamId \<Rightarrow> bool" where
  "allocated s i \<longleftrightarrow>
     StreamId_index i < (if StreamId_initiator i = st_side s then st_next s (StreamId_dir i) else st_max_remote s (StreamId_dir i))"

definition known :: "StreamsState \<Rightarrow> StreamId \<Rightarrow> bool" where
  "known s i \<longleftrightarrow> StreamId_initiator i = st_side s \<or> StreamId_index i < st_next_reported_remote s (StreamId_dir i)"

definition remote_ids :: "StreamsState \<Rightarrow> Dir \<Rightarrow> StreamId set" where
  "remote_ids s d = {i. StreamId_initiator i \<noteq> st_side s \<and> StreamId_dir i = d \<and> (st_send s i \<noteq> None \<or> st_recv s i \<noteq> None)}"

text \<open>
  The sending halves that count as open: those in the table, and the ids that were accepted before
  they were allocated (\<open>received_max_stream_data\<close> does not check the limit).
\<close>

definition known_sends :: "StreamsState \<Rightarrow> StreamId set" where
  "known_sends s = {i. known s i \<and>
     (if allocated s i then st_send s i \<noteq> None else StreamId_initiator i \<noteq> st_side s \<and> StreamId_dir i = Bi)}"

definition tables_range :: "StreamsState \<Rightarrow> bool" where
  "tables_range s \<longleftrightarrow>
     (\<forall>i. st_send s i \<noteq> None \<longrightarrow> allocated s i \<and> (StreamId_initiator i = st_side s \<or> StreamId_dir i = Bi)) \<and>
     (\<forall>i. st_recv s i \<noteq> None \<longrightarrow> allocated s i \<and> (StreamId_initiator i \<noteq> st_side s \<or> StreamId_dir i = Bi)) \<and>
     (\<forall>d. st_sent_max_remote s d \<le> st_max_remote s d)"

definition tables_ok :: "StreamsState \<Rightarrow> bool" where
  "tables_ok s \<longleftrightarrow> tables_range s \<and>
     (\<forall>d. card (remote_ids s d) \<le> st_allocated_remote_count s d) \<and> card (known_sends s) \<le> st_send_streams s"

definition Recv_good :: "nat \<Rightarrow> Recv \<Rightarrow> bool" where
  "Recv_good w r \<longleftrightarrow> Recv_inv r \<and> Recv_window w r \<and> (\<forall>z. Recv_final_offset r = Some z \<longrightarrow> r_end r \<le> z)"

fun recv_slot_ok :: "nat \<Rightarrow> StreamRecv \<Rightarrow> bool" where
  "recv_slot_ok w (Free r) = (r = Recv_new w)"
| "recv_slot_ok w (Open r) = Recv_good w r"

definition recv_ok :: "StreamsState \<Rightarrow> bool" where
  "recv_ok s \<longleftrightarrow>
     (\<forall>i x. st_recv s i = Some (Some x) \<longrightarrow> recv_slot_ok (st_stream_receive_window s) x) \<and>
     (\<forall>x \<in> set (st_free_recv s). x = Free (Recv_new (st_stream_receive_window s))) \<and>
     st_data_recvd s \<le> st_local_max_data s \<and> st_local_max_data s \<le> u64_max \<and>
     st_sent_max_data s \<le> st_local_max_data s"

definition flights :: "StreamMeta list \<Rightarrow> StreamId \<Rightarrow> range list" where
  "flights F i = map sm_offsets (filter (\<lambda>m. sm_id m = i) F)"

definition slot_unacked :: "Send option option \<Rightarrow> nat" where
  "slot_unacked v = (case v of Some (Some x) \<Rightarrow> unacked_of x | _ \<Rightarrow> 0)"

definition total_unacked :: "(StreamId \<Rightarrow> Send option option) \<Rightarrow> nat" where
  "total_unacked m = (\<Sum>i \<in> dom m. slot_unacked (m i))"

definition send_ok :: "StreamsState \<Rightarrow> StreamMeta list \<Rightarrow> bool" where
  "send_ok s F \<longleftrightarrow>
     (\<forall>i x. st_send s i = Some (Some x) \<longrightarrow> stream_ok x (flights F i) \<and> (known s i \<or> s_state x = Ready)) \<and>
     (\<forall>m \<in> set F. allocated s (sm_id m) \<and> st_send s (sm_id m) \<noteq> Some None) \<and>
     total_unacked (st_send s) \<le> st_unacked_data s \<and> st_data_sent s \<le> st_max_data s \<and>
     st_initial_max_stream_data_uni s < 2 ^ 62 \<and> st_initial_max_stream_data_bidi_local s < 2 ^ 62 \<and>
     st_initial_max_stream_data_bidi_remote s < 2 ^ 62"

definition queued_ids :: "PendingStreamsQueue \<Rightarrow> StreamId set" where
  "queued_ids q = ps_id ` set (pq_iter q)"

definition queue_ok :: "StreamsState \<Rightarrow> bool" where
  "queue_ok s \<longleftrightarrow> pq_inv (st_pending s) \<and>
     (\<forall>i x. st_send s i = Some (Some x) \<longrightarrow> Send_is_pending x \<longrightarrow> \<not> Send_is_reset x \<longrightarrow> i \<in> queued_ids (st_pending s))"

definition blocked_ok :: "StreamsState \<Rightarrow> bool" where
  "blocked_ok s \<longleftrightarrow> distinct (st_connection_blocked s) \<and>
     (\<forall>i \<in> set (st_connection_blocked s). allocated s i \<and> st_send s i \<noteq> Some None \<and>
        (\<forall>x. st_send s i = Some (Some x) \<longrightarrow> s_connection_blocked x))"

definition streams_inv :: "StreamsState \<Rightarrow> StreamMeta list \<Rightarrow> bool" where
  "streams_inv s F \<longleftrightarrow> tables_ok s \<and> recv_ok s \<and> send_ok s F \<and> queue_ok s \<and> blocked_ok s"

text \<open>Fields that do not matter for the ids.\<close>

lemma allocated_upd [simp]:
  "allocated (s\<lparr>st_send := v1\<rparr>) = allocated s"
  "allocated (s\<lparr>st_recv := v2\<rparr>) = allocated s"
  "allocated (s\<lparr>st_free_recv := v3\<rparr>) = allocated s"
  "allocated (s\<lparr>st_max := v4\<rparr>) = allocated s"
  "allocated (s\<lparr>st_sent_max_remote := v5\<rparr>) = allocated s"
  "allocated (s\<lparr>st_allocated_remote_count := v6\<rparr>) = allocated s"
  "allocated (s\<lparr>st_max_concurrent_remote_count := v7\<rparr>) = allocated s"
  "allocated (s\<lparr>st_flow_control_adjusted := v8\<rparr>) = allocated s"
  "allocated (s\<lparr>st_next_remote := v9\<rparr>) = allocated s"
  "allocated (s\<lparr>st_opened := v10\<rparr>) = allocated s"
  "allocated (s\<lparr>st_next_reported_remote := v11\<rparr>) = allocated s"
  "allocated (s\<lparr>st_send_streams := v12\<rparr>) = allocated s"
  "allocated (s\<lparr>st_pending := v13\<rparr>) = allocated s"
  "allocated (s\<lparr>st_events := v14\<rparr>) = allocated s"
  "allocated (s\<lparr>st_connection_blocked := v15\<rparr>) = allocated s"
  "allocated (s\<lparr>st_max_data := v16\<rparr>) = allocated s"
  "allocated (s\<lparr>st_receive_window := v17\<rparr>) = allocated s"
  "allocated (s\<lparr>st_local_max_data := v18\<rparr>) = allocated s"
  "allocated (s\<lparr>st_sent_max_data := v19\<rparr>) = allocated s"
  "allocated (s\<lparr>st_data_sent := v20\<rparr>) = allocated s"
  "allocated (s\<lparr>st_data_recvd := v21\<rparr>) = allocated s"
  "allocated (s\<lparr>st_unacked_data := v22\<rparr>) = allocated s"
  "allocated (s\<lparr>st_send_window := v23\<rparr>) = allocated s"
  "allocated (s\<lparr>st_streams_blocked := v24\<rparr>) = allocated s"
  "allocated (s\<lparr>st_receive_window_shrink_debt := v25\<rparr>) = allocated s"
  by (simp_all add: allocated_def fun_eq_iff)

lemma known_upd [simp]:
  "known (s\<lparr>st_send := v26\<rparr>) = known s"
  "known (s\<lparr>st_recv := v27\<rparr>) = known s"
  "known (s\<lparr>st_free_recv := v28\<rparr>) = known s"
  "known (s\<lparr>st_next := v29\<rparr>) = known s"
  "known (s\<lparr>st_max := v30\<rparr>) = known s"
  "known (s\<lparr>st_max_remote := v31\<rparr>) = known s"
  "known (s\<lparr>st_sent_max_remote := v32\<rparr>) = known s"
  "known (s\<lparr>st_allocated_remote_count := v33\<rparr>) = known s"
  "known (s\<lparr>st_max_concurrent_remote_count := v34\<rparr>) = known s"
  "known (s\<lparr>st_flow_control_adjusted := v35\<rparr>) = known s"
  "known (s\<lparr>st_next_remote := v36\<rparr>) = known s"
  "known (s\<lparr>st_opened := v37\<rparr>) = known s"
  "known (s\<lparr>st_send_streams := v38\<rparr>) = known s"
  "known (s\<lparr>st_pending := v39\<rparr>) = known s"
  "known (s\<lparr>st_events := v40\<rparr>) = known s"
  "known (s\<lparr>st_connection_blocked := v41\<rparr>) = known s"
  "known (s\<lparr>st_max_data := v42\<rparr>) = known s"
  "known (s\<lparr>st_receive_window := v43\<rparr>) = known s"
  "known (s\<lparr>st_local_max_data := v44\<rparr>) = known s"
  "known (s\<lparr>st_sent_max_data := v45\<rparr>) = known s"
  "known (s\<lparr>st_data_sent := v46\<rparr>) = known s"
  "known (s\<lparr>st_data_recvd := v47\<rparr>) = known s"
  "known (s\<lparr>st_unacked_data := v48\<rparr>) = known s"
  "known (s\<lparr>st_send_window := v49\<rparr>) = known s"
  "known (s\<lparr>st_streams_blocked := v50\<rparr>) = known s"
  "known (s\<lparr>st_receive_window_shrink_debt := v51\<rparr>) = known s"
  by (simp_all add: known_def fun_eq_iff)

section \<open>Finite tables\<close>

lemma finite_allocated: "finite {i. allocated s i}"
proof -
  have "{i. allocated s i} \<subseteq>
    (\<lambda>(sd, d, n). StreamId_new sd d n) ` ({Client, Server} \<times> {Bi, Uni} \<times> {..<st_next s Bi + st_next s Uni + st_max_remote s Bi + st_max_remote s Uni})"
  proof
    fix i
    assume "i \<in> {i. allocated s i}"
    then have "StreamId_index i < st_next s Bi + st_next s Uni + st_max_remote s Bi + st_max_remote s Uni"
      by (cases "StreamId_dir i") (auto simp: allocated_def split: if_splits)
    moreover have "StreamId_initiator i \<in> {Client, Server}" "StreamId_dir i \<in> {Bi, Uni}"
      by (cases "StreamId_initiator i"; cases "StreamId_dir i"; simp)+
    ultimately show "i \<in> (\<lambda>(sd, d, n). StreamId_new sd d n) ` ({Client, Server} \<times> {Bi, Uni} \<times>
        {..<st_next s Bi + st_next s Uni + st_max_remote s Bi + st_max_remote s Uni})"
      by (intro image_eqI [where x = "(StreamId_initiator i, StreamId_dir i, StreamId_index i)"])
         (auto simp: StreamId_parts_new)
  qed
  then show ?thesis
    by (rule finite_subset) simp
qed

lemma other_side: "x \<noteq> t \<Longrightarrow> x = Side_not t" for x :: Side
  by (cases x; cases t) simp_all

lemma finite_known_sends: "finite (known_sends s)"
proof -
  have "known_sends s \<subseteq> {i. allocated s i} \<union> StreamId_new (Side_not (st_side s)) Bi ` {..<st_next_reported_remote s Bi}"
  proof
    fix i
    assume i: "i \<in> known_sends s"
    show "i \<in> {i. allocated s i} \<union> StreamId_new (Side_not (st_side s)) Bi ` {..<st_next_reported_remote s Bi}"
    proof (cases "allocated s i")
      case False
      then have "StreamId_initiator i = Side_not (st_side s)" "StreamId_dir i = Bi" "StreamId_index i < st_next_reported_remote s Bi"
        using i by (auto simp: known_sends_def known_def intro: other_side)
      then show ?thesis
        using StreamId_parts_new [of i] by (intro UnI2 image_eqI [of _ _ "StreamId_index i"]) simp_all
    qed simp
  qed
  then show ?thesis
    by (rule finite_subset) (simp add: finite_allocated)
qed

section \<open>The sum of unacknowledged data\<close>

lemma total_unacked_superset:
  assumes "finite A" and "dom m \<subseteq> A"
  shows "total_unacked m = (\<Sum>i \<in> A. slot_unacked (m i))"
  unfolding total_unacked_def
  by (rule sum.mono_neutral_left) (use assms in \<open>auto simp: slot_unacked_def domIff split: option.splits\<close>)

lemma total_unacked_upd:
  assumes "finite (dom m)"
  shows "total_unacked (m(i := v)) + slot_unacked (m i) = total_unacked m + slot_unacked v"
proof -
  let ?A = "insert i (dom m)"
  have "total_unacked (m(i := v)) = (\<Sum>j \<in> ?A. slot_unacked ((m(i := v)) j))"
    using assms by (intro total_unacked_superset) auto
  also have "\<dots> = slot_unacked v + (\<Sum>j \<in> ?A - {i}. slot_unacked (m j))"
    using assms by (subst sum.remove [of _ i]) auto
  also have "total_unacked m = (\<Sum>j \<in> ?A. slot_unacked (m j))"
    using assms by (intro total_unacked_superset) auto
  then have "(\<Sum>j \<in> ?A - {i}. slot_unacked (m j)) + slot_unacked (m i) = total_unacked m"
    using assms sum.remove [of ?A i "\<lambda>j. slot_unacked (m j)"] by simp
  ultimately show ?thesis
    by simp
qed

lemma slot_unacked_simps [simp]:
  "slot_unacked None = 0" "slot_unacked (Some None) = 0" "slot_unacked (Some (Some x)) = unacked_of x"
  by (simp_all add: slot_unacked_def)

lemma slot_unacked_le: "finite (dom m) \<Longrightarrow> slot_unacked (m i) \<le> total_unacked m"
  using total_unacked_upd [of m i None] by simp

section \<open>New streams\<close>

lemma Recv_reinit_new: "Recv_reinit w r = Recv_new w"
  by (simp add: Recv_reinit_def Recv_new_def Assembler_reinit_def Assembler_new_def)

lemma Recv_good_new: "Recv_good w (Recv_new w)"
  by (simp add: Recv_good_def Recv_inv_new Recv_window_new) (simp add: Recv_new_def Recv_final_offset_def)

lemma get_or_insert_recv_good:
  "(\<And>x. slot = Some x \<Longrightarrow> recv_slot_ok w x) \<Longrightarrow> Recv_good w (get_or_insert_recv w slot)"
  by (auto simp: get_or_insert_recv_def Recv_good_new split: option.splits StreamRecv.splits)

text \<open>
  \<open>streams_ext s s'\<close>: only the tables have been extended, by remote streams that did not exist
  before and whose halves are unused.
\<close>

definition streams_ext :: "StreamsState \<Rightarrow> StreamsState \<Rightarrow> bool" where
  "streams_ext s s' \<longleftrightarrow>
     s' = s\<lparr>st_send := st_send s', st_recv := st_recv s', st_free_recv := st_free_recv s',
            st_allocated_remote_count := st_allocated_remote_count s', st_max_remote := st_max_remote s'\<rparr> \<and>
     set (st_free_recv s') \<subseteq> set (st_free_recv s) \<and> (\<forall>d. st_max_remote s d \<le> st_max_remote s' d) \<and>
     (\<forall>i. st_send s' i = st_send s i \<or> \<not> allocated s i \<and> st_send s i = None \<and> st_send s' i = Some None) \<and>
     (\<forall>i. st_recv s' i = st_recv s i \<or> \<not> allocated s i \<and> st_recv s i = None \<and>
        (st_recv s' i = Some None \<or> (\<exists>f \<in> set (st_free_recv s). st_recv s' i = Some (Some f))))"

definition fresh_remote :: "StreamsState \<Rightarrow> Dir \<Rightarrow> nat \<Rightarrow> nat \<Rightarrow> StreamId \<Rightarrow> bool" where
  "fresh_remote s d a n i \<longleftrightarrow> StreamId_initiator i \<noteq> st_side s \<and> StreamId_dir i = d \<and> a \<le> StreamId_index i \<and> StreamId_index i < a + n"

lemma fresh_remote_new: "fresh_remote s d a n (StreamId_new (Side_not (st_side s)) d k) \<longleftrightarrow> a \<le> k \<and> k < a + n"
  by (auto simp: fresh_remote_def)

lemma fresh_remote_image: "fresh_remote s d a n i \<Longrightarrow> i \<in> StreamId_new (Side_not (st_side s)) d ` {a..<a + n}"
  using StreamId_parts_new [of i]
  by (intro image_eqI [of _ _ "StreamId_index i"]) (auto simp: fresh_remote_def dest: other_side)

lemma fresh_remote_Suc:
  "fresh_remote s d a (Suc n) i \<longleftrightarrow> fresh_remote s d a n i \<or> i = StreamId_new (Side_not (st_side s)) d (a + n)"
proof -
  have "i = StreamId_new (Side_not (st_side s)) d (a + n)"
    if "StreamId_initiator i \<noteq> st_side s" "StreamId_dir i = d" "StreamId_index i = a + n"
    using that StreamId_parts_new [of i] other_side [of "StreamId_initiator i" "st_side s"] by simp
  then show ?thesis
    by (auto simp: fresh_remote_def less_Suc_eq)
qed

lemma for_each_append: "for_each f (xs @ ys) s = (case for_each f xs s of None \<Rightarrow> None | Some s \<Rightarrow> for_each f ys s)"
  by (induction xs arbitrary: s) (auto split: option.splits)

lemma insert_remote_loop:
  assumes "\<And>i. StreamId_initiator i \<noteq> st_side s \<Longrightarrow> StreamId_dir i = d \<Longrightarrow> a \<le> StreamId_index i \<Longrightarrow>
      st_send s i = None \<and> st_recv s i = None"
  shows "\<exists>send recv free. for_each (insert_remote d) [a..<a + n] s = Some (s\<lparr>st_send := send, st_recv := recv, st_free_recv := free\<rparr>) \<and>
     set free \<subseteq> set (st_free_recv s) \<and>
     (\<forall>i. send i = (if fresh_remote s d a n i \<and> d = Bi then Some None else st_send s i)) \<and>
     (\<forall>i. if fresh_remote s d a n i then recv i = Some None \<or> (\<exists>f \<in> set (st_free_recv s). recv i = Some (Some f))
          else recv i = st_recv s i)"
proof (induction n)
  case 0
  have "\<not> fresh_remote s d a 0 i" for i
    by (simp add: fresh_remote_def)
  then show ?case
    by (intro exI [of _ "st_send s"] exI [of _ "st_recv s"] exI [of _ "st_free_recv s"]) simp
next
  case (Suc n)
  then obtain send recv free where
    loop: "for_each (insert_remote d) [a..<a + n] s = Some (s\<lparr>st_send := send, st_recv := recv, st_free_recv := free\<rparr>)"
    and free: "set free \<subseteq> set (st_free_recv s)"
    and send: "\<And>i. send i = (if fresh_remote s d a n i \<and> d = Bi then Some None else st_send s i)"
    and recv: "\<And>i. if fresh_remote s d a n i then recv i = Some None \<or> (\<exists>f \<in> set (st_free_recv s). recv i = Some (Some f))
          else recv i = st_recv s i"
    by blast
  define i where "i = StreamId_new (Side_not (st_side s)) d (a + n)"
  have i: "StreamId_initiator i \<noteq> st_side s" "StreamId_dir i = d" "StreamId_index i = a + n"
    by (simp_all add: i_def)
  then have "\<not> fresh_remote s d a n i"
    by (simp add: fresh_remote_def)
  then have none: "send i = None" "recv i = None"
    using send [of i] recv [of i] assms [OF i(1,2)] i(3) by simp_all
  obtain slot free' where slot: "(case free of [] \<Rightarrow> (None, []) | r # rs \<Rightarrow> (Some r, rs)) = (slot, free')"
    "set free' \<subseteq> set (st_free_recv s)" "slot = None \<or> (\<exists>f \<in> set (st_free_recv s). slot = Some f)"
    using free by (cases free) auto
  have step: "insert_remote d (a + n) (s\<lparr>st_send := send, st_recv := recv, st_free_recv := free\<rparr>) =
      Some (s\<lparr>st_send := (if d = Bi then send(i \<mapsto> None) else send), st_recv := recv(i \<mapsto> slot), st_free_recv := free'\<rparr>)"
    using none i(2) slot(1)
    by (cases d) (simp_all add: insert_remote_def streams_insert_def i_def assert_opt_def Let_def)
  define send' where "send' = (if d = Bi then send(i \<mapsto> None) else send)"
  define recv' where "recv' = recv(i \<mapsto> slot)"
  have "for_each (insert_remote d) [a..<a + Suc n] s = Some (s\<lparr>st_send := send', st_recv := recv', st_free_recv := free'\<rparr>)"
    using loop step by (simp add: for_each_append send'_def recv'_def)
  moreover have "send' j = (if fresh_remote s d a (Suc n) j \<and> d = Bi then Some None else st_send s j)" for j
    using send [of j] by (auto simp: send'_def fresh_remote_Suc i_def)
  moreover have "if fresh_remote s d a (Suc n) j then recv' j = Some None \<or> (\<exists>f \<in> set (st_free_recv s). recv' j = Some (Some f))
      else recv' j = st_recv s j" for j
    using recv [of j] slot(3) by (auto simp: recv'_def fresh_remote_Suc i_def)
  ultimately show ?case
    using slot(2) by blast
qed

lemma finite_range:
  assumes "tables_range s"
  shows "finite (dom (st_send s))" and "finite (remote_ids s d)"
  using assms finite_allocated [of s]
  by (auto elim!: rev_finite_subset simp: tables_range_def remote_ids_def dom_def)

lemma ensure_remote_streams_ok:
  assumes range: "tables_range s" and count: "\<And>d. card (remote_ids s d) \<le> st_allocated_remote_count s d"
  shows "\<exists>s'. ensure_remote_streams d s = Some s' \<and> streams_ext s s' \<and> tables_range s' \<and>
     (\<forall>d. card (remote_ids s' d) \<le> st_allocated_remote_count s' d) \<and> known_sends s' = known_sends s"
proof -
  let ?a = "st_max_remote s d"
  define n where "n = st_max_concurrent_remote_count s d - st_allocated_remote_count s d"
  obtain send recv free where
    loop: "for_each (insert_remote d) [?a..<?a + n] s = Some (s\<lparr>st_send := send, st_recv := recv, st_free_recv := free\<rparr>)"
    and free: "set free \<subseteq> set (st_free_recv s)"
    and send: "\<And>i. send i = (if fresh_remote s d ?a n i \<and> d = Bi then Some None else st_send s i)"
    and recv: "\<And>i. if fresh_remote s d ?a n i then recv i = Some None \<or> (\<exists>f \<in> set (st_free_recv s). recv i = Some (Some f))
          else recv i = st_recv s i"
    using insert_remote_loop [of s d ?a n] range by (fastforce simp: tables_range_def allocated_def)
  define s' where "s' = s\<lparr>st_send := send, st_recv := recv, st_free_recv := free,
      st_allocated_remote_count := (st_allocated_remote_count s)(d := st_allocated_remote_count s d + n),
      st_max_remote := (st_max_remote s)(d := ?a + n)\<rparr>"
  have exec: "ensure_remote_streams d s = Some s'"
    using loop by (simp add: ensure_remote_streams_def s'_def n_def [symmetric])
  have alloc: "allocated s' i \<longleftrightarrow> allocated s i \<or> fresh_remote s d ?a n i" for i
    by (auto simp: allocated_def s'_def fresh_remote_def)
  have fresh: "fresh_remote s d ?a n i \<Longrightarrow> \<not> allocated s i" for i
    by (simp add: fresh_remote_def allocated_def)
  have none: "st_send s i = None" "st_recv s i = None" if "\<not> allocated s i" for i
    using range that by (auto simp: tables_range_def)
  have "send i = st_send s i \<or> \<not> allocated s i \<and> st_send s i = None \<and> send i = Some None" for i
    using send [of i] fresh [of i] none [of i] by auto
  moreover have "recv i = st_recv s i \<or> \<not> allocated s i \<and> st_recv s i = None \<and>
      (recv i = Some None \<or> (\<exists>f \<in> set (st_free_recv s). recv i = Some (Some f)))" for i
    using recv [of i] fresh [of i] none [of i] by (auto split: if_splits)
  ultimately have "streams_ext s s'"
    using free by (simp add: streams_ext_def s'_def)
  moreover have "tables_range s'"
    unfolding tables_range_def
  proof (intro conjI allI impI)
    fix i
    assume "st_send s' i \<noteq> None"
    then show "allocated s' i" "StreamId_initiator i = st_side s' \<or> StreamId_dir i = Bi"
      using range send [of i] alloc [of i] by (auto simp: tables_range_def s'_def fresh_remote_def split: if_splits)
  next
    fix i
    assume "st_recv s' i \<noteq> None"
    then show "allocated s' i" "StreamId_initiator i \<noteq> st_side s' \<or> StreamId_dir i = Bi"
      using range recv [of i] alloc [of i] by (auto simp: tables_range_def s'_def fresh_remote_def split: if_splits)
  next
    show "st_sent_max_remote s' d \<le> st_max_remote s' d" for d
      using range by (auto simp: tables_range_def s'_def intro: trans_le_add1)
  qed
  moreover have "known_sends s' = known_sends s"
  proof (rule set_eqI)
    fix i
    have "known s' i = known s i"
      by (simp add: known_def s'_def)
    moreover have "st_send s' i = send i" "st_side s' = st_side s"
      by (simp_all add: s'_def)
    moreover have "fresh_remote s d ?a n i \<Longrightarrow> StreamId_initiator i \<noteq> st_side s \<and> StreamId_dir i = d"
      by (simp add: fresh_remote_def)
    ultimately show "i \<in> known_sends s' \<longleftrightarrow> i \<in> known_sends s"
      using send [of i] alloc [of i] fresh [of i] none [of i]
      by (cases "fresh_remote s d ?a n i"; cases d) (simp_all add: known_sends_def)
  qed
  moreover have "card (remote_ids s' d') \<le> st_allocated_remote_count s' d'" for d'
  proof -
    have "remote_ids s' d' \<subseteq> remote_ids s d' \<union> (if d' = d then StreamId_new (Side_not (st_side s)) d ` {?a..<?a + n} else {})"
    proof
      fix i
      assume i: "i \<in> remote_ids s' d'"
      show "i \<in> remote_ids s d' \<union> (if d' = d then StreamId_new (Side_not (st_side s)) d ` {?a..<?a + n} else {})"
        using i send [of i] recv [of i] fresh_remote_image [of s d ?a n i]
        by (cases "fresh_remote s d ?a n i") (auto simp: remote_ids_def s'_def fresh_remote_def)
    qed
    then have "card (remote_ids s' d') \<le> card (remote_ids s d' \<union> (if d' = d then StreamId_new (Side_not (st_side s)) d ` {?a..<?a + n} else {}))"
      using finite_range(2) [OF range] by (intro card_mono) auto
    also have "\<dots> \<le> card (remote_ids s d') + (if d' = d then n else 0)"
      using card_image_le [of "{?a..<?a + n}" "StreamId_new (Side_not (st_side s)) d"]
      by (auto intro!: order_trans [OF card_Un_le])
    finally show ?thesis
      using count [of d'] by (auto simp: s'_def)
  qed
  ultimately show ?thesis
    using exec by blast
qed

section \<open>Extended tables keep the invariant\<close>

lemma streams_ext_fields:
  assumes "streams_ext s s'"
  shows "st_side s' = st_side s"
    "st_next s' = st_next s"
    "st_max s' = st_max s"
    "st_sent_max_remote s' = st_sent_max_remote s"
    "st_max_concurrent_remote_count s' = st_max_concurrent_remote_count s"
    "st_flow_control_adjusted s' = st_flow_control_adjusted s"
    "st_next_remote s' = st_next_remote s"
    "st_opened s' = st_opened s"
    "st_next_reported_remote s' = st_next_reported_remote s"
    "st_send_streams s' = st_send_streams s"
    "st_pending s' = st_pending s"
    "st_events s' = st_events s"
    "st_connection_blocked s' = st_connection_blocked s"
    "st_max_data s' = st_max_data s"
    "st_receive_window s' = st_receive_window s"
    "st_local_max_data s' = st_local_max_data s"
    "st_sent_max_data s' = st_sent_max_data s"
    "st_data_sent s' = st_data_sent s"
    "st_data_recvd s' = st_data_recvd s"
    "st_unacked_data s' = st_unacked_data s"
    "st_send_window s' = st_send_window s"
    "st_stream_receive_window s' = st_stream_receive_window s"
    "st_initial_max_stream_data_uni s' = st_initial_max_stream_data_uni s"
    "st_initial_max_stream_data_bidi_local s' = st_initial_max_stream_data_bidi_local s"
    "st_initial_max_stream_data_bidi_remote s' = st_initial_max_stream_data_bidi_remote s"
    "st_receive_window_shrink_debt s' = st_receive_window_shrink_debt s"
    "st_streams_blocked s' = st_streams_blocked s"
proof -
  have A: "s' = s\<lparr>st_send := st_send s', st_recv := st_recv s', st_free_recv := st_free_recv s',
      st_allocated_remote_count := st_allocated_remote_count s', st_max_remote := st_max_remote s'\<rparr>"
    using assms by (simp add: streams_ext_def)
  show "st_side s' = st_side s"
    "st_next s' = st_next s"
    "st_max s' = st_max s"
    "st_sent_max_remote s' = st_sent_max_remote s"
    "st_max_concurrent_remote_count s' = st_max_concurrent_remote_count s"
    "st_flow_control_adjusted s' = st_flow_control_adjusted s"
    "st_next_remote s' = st_next_remote s"
    "st_opened s' = st_opened s"
    "st_next_reported_remote s' = st_next_reported_remote s"
    "st_send_streams s' = st_send_streams s"
    "st_pending s' = st_pending s"
    "st_events s' = st_events s"
    "st_connection_blocked s' = st_connection_blocked s"
    "st_max_data s' = st_max_data s"
    "st_receive_window s' = st_receive_window s"
    "st_local_max_data s' = st_local_max_data s"
    "st_sent_max_data s' = st_sent_max_data s"
    "st_data_sent s' = st_data_sent s"
    "st_data_recvd s' = st_data_recvd s"
    "st_unacked_data s' = st_unacked_data s"
    "st_send_window s' = st_send_window s"
    "st_stream_receive_window s' = st_stream_receive_window s"
    "st_initial_max_stream_data_uni s' = st_initial_max_stream_data_uni s"
    "st_initial_max_stream_data_bidi_local s' = st_initial_max_stream_data_bidi_local s"
    "st_initial_max_stream_data_bidi_remote s' = st_initial_max_stream_data_bidi_remote s"
    "st_receive_window_shrink_debt s' = st_receive_window_shrink_debt s"
    "st_streams_blocked s' = st_streams_blocked s"
    by (subst A, simp)+
qed

lemma streams_ext_send:
  assumes "streams_ext s s'"
  shows "st_send s' i = Some (Some x) \<longleftrightarrow> st_send s i = Some (Some x)"
    and "st_send s' i = Some None \<Longrightarrow> st_send s i = Some None \<or> \<not> allocated s i"
    and "allocated s i \<Longrightarrow> allocated s' i" and "known s' i = known s i"
proof -
  have ext: "st_send s' i = st_send s i \<or> \<not> allocated s i \<and> st_send s i = None \<and> st_send s' i = Some None"
    and "st_max_remote s d \<le> st_max_remote s' d" for d
    using assms by (auto simp: streams_ext_def)
  then show "allocated s i \<Longrightarrow> allocated s' i"
    by (auto simp: allocated_def streams_ext_fields [OF assms] intro: less_le_trans)
  show "st_send s' i = Some (Some x) \<longleftrightarrow> st_send s i = Some (Some x)"
    and "st_send s' i = Some None \<Longrightarrow> st_send s i = Some None \<or> \<not> allocated s i"
    using ext by auto
  show "known s' i = known s i"
    by (simp add: known_def streams_ext_fields [OF assms])
qed

lemma total_unacked_cong:
  assumes "\<And>i x. m i = Some (Some x) \<longleftrightarrow> m' i = Some (Some x)" and "finite (dom m)" and "finite (dom m')"
  shows "total_unacked m' = total_unacked m"
proof -
  have "slot_unacked (m i) = slot_unacked (m' i)" for i
    using assms(1) [of i] by (cases "m i"; cases "m' i"; auto simp: slot_unacked_def split: option.splits)
  then show ?thesis
    using assms(2,3) total_unacked_superset [of "dom m \<union> dom m'" m] total_unacked_superset [of "dom m \<union> dom m'" m']
    by simp
qed

lemma streams_ext_inv:
  assumes ext: "streams_ext s s'"
  shows "recv_ok s \<Longrightarrow> recv_ok s'" and "queue_ok s \<Longrightarrow> queue_ok s'" and "blocked_ok s \<Longrightarrow> blocked_ok s'"
    and "finite (dom (st_send s)) \<Longrightarrow> finite (dom (st_send s')) \<Longrightarrow> send_ok s F \<Longrightarrow> send_ok s' F"
proof -
  note fields = streams_ext_fields [OF ext] and send = streams_ext_send [OF ext]
  have recv: "st_recv s' i = st_recv s i \<or> \<not> allocated s i \<and> st_recv s i = None \<and>
        (st_recv s' i = Some None \<or> (\<exists>f \<in> set (st_free_recv s). st_recv s' i = Some (Some f)))"
    and free: "set (st_free_recv s') \<subseteq> set (st_free_recv s)" for i
    using ext by (auto simp: streams_ext_def)
  show "recv_ok s'" if ok: "recv_ok s"
  proof -
    have "recv_slot_ok (st_stream_receive_window s) x" if "st_recv s' i = Some (Some x)" for i x
      using recv [of i] that ok by (auto simp: recv_ok_def)
    then show ?thesis
      using ok free by (auto simp: recv_ok_def fields)
  qed
  show "queue_ok s'" if "queue_ok s"
    using that by (simp add: queue_ok_def fields send)
  show "blocked_ok s'" if "blocked_ok s"
    using that send(2,3) by (auto simp: blocked_ok_def fields send(1))
  show "send_ok s' F" if "finite (dom (st_send s))" "finite (dom (st_send s'))" "send_ok s F"
  proof -
    have "total_unacked (st_send s') = total_unacked (st_send s)"
      using that(1,2) send(1) by (intro total_unacked_cong) auto
    moreover have "\<forall>m \<in> set F. allocated s' (sm_id m) \<and> st_send s' (sm_id m) \<noteq> Some None"
      using that(3) send(2,3) unfolding send_ok_def by blast
    ultimately show ?thesis
      using that(3) by (simp add: send_ok_def fields send(1,4))
  qed
qed

section \<open>Freeing streams\<close>

lemma streams_ext_send_streams:
  assumes "streams_ext (s\<lparr>st_allocated_remote_count := c\<rparr>) s'"
  shows "streams_ext (s\<lparr>st_send_streams := n\<rparr>) (s'\<lparr>st_send_streams := n\<rparr>)"
proof -
  have A: "s' = s\<lparr>st_send := st_send s', st_recv := st_recv s', st_free_recv := st_free_recv s',
      st_allocated_remote_count := st_allocated_remote_count s', st_max_remote := st_max_remote s'\<rparr>"
    and B: "set (st_free_recv s') \<subseteq> set (st_free_recv s)" "\<forall>d. st_max_remote s d \<le> st_max_remote s' d"
      "\<forall>i. st_send s' i = st_send s i \<or> \<not> allocated s i \<and> st_send s i = None \<and> st_send s' i = Some None"
      "\<forall>i. st_recv s' i = st_recv s i \<or> \<not> allocated s i \<and> st_recv s i = None \<and>
        (st_recv s' i = Some None \<or> (\<exists>f \<in> set (st_free_recv s). st_recv s' i = Some (Some f)))"
    using assms by (simp_all add: streams_ext_def)
  have "s'\<lparr>st_send_streams := n\<rparr> = s\<lparr>st_send_streams := n, st_send := st_send s', st_recv := st_recv s',
      st_free_recv := st_free_recv s', st_allocated_remote_count := st_allocated_remote_count s',
      st_max_remote := st_max_remote s'\<rparr>"
    by (subst A) simp
  then show ?thesis
    using B by (simp add: streams_ext_def)
qed

lemma stream_freed_fully:
  assumes range: "tables_range s" and count: "\<And>d. card (remote_ids s d) + of_bool (d = StreamId_dir i \<and> remote \<and> gone) \<le> st_allocated_remote_count s d"
    and remote: "remote = (StreamId_initiator i \<noteq> st_side s)"
    and gone: "gone = (StreamId_dir i = Uni \<or> (case half of SendHalf \<Rightarrow> st_recv s i = None | RecvHalf \<Rightarrow> st_send s i = None))"
    and sends: "half = SendHalf \<Longrightarrow> 0 < st_send_streams s"
  shows "\<exists>s'. stream_freed i half s = Some s' \<and>
     streams_ext (s\<lparr>st_send_streams := st_send_streams s - of_bool (half = SendHalf)\<rparr>) s' \<and>
     tables_range s' \<and> (\<forall>d. card (remote_ids s' d) \<le> st_allocated_remote_count s' d) \<and> known_sends s' = known_sends s"
proof -
  let ?n = "st_send_streams s - of_bool (half = SendHalf)"
  have upd: "tables_range (t\<lparr>st_send_streams := ?n\<rparr>) = tables_range t" "remote_ids (t\<lparr>st_send_streams := ?n\<rparr>) d = remote_ids t d"
    "known_sends (t\<lparr>st_send_streams := ?n\<rparr>) = known_sends t" for t d
    by (simp_all add: tables_range_def remote_ids_def known_sends_def allocated_def known_def)
  have last: "(if half = SendHalf then do { n \<leftarrow> csub (st_send_streams t) 1; Some (t\<lparr>st_send_streams := n\<rparr>) } else Some t) =
      Some (t\<lparr>st_send_streams := ?n\<rparr>)" if "st_send_streams t = st_send_streams s" for t
    using sends that by (cases half) (auto simp: csub_def)
  show ?thesis
  proof (cases "remote \<and> gone")
    case True
    define t where "t = s\<lparr>st_allocated_remote_count := (st_allocated_remote_count s)(StreamId_dir i := st_allocated_remote_count s (StreamId_dir i) - 1)\<rparr>"
    have "tables_range t = tables_range s" and t23: "known_sends t = known_sends s" "remote_ids t d = remote_ids s d" for d
      by (simp_all add: t_def tables_range_def remote_ids_def known_sends_def allocated_def known_def)
    with range have t: "tables_range t" "known_sends t = known_sends s" "remote_ids t d = remote_ids s d" for d
      by simp_all
    have le: "1 \<le> st_allocated_remote_count s (StreamId_dir i)"
      using count [of "StreamId_dir i"] True by simp
    have "card (remote_ids t d) \<le> st_allocated_remote_count t d" for d
      unfolding t(3) using count [of d] True by (auto simp: t_def)
    from ensure_remote_streams_ok [OF t(1) this, of "StreamId_dir i"] obtain s' where
      s': "ensure_remote_streams (StreamId_dir i) t = Some s'" "streams_ext t s'" "tables_range s'"
        "\<forall>d. card (remote_ids s' d) \<le> st_allocated_remote_count s' d" "known_sends s' = known_sends s"
      using t(2) by auto
    have ss: "st_send_streams s' = st_send_streams s"
      using streams_ext_fields(10) [OF s'(2)] by (simp add: t_def)
    have "stream_freed i half s = Some (s'\<lparr>st_send_streams := ?n\<rparr>)"
      using True remote gone le s'(1) last [OF ss]
      by (simp add: stream_freed_def Let_def t_def)
    moreover have "streams_ext (s\<lparr>st_send_streams := ?n\<rparr>) (s'\<lparr>st_send_streams := ?n\<rparr>)"
      using s'(2) unfolding t_def by (rule streams_ext_send_streams)
    ultimately show ?thesis
      using s' by (simp add: upd)
  next
    case False
    have "stream_freed i half s = Some (s\<lparr>st_send_streams := ?n\<rparr>)"
      using False remote gone last [OF refl] by (auto simp: stream_freed_def Let_def)
    moreover have "streams_ext (s\<lparr>st_send_streams := ?n\<rparr>) (s\<lparr>st_send_streams := ?n\<rparr>)"
      by (simp add: streams_ext_def)
    moreover have "card (remote_ids s d) \<le> st_allocated_remote_count s d" for d
      using count [of d] by simp
    ultimately show ?thesis
      using range by (simp add: upd)
  qed
qed

text \<open>The sending half of a stream that the application knows.\<close>

lemma free_send_ok:
  assumes inv: "streams_inv s F" and i: "st_send s i \<noteq> None" "known s i"
  defines "t \<equiv> s\<lparr>st_send := (st_send s)(i := None)\<rparr>"
  shows "\<exists>s'. stream_freed i SendHalf t = Some s' \<and> streams_ext (t\<lparr>st_send_streams := st_send_streams s - 1\<rparr>) s' \<and>
     streams_inv s' F"
proof -
  have tab: "tables_range s" "\<And>d. card (remote_ids s d) \<le> st_allocated_remote_count s d" "card (known_sends s) \<le> st_send_streams s"
    using inv by (auto simp: streams_inv_def tables_ok_def)
  have alloc: "allocated s i"
    using tab(1) i by (auto simp: tables_range_def)
  have ids: "remote_ids t d \<subseteq> remote_ids s d" for d
    by (auto simp: remote_ids_def t_def)
  define gone where "gone = (StreamId_dir i = Uni \<or> st_recv t i = None)"
  have count: "card (remote_ids t d) + of_bool (d = StreamId_dir i \<and> StreamId_initiator i \<noteq> st_side t \<and> gone)
      \<le> st_allocated_remote_count t d" for d
  proof (cases "d = StreamId_dir i \<and> StreamId_initiator i \<noteq> st_side t \<and> gone")
    case True
    then have "st_recv s i = None"
      using tab(1) i by (auto simp: gone_def t_def tables_range_def)
    then have "i \<in> remote_ids s d" "i \<notin> remote_ids t d"
      using True i by (auto simp: remote_ids_def t_def)
    then have "card (remote_ids t d) < card (remote_ids s d)"
      using ids by (intro psubset_card_mono finite_range(2) [OF tab(1)]) auto
    then show ?thesis
      using True tab(2) [of d] by (simp add: t_def)
  next
    case False
    have "card (remote_ids t d) \<le> st_allocated_remote_count t d"
      using order_trans [OF card_mono [OF finite_range(2) [OF tab(1)] ids] tab(2)] by (simp add: t_def)
    with False show ?thesis
      by auto
  qed
  have range: "tables_range t"
    using tab(1) by (auto simp: tables_range_def t_def)
  have known: "known_sends s = insert i (known_sends t)" "i \<notin> known_sends t"
    using i alloc by (auto simp: known_sends_def t_def)
  then have "card (known_sends s) = Suc (card (known_sends t))"
    using finite_known_sends [of t] by simp
  moreover from this have "0 < st_send_streams t"
    using tab(3) by (simp add: t_def)
  moreover obtain s' where s': "stream_freed i SendHalf t = Some s'"
    and ext: "streams_ext (t\<lparr>st_send_streams := st_send_streams t - 1\<rparr>) s'"
    and rest: "tables_range s'" "\<forall>d. card (remote_ids s' d) \<le> st_allocated_remote_count s' d" "known_sends s' = known_sends t"
    using stream_freed_fully [OF range count refl, of SendHalf] calculation(2) by (auto simp: gone_def)
  ultimately have "tables_ok s'"
    using tab(3) streams_ext_fields(10) [OF ext] by (simp add: tables_ok_def t_def)
  moreover have fin: "finite (dom (st_send s))" "finite (dom (st_send s'))"
    using finite_range(1) [OF tab(1)] finite_range(1) [OF rest(1)] by auto
  have ok: "recv_ok t" "queue_ok t" "blocked_ok t" "send_ok t F"
    using inv total_unacked_upd [OF fin(1), of i None]
    by (auto simp: streams_inv_def t_def recv_ok_def queue_ok_def blocked_ok_def send_ok_def)
  then have "recv_ok (t\<lparr>st_send_streams := n\<rparr>)" "queue_ok (t\<lparr>st_send_streams := n\<rparr>)" "blocked_ok (t\<lparr>st_send_streams := n\<rparr>)"
      "send_ok (t\<lparr>st_send_streams := n\<rparr>) F" for n
    by (simp_all add: recv_ok_def queue_ok_def blocked_ok_def send_ok_def)
  then have "streams_inv s' F" if "tables_ok s'"
    using that streams_ext_inv [OF ext] fin by (simp add: streams_inv_def t_def)
  ultimately show ?thesis
    using s' ext by (simp add: t_def)
qed

text \<open>A receiving half that has been taken out of the table.\<close>

lemma free_recv_ok:
  assumes tabs: "tables_ok (t\<lparr>st_recv := (st_recv t)(i \<mapsto> slot)\<rparr>)" and i: "st_recv t i = None"
    and ok: "recv_ok t" "send_ok t F" "queue_ok t" "blocked_ok t"
  defines "u \<equiv> t\<lparr>st_free_recv := Free (Recv_new (st_stream_receive_window t)) # st_free_recv t\<rparr>"
  shows "\<exists>s'. stream_recv_freed i (Open r) t = Some s' \<and> streams_ext u s' \<and> streams_inv s' F"
proof -
  let ?s = "t\<lparr>st_recv := (st_recv t)(i \<mapsto> slot)\<rparr>"
  have tab: "tables_range ?s" "\<And>d. card (remote_ids ?s d) \<le> st_allocated_remote_count t d" "card (known_sends ?s) \<le> st_send_streams t"
    using tabs by (auto simp: tables_ok_def)
  have ids: "remote_ids u d \<subseteq> remote_ids ?s d" for d
    by (auto simp: remote_ids_def u_def)
  define gone where "gone = (StreamId_dir i = Uni \<or> st_send u i = None)"
  have count: "card (remote_ids u d) + of_bool (d = StreamId_dir i \<and> StreamId_initiator i \<noteq> st_side u \<and> gone)
      \<le> st_allocated_remote_count u d" for d
  proof (cases "d = StreamId_dir i \<and> StreamId_initiator i \<noteq> st_side u \<and> gone")
    case True
    then have "st_send t i = None"
      using tab(1) by (auto simp: gone_def u_def tables_range_def)
    then have "i \<in> remote_ids ?s d" "i \<notin> remote_ids u d"
      using True i by (auto simp: remote_ids_def u_def)
    then have "card (remote_ids u d) < card (remote_ids ?s d)"
      using ids by (intro psubset_card_mono finite_range(2) [OF tab(1)]) auto
    then show ?thesis
      using True tab(2) [of d] by (simp add: u_def)
  next
    case False
    have "card (remote_ids u d) \<le> st_allocated_remote_count u d"
      using order_trans [OF card_mono [OF finite_range(2) [OF tab(1)] ids] tab(2)] by (simp add: u_def)
    with False show ?thesis
      by auto
  qed
  have range: "tables_range u"
    using tab(1) by (auto simp: tables_range_def u_def split: if_splits)
  have known: "known_sends u = known_sends ?s"
    by (simp add: known_sends_def u_def)
  obtain s' where s': "stream_freed i RecvHalf u = Some s'"
    and ext: "streams_ext u s'"
    and rest: "tables_range s'" "\<forall>d. card (remote_ids s' d) \<le> st_allocated_remote_count s' d" "known_sends s' = known_sends u"
    using stream_freed_fully [OF range count refl, of RecvHalf] by (auto simp: gone_def)
  have "tables_ok s'"
    using tab(3) rest streams_ext_fields(10) [OF ext] by (simp add: tables_ok_def known) (simp add: u_def)
  moreover have "recv_ok u" "queue_ok u" "blocked_ok u" "send_ok u F"
    using ok by (simp_all add: u_def recv_ok_def queue_ok_def blocked_ok_def send_ok_def)
  ultimately have "streams_inv s' F"
    using streams_ext_inv [OF ext] finite_range(1) [OF range] finite_range(1) [OF rest(1)] by (simp add: streams_inv_def)
  moreover have "stream_recv_freed i (Open r) t = Some s'"
    using s' by (simp add: stream_recv_freed_def StreamRecv_free_def Recv_reinit_new u_def)
  ultimately show ?thesis
    using ext by blast
qed

lemma remove_recv_ok:
  assumes inv: "streams_inv s F" and i: "st_recv s i = Some (Some (Open r))"
  shows "\<exists>s'. remove_recv i s = Some s' \<and> streams_inv s' F \<and>
     streams_ext (s\<lparr>st_recv := (st_recv s)(i := None),
       st_free_recv := Free (Recv_new (st_stream_receive_window s)) # st_free_recv s\<rparr>) s'"
proof -
  let ?t = "s\<lparr>st_recv := (st_recv s)(i := None)\<rparr>"
  have "?t\<lparr>st_recv := (st_recv ?t)(i \<mapsto> Some (Open r))\<rparr> = s"
    using i by (simp add: fun_upd_idem)
  then have "tables_ok (?t\<lparr>st_recv := (st_recv ?t)(i \<mapsto> Some (Open r))\<rparr>)"
    using inv by (simp add: streams_inv_def)
  moreover have "recv_ok ?t" "send_ok ?t F" "queue_ok ?t" "blocked_ok ?t"
    using inv by (auto simp: streams_inv_def recv_ok_def send_ok_def queue_ok_def blocked_ok_def)
  ultimately show ?thesis
    using free_recv_ok [of ?t i "Some (Open r)" F r] i by (auto simp: remove_recv_def)
qed

end
