(* ===== verification/Streams_Api.thy ===== *)
theory Streams_Api
  imports Streams_State
begin

text \<open>
  The operations of the application on streams: \<open>Streams\<close>, \<open>RecvStream\<close> and \<open>SendStream\<close>
  (\<open>noq-proto/src/connection/streams/mod.rs\<close>) and the reader \<open>Chunks\<close>
  (\<open>noq-proto/src/connection/streams/recv.rs\<close>).  Of the state of the connection they only use
  whether it is closed.
\<close>

section \<open>Definitions\<close>

subsection \<open>Opening and accepting\<close>

definition streams_open :: "bool \<Rightarrow> Dir \<Rightarrow> StreamsState \<Rightarrow> (StreamId option \<times> StreamsState) option" where
  "streams_open closed dir s =
     (if closed then Some (None, s)
      else if st_next s dir \<ge> st_max s dir
      then Some (None, s\<lparr>st_streams_blocked := (st_streams_blocked s)(dir := True)\<rparr>)
      else do {
        let s = s\<lparr>st_next := (st_next s)(dir := st_next s dir + 1)\<rparr>;
        let i = StreamId_new (st_side s) dir (st_next s dir - 1);
        s \<leftarrow> streams_insert False i s;
        Some (Some i, s\<lparr>st_send_streams := st_send_streams s + 1\<rparr>) })"

definition streams_accept :: "Dir \<Rightarrow> StreamsState \<Rightarrow> StreamId option \<times> StreamsState" where
  "streams_accept dir s =
     (if st_next_remote s dir = st_next_reported_remote s dir then (None, s)
      else
        let x = st_next_reported_remote s dir;
            s = s\<lparr>st_next_reported_remote := (st_next_reported_remote s)(dir := x + 1)\<rparr>;
            s = (if dir = Bi then s\<lparr>st_send_streams := st_send_streams s + 1\<rparr> else s) in
        (Some (StreamId_new (Side_not (st_side s)) dir x), s))"

definition remote_open_streams :: "Dir \<Rightarrow> StreamsState \<Rightarrow> nat option" where
  "remote_open_streams dir s = do {
     freed \<leftarrow> csub (st_max_remote s dir) (st_allocated_remote_count s dir);
     csub (st_next_remote s dir) freed }"

subsection \<open>Receiving\<close>

definition RecvStream_stop :: "StreamId \<Rightarrow> VarInt \<Rightarrow> StreamsState \<Rightarrow> Retransmits \<Rightarrow>
    ((ClosedStream + unit) \<times> StreamsState \<times> Retransmits) option" where
  "RecvStream_stop i error_code s pending =
     (case st_recv s i of
        None \<Rightarrow> Some (Inl ClosedStream, s, pending)
      | Some slot \<Rightarrow> do {
          let stream = get_or_insert_recv (st_stream_receive_window s) slot;
          let s = put_recv i stream s;
          res \<leftarrow> Recv_stop stream;
          case res of
            Inl e \<Rightarrow> Some (Inl e, s, pending)
          | Inr ((read_credits, stop_sending), stream) \<Rightarrow> do {
              let s = put_recv i stream s;
              let pending = (if stop_sending
                then pending\<lparr>rt_stop_sending := rt_stop_sending pending @ [\<lparr>ss_id = i, ss_error_code = error_code\<rparr>]\<rparr>
                else pending);
              s \<leftarrow> (if \<not> Recv_final_offset_unknown stream then remove_recv i s else Some s);
              (transmit, s) \<leftarrow> add_read_credits read_credits s;
              Some (Inr (), s, if transmit then pending\<lparr>rt_max_data := True\<rparr> else pending) } })"

definition RecvStream_received_reset :: "StreamId \<Rightarrow> StreamsState \<Rightarrow> Retransmits \<Rightarrow>
    ((ClosedStream + VarInt option) \<times> StreamsState \<times> Retransmits) option" where
  "RecvStream_received_reset i s pending =
     (case st_recv s i of
        None \<Rightarrow> Some (Inl ClosedStream, s, pending)
      | Some (Some (Open r)) \<Rightarrow>
          if r_stopped r then Some (Inl ClosedStream, s, pending)
          else (case Recv_reset_code r of
              None \<Rightarrow> Some (Inr None, s, pending)
            | Some code \<Rightarrow> do {
                s \<leftarrow> remove_recv i s;
                (_, pending) \<leftarrow> queue_max_stream_id pending s;
                Some (Inr (Some code), s, pending) })
      | Some _ \<Rightarrow> Some (Inr None, s, pending))"

datatype ReadError = ReadBlocked | ReadReset VarInt

datatype ReadableError = ReadableClosedStream | ReadableIllegalOrderedRead

datatype ChunksState = ReadableState Recv | ResetState VarInt | FinishedState | FinalizedState

text \<open>The reader borrows the state of the streams and the pending frames, which are passed along.\<close>

record Chunks =
  c_id :: StreamId
  c_ordered :: bool
  c_state :: ChunksState
  c_read :: nat

definition Chunks_new :: "StreamId \<Rightarrow> bool \<Rightarrow> StreamsState \<Rightarrow> (ReadableError + Chunks) \<times> StreamsState" where
  "Chunks_new i ordered s =
     (case st_recv s i of
        None \<Rightarrow> (Inl ReadableClosedStream, s)
      | Some slot \<Rightarrow>
          let recv = get_or_insert_recv (st_stream_receive_window s) slot; s = put_recv i recv s in
          if r_stopped recv then (Inl ReadableClosedStream, s)
          else let s = s\<lparr>st_recv := (st_recv s)(i := None)\<rparr> in
            case Assembler_ensure_ordering ordered (r_assembler recv) of
              Inl _ \<Rightarrow> (Inl ReadableIllegalOrderedRead, s)
            | Inr a \<Rightarrow> (Inr \<lparr>c_id = i, c_ordered = ordered,
                c_state = ReadableState (recv\<lparr>r_assembler := a\<rparr>), c_read = 0\<rparr>, s))"

definition Chunks_next :: "nat \<Rightarrow> Chunks \<Rightarrow> StreamsState \<Rightarrow>
    ((ReadError + Chunk option) \<times> Chunks \<times> StreamsState) option" where
  "Chunks_next max_length c s =
     (case c_state c of
        ResetState error_code \<Rightarrow> Some (Inl (ReadReset error_code), c, s)
      | FinishedState \<Rightarrow> Some (Inr None, c, s)
      | FinalizedState \<Rightarrow> None
      | ReadableState rs \<Rightarrow> do {
          (chunk, a) \<leftarrow> Assembler_read max_length (c_ordered c) (r_assembler rs);
          let rs = rs\<lparr>r_assembler := a\<rparr>;
          let c = c\<lparr>c_state := ReadableState rs\<rparr>;
          case chunk of
            Some chunk \<Rightarrow> Some (Inr (Some chunk), c\<lparr>c_read := c_read c + length (c_bytes chunk)\<rparr>, s)
          | None \<Rightarrow>
              (case r_state rs of
                 ResetRecvd _ error_code \<Rightarrow> do {
                   assert_opt (c_read c = 0);
                   s \<leftarrow> stream_recv_freed (c_id c) (Open rs) s;
                   Some (Inl (ReadReset error_code), c\<lparr>c_state := ResetState error_code\<rparr>, s) }
               | Receiving final \<Rightarrow>
                   if final = Some (r_end rs) \<and> a_bytes_read (r_assembler rs) = r_end rs then do {
                     s \<leftarrow> stream_recv_freed (c_id c) (Open rs) s;
                     Some (Inr None, c\<lparr>c_state := FinishedState\<rparr>, s) }
                   else Some (Inl ReadBlocked, c, s)) })"

definition Chunks_finalize :: "Chunks \<Rightarrow> StreamsState \<Rightarrow> Retransmits \<Rightarrow>
    (bool \<times> Chunks \<times> StreamsState \<times> Retransmits) option" where
  "Chunks_finalize c s pending =
     (if c_state c = FinalizedState then Some (False, c, s, pending)
      else do {
        (queued, pending) \<leftarrow> queue_max_stream_id pending s;
        (update, pending, s) \<leftarrow>
          (case c_state c of
             ReadableState rs \<Rightarrow> do {
               (_, max_stream_data) \<leftarrow> Recv_max_stream_data (st_stream_receive_window s) rs;
               let pending = (if max_stream_data
                 then pending\<lparr>rt_max_stream_data := set_insert (c_id c) (rt_max_stream_data pending)\<rparr> else pending);
               Some (max_stream_data, pending, put_recv (c_id c) rs s) }
           | _ \<Rightarrow> Some (False, pending, s));
        (max_data, s) \<leftarrow> add_read_credits (c_read c) s;
        Some (queued \<or> update \<or> max_data, c\<lparr>c_state := FinalizedState\<rparr>, s,
              pending\<lparr>rt_max_data := (rt_max_data pending \<or> max_data)\<rparr>) })"

subsection \<open>Sending\<close>

definition SendStream_write_source :: "bool \<Rightarrow> StreamId \<Rightarrow> Source \<Rightarrow> StreamsState \<Rightarrow>
    ((WriteError + Written) \<times> Source \<times> StreamsState) option" where
  "SendStream_write_source closed i source s =
     (if closed then Some (Inl Blocked, source, s)
      else do {
        limit \<leftarrow> write_limit s;
        case st_send s i of
          None \<Rightarrow> Some (Inl ClosedStreamWrite, source, s)
        | Some slot \<Rightarrow>
            let stream = get_or_insert_send (max_send_data i s) slot; s = put_send i stream s in
            if limit = 0 then
              Some (Inl Blocked, source,
                if \<not> s_connection_blocked stream
                then (put_send i (stream\<lparr>s_connection_blocked := True\<rparr>) s)
                       \<lparr>st_connection_blocked := i # st_connection_blocked s\<rparr>
                else s)
            else do {
              res \<leftarrow> Send_write source limit stream;
              case res of
                Inl e \<Rightarrow> Some (Inl e, source, s)
              | Inr (written, source, stream') \<Rightarrow> do {
                  let s = (put_send i stream' s)
                    \<lparr>st_data_sent := st_data_sent s + w_bytes written, st_unacked_data := st_unacked_data s + w_bytes written\<rparr>;
                  pending \<leftarrow> (if \<not> Send_is_pending stream then push_pending i (s_priority stream') (st_pending s)
                             else Some (st_pending s));
                  Some (Inr written, source, s\<lparr>st_pending := pending\<rparr>) } } })"

definition SendStream_stopped :: "StreamId \<Rightarrow> StreamsState \<Rightarrow> ClosedStream + VarInt option" where
  "SendStream_stopped i s =
     (case st_send s i of
        Some (Some x) \<Rightarrow> Inr (s_stop_reason x)
      | Some None \<Rightarrow> Inr None
      | None \<Rightarrow> Inl ClosedStream)"

definition SendStream_finish :: "StreamId \<Rightarrow> StreamsState \<Rightarrow> ((FinishError + unit) \<times> StreamsState) option" where
  "SendStream_finish i s =
     (case st_send s i of
        None \<Rightarrow> Some (Inl FinishClosedStream, s)
      | Some slot \<Rightarrow>
          let stream = get_or_insert_send (max_send_data i s) slot; s = put_send i stream s in
          case Send_finish stream of
            Inl e \<Rightarrow> Some (Inl e, s)
          | Inr stream' \<Rightarrow> do {
              pending \<leftarrow> (if \<not> Send_is_pending stream then push_pending i (s_priority stream') (st_pending s)
                         else Some (st_pending s));
              Some (Inr (), (put_send i stream' s)\<lparr>st_pending := pending\<rparr>) })"

definition SendStream_reset :: "StreamId \<Rightarrow> VarInt \<Rightarrow> StreamsState \<Rightarrow> Retransmits \<Rightarrow>
    ((ClosedStream + unit) \<times> StreamsState \<times> Retransmits) option" where
  "SendStream_reset i error_code s pending =
     (case st_send s i of
        None \<Rightarrow> Some (Inl ClosedStream, s, pending)
      | Some slot \<Rightarrow>
          let stream = get_or_insert_send (max_send_data i s) slot; s = put_send i stream s in
          if s_state stream = ResetSent then Some (Inl ClosedStream, s, pending)
          else do {
            n \<leftarrow> sb_unacked (s_pending stream);
            unacked \<leftarrow> csub (st_unacked_data s) n;
            Some (Inr (), (put_send i (Send_reset stream) s)\<lparr>st_unacked_data := unacked\<rparr>,
                  pending\<lparr>rt_reset_stream := rt_reset_stream pending @ [(i, error_code)]\<rparr>) })"

definition SendStream_set_priority :: "StreamId \<Rightarrow> int \<Rightarrow> StreamsState \<Rightarrow> (ClosedStream + unit) \<times> StreamsState" where
  "SendStream_set_priority i priority s =
     (case st_send s i of
        None \<Rightarrow> (Inl ClosedStream, s)
      | Some slot \<Rightarrow>
          (Inr (), put_send i ((get_or_insert_send (max_send_data i s) slot)\<lparr>s_priority := priority\<rparr>) s))"

definition SendStream_priority :: "StreamId \<Rightarrow> StreamsState \<Rightarrow> ClosedStream + int" where
  "SendStream_priority i s =
     (case st_send s i of
        None \<Rightarrow> Inl ClosedStream
      | Some None \<Rightarrow> Inr 0
      | Some (Some x) \<Rightarrow> Inr (s_priority x))"

end
