(* ===== verification/Streams_Receive.thy ===== *)
theory Streams_Receive
  imports Streams_Inv Streams_Api
begin

text \<open>
  The receiving side of the streams: every operation returns without a panic and keeps the
  invariant.
\<close>

section \<open>Updates that do not matter\<close>

lemmas inv_defs = streams_inv_def tables_ok_def tables_range_def remote_ids_def known_sends_def recv_ok_def
  send_ok_def queue_ok_def blocked_ok_def

lemma streams_inv_upd [simp]:
  "streams_inv (s\<lparr>st_events := v1\<rparr>) F = streams_inv s F"
  "streams_inv (s\<lparr>st_opened := v2\<rparr>) F = streams_inv s F"
  "streams_inv (s\<lparr>st_next_remote := v3\<rparr>) F = streams_inv s F"
  "streams_inv (s\<lparr>st_streams_blocked := v4\<rparr>) F = streams_inv s F"
  "streams_inv (s\<lparr>st_receive_window := v5\<rparr>) F = streams_inv s F"
  "streams_inv (s\<lparr>st_receive_window_shrink_debt := v6\<rparr>) F = streams_inv s F"
  "streams_inv (s\<lparr>st_send_window := v7\<rparr>) F = streams_inv s F"
  "streams_inv (s\<lparr>st_flow_control_adjusted := v8\<rparr>) F = streams_inv s F"
  "streams_inv (s\<lparr>st_max_concurrent_remote_count := v9\<rparr>) F = streams_inv s F"
  "streams_inv (s\<lparr>st_max := v10\<rparr>) F = streams_inv s F"
  by (simp_all add: inv_defs)

lemma parts_upd [simp]:
  "tables_ok (s\<lparr>st_local_max_data := v1\<rparr>) = tables_ok s"
  "send_ok (s\<lparr>st_local_max_data := v2\<rparr>) F = send_ok s F"
  "queue_ok (s\<lparr>st_local_max_data := v3\<rparr>) = queue_ok s"
  "blocked_ok (s\<lparr>st_local_max_data := v4\<rparr>) = blocked_ok s"
  "tables_ok (s\<lparr>st_data_recvd := v5\<rparr>) = tables_ok s"
  "send_ok (s\<lparr>st_data_recvd := v6\<rparr>) F = send_ok s F"
  "queue_ok (s\<lparr>st_data_recvd := v7\<rparr>) = queue_ok s"
  "blocked_ok (s\<lparr>st_data_recvd := v8\<rparr>) = blocked_ok s"
  "tables_ok (s\<lparr>st_sent_max_data := v9\<rparr>) = tables_ok s"
  "send_ok (s\<lparr>st_sent_max_data := v10\<rparr>) F = send_ok s F"
  "queue_ok (s\<lparr>st_sent_max_data := v11\<rparr>) = queue_ok s"
  "blocked_ok (s\<lparr>st_sent_max_data := v12\<rparr>) = blocked_ok s"
  "tables_ok (s\<lparr>st_unacked_data := v13\<rparr>) = tables_ok s"
  "recv_ok (s\<lparr>st_unacked_data := v14\<rparr>) = recv_ok s"
  "tables_ok (s\<lparr>st_data_sent := v15\<rparr>) = tables_ok s"
  "recv_ok (s\<lparr>st_data_sent := v16\<rparr>) = recv_ok s"
  "tables_ok (s\<lparr>st_max_data := v17\<rparr>) = tables_ok s"
  "recv_ok (s\<lparr>st_max_data := v18\<rparr>) = recv_ok s"
  "tables_ok (s\<lparr>st_connection_blocked := v19\<rparr>) = tables_ok s"
  "recv_ok (s\<lparr>st_connection_blocked := v20\<rparr>) = recv_ok s"
  "tables_ok (s\<lparr>st_pending := v21\<rparr>) = tables_ok s"
  "recv_ok (s\<lparr>st_pending := v22\<rparr>) = recv_ok s"
  "queue_ok (s\<lparr>st_unacked_data := v23\<rparr>) = queue_ok s"
  "queue_ok (s\<lparr>st_data_sent := v24\<rparr>) = queue_ok s"
  "queue_ok (s\<lparr>st_max_data := v25\<rparr>) = queue_ok s"
  "queue_ok (s\<lparr>st_connection_blocked := v26\<rparr>) = queue_ok s"
  "blocked_ok (s\<lparr>st_unacked_data := v27\<rparr>) = blocked_ok s"
  "blocked_ok (s\<lparr>st_data_sent := v28\<rparr>) = blocked_ok s"
  "blocked_ok (s\<lparr>st_max_data := v29\<rparr>) = blocked_ok s"
  "blocked_ok (s\<lparr>st_pending := v30\<rparr>) = blocked_ok s"
  "send_ok (s\<lparr>st_pending := v31\<rparr>) F = send_ok s F"
  "send_ok (s\<lparr>st_connection_blocked := v32\<rparr>) F = send_ok s F"
  by (simp_all add: inv_defs)

lemma streams_inv_event [simp]: "streams_inv (push_event e s) F = streams_inv s F"
  by (simp add: push_event_def)

lemma streams_inv_on_stream_frame [simp]: "streams_inv (on_stream_frame n i s) F = streams_inv s F"
  by (simp add: on_stream_frame_def Let_def)

lemma put_recv_ok:
  assumes "streams_inv s F" and "st_recv s i \<noteq> None" and "Recv_good (st_stream_receive_window s) r"
  shows "streams_inv (put_recv i r s) F"
proof -
  have "remote_ids (put_recv i r s) d = remote_ids s d" "known_sends (put_recv i r s) = known_sends s" for d
    using assms(2) by (auto simp: remote_ids_def known_sends_def put_recv_def)
  then show ?thesis
    using assms
    by (auto simp: streams_inv_def tables_ok_def tables_range_def recv_ok_def send_ok_def queue_ok_def blocked_ok_def put_recv_def)
qed

lemma put_recv_fields [simp]:
  "st_stream_receive_window (put_recv i r s) = st_stream_receive_window s" "st_recv (put_recv i r s) = (st_recv s)(i \<mapsto> Some (Open r))"
  "st_data_recvd (put_recv i r s) = st_data_recvd s" "st_local_max_data (put_recv i r s) = st_local_max_data s"
  "put_recv i q (put_recv i r s) = put_recv i q s"
  by (simp_all add: put_recv_def)

lemma on_stream_frame_fields [simp]:
  "st_data_recvd (on_stream_frame n i s) = st_data_recvd s" "st_local_max_data (on_stream_frame n i s) = st_local_max_data s"
  by (simp_all add: on_stream_frame_def push_event_def Let_def)

text \<open>The receiving half that an operation on the stream works on.\<close>

definition recv_of :: "StreamsState \<Rightarrow> StreamId \<Rightarrow> Recv" where
  "recv_of s i = get_or_insert_recv (st_stream_receive_window s) (case st_recv s i of Some slot \<Rightarrow> slot | None \<Rightarrow> None)"

lemma recv_of_good: "streams_inv s F \<Longrightarrow> Recv_good (st_stream_receive_window s) (recv_of s i)"
  unfolding recv_of_def by (intro get_or_insert_recv_good) (auto simp: streams_inv_def recv_ok_def split: option.splits)

lemma add_read_credits_ok:
  assumes "streams_inv s F"
  shows "\<exists>b s'. add_read_credits n s = Some (b, s') \<and> streams_inv s' F"
proof -
  have ok: "st_data_recvd s \<le> st_local_max_data s" "st_local_max_data s \<le> u64_max" "st_sent_max_data s \<le> st_local_max_data s"
    using assms by (auto simp: streams_inv_def recv_ok_def)
  have sat: "st_local_max_data s \<le> sat_add (st_local_max_data s) k" "sat_add (st_local_max_data s) k \<le> u64_max" for k
    using ok(2) by (auto simp: sat_add_def)
  have "streams_inv (s\<lparr>st_local_max_data := sat_add (st_local_max_data s) k\<rparr>) F" for k
    using assms sat [of k] ok by (simp add: streams_inv_def) (simp add: recv_ok_def)
  then show ?thesis
    using assms ok sat [of "n - st_receive_window_shrink_debt s"]
    by (auto simp: add_read_credits_def Let_def csub_def)
qed

section \<open>Frames\<close>

lemma data_recvd_ok:
  assumes "streams_inv s F" and "st_data_recvd s + n \<le> st_local_max_data s"
  shows "streams_inv (s\<lparr>st_data_recvd := sat_add (st_data_recvd s) n\<rparr>) F"
  using assms by (simp add: streams_inv_def) (simp add: recv_ok_def sat_add_def)

text \<open>
  The peer does not finish a stream below data that it has sent before.
\<close>

definition fin_above :: "StreamFrame \<Rightarrow> StreamsState \<Rightarrow> bool" where
  "fin_above frame s \<longleftrightarrow>
     (sf_fin frame \<longrightarrow> r_end (recv_of s (sf_id frame)) \<le> sf_offset frame + length (sf_data frame))"

lemma received_ok:
  assumes inv: "streams_inv s F" and len: "length (sf_data frame) \<le> payload_len" and fin: "fin_above frame s"
  shows "\<exists>res s'. received frame payload_len s = Some (res, s') \<and> streams_inv s' F"
proof (cases "validate_receive_id (sf_id frame) s")
  case (Inl e)
  then show ?thesis
    using inv by (simp add: received_def Let_def)
next
  case (Inr u)
  let ?i = "sf_id frame" and ?w = "st_stream_receive_window s"
  show ?thesis
  proof (cases "st_recv s ?i")
    case None
    then show ?thesis
      using inv Inr by (simp add: received_def Let_def)
  next
    case (Some slot)
    define r where "r = recv_of s ?i"
    have r: "get_or_insert_recv ?w slot = r" "Recv_good ?w r"
      using Some recv_of_good [OF inv, of ?i] by (simp_all add: r_def recv_of_def)
    have good: "Recv_inv r" "Recv_window ?w r" "\<And>z. Recv_final_offset r = Some z \<Longrightarrow> r_end r \<le> z"
      using r(2) by (auto simp: Recv_good_def)
    have put: "streams_inv (put_recv ?i r s) F"
      using put_recv_ok [OF inv _ r(2)] Some by simp
    show ?thesis
    proof (cases "Recv_is_receiving r")
      case False
      then show ?thesis
        using Some Inr r put by (simp add: received_def Let_def)
    next
      case True
      show ?thesis
      proof (rule Recv_ingest_cases [OF good(1) True len, of "st_data_recvd s" "st_local_max_data s"], goal_cases)
        case 1
        then show ?case
          using Some Inr r put True by (simp add: received_def Let_def)
      next
        case (2 z)
        then show ?case
          using Some Inr r put True by (simp add: received_def Let_def)
      next
        case 3
        then show ?case
          using Some Inr r put True by (simp add: received_def Let_def)
      next
        case (4 r')
        let ?e = "sf_offset frame + length (sf_data frame)"
        let ?n = "?e - r_end r"
        have "Recv_good ?w r'"
          using 4 good fin
          by (auto simp: Recv_good_def Recv_window_def fin_above_def r_def [symmetric] split: if_splits)
        then have s1: "streams_inv ((put_recv ?i r' s)\<lparr>st_data_recvd := sat_add (st_data_recvd s) ?n\<rparr>) F" (is "streams_inv ?s1 F")
          using data_recvd_ok [OF put_recv_ok [OF inv], of ?i r' ?n] Some 4(3) by simp
        show ?thesis
        proof (cases "r_stopped r")
          case False
          then show ?thesis
            using Some Inr r True 4 s1 by (simp add: received_def Let_def)
        next
          case stopped: True
          obtain s2 where s2: "(if sf_fin frame then remove_recv ?i ?s1 else Some ?s1) = Some s2" "streams_inv s2 F"
            using remove_recv_ok [OF s1, of ?i r'] s1 by (cases "sf_fin frame") auto
          obtain b s3 where "add_read_credits ?n s2 = Some (b, s3)" "streams_inv s3 F"
            using add_read_credits_ok [OF s2(2)] by blast
          then show ?thesis
            using Some Inr r True 4 s2(1) stopped by (simp add: received_def Let_def)
        qed
      qed
    qed
  qed
qed

lemma remove_recv_fields:
  assumes inv: "streams_inv s F" and i: "st_recv s i = Some (Some (Open r))"
  shows "\<exists>s'. remove_recv i s = Some s' \<and> streams_inv s' F \<and> st_data_recvd s' = st_data_recvd s \<and>
     st_local_max_data s' = st_local_max_data s"
proof -
  obtain s' where s': "remove_recv i s = Some s'" "streams_inv s' F" and
    ext: "streams_ext (s\<lparr>st_recv := (st_recv s)(i := None),
       st_free_recv := Free (Recv_new (st_stream_receive_window s)) # st_free_recv s\<rparr>) s'"
    using remove_recv_ok [OF assms] by blast
  show ?thesis
    using s' streams_ext_fields(16,19) [OF ext] by simp
qed

lemma received_reset_ok:
  assumes inv: "streams_inv s F"
  shows "\<exists>res s'. received_reset frame s = Some (res, s') \<and> streams_inv s' F"
proof (cases "validate_receive_id (rs_id frame) s")
  case (Inl e)
  then show ?thesis
    using inv by (simp add: received_reset_def Let_def)
next
  case (Inr u)
  let ?i = "rs_id frame" and ?w = "st_stream_receive_window s" and ?z = "unat (into_inner (rs_final_offset frame))"
  show ?thesis
  proof (cases "st_recv s ?i")
    case None
    then show ?thesis
      using inv Inr by (simp add: received_reset_def Let_def)
  next
    case (Some slot)
    define r where "r = recv_of s ?i"
    have r: "get_or_insert_recv ?w slot = r" "Recv_good ?w r"
      using Some recv_of_good [OF inv, of ?i] by (simp_all add: r_def recv_of_def)
    have good: "Recv_inv r" "Recv_window ?w r" "\<And>z. Recv_final_offset r = Some z \<Longrightarrow> r_end r \<le> z"
      using r(2) by (auto simp: Recv_good_def)
    have put: "streams_inv (put_recv ?i r s) F"
      using put_recv_ok [OF inv _ r(2)] Some by simp
    show ?thesis
    proof (rule Recv_reset_cases [OF good(1), of "rs_error_code frame" ?z "st_data_recvd s" "st_local_max_data s"], goal_cases)
      case 1
      then show ?case
        using Some Inr r put by (simp add: received_reset_def Let_def)
    next
      case 2
      then show ?case
        using Some Inr r put by (simp add: received_reset_def Let_def)
    next
      case 3
      then show ?case
        using Some Inr r put by (simp add: received_reset_def Let_def)
    next
      case (4 r')
      have fin: "r_end r \<le> ?z"
        using 4(4) good(3) by (auto split: option.splits)
      then have "Recv_good ?w r'"
        using 4 good by (auto simp: Recv_good_def Recv_window_def Recv_final_offset_def)
      then have s1: "streams_inv (put_recv ?i r' s) F" (is "streams_inv ?s1 F")
        using put_recv_ok [OF inv] Some by simp
      obtain s2 where s2: "(if r_stopped r then remove_recv ?i ?s1 else Some ?s1) = Some s2" "streams_inv s2 F"
        "st_data_recvd s2 = st_data_recvd s" "st_local_max_data s2 = st_local_max_data s"
      proof (cases "r_stopped r")
        case True
        then show ?thesis
          using remove_recv_fields [OF s1, of ?i r'] that by auto
      qed (use s1 that in simp)
      let ?s3 = "on_stream_frame (\<not> r_stopped r) ?i s2"
      have s3: "streams_inv (?s3\<lparr>st_data_recvd := sat_add (st_data_recvd s) (?z - r_end r)\<rparr>) F" (is "streams_inv ?s4 F")
        using data_recvd_ok [of ?s3 F "?z - r_end r"] s2 4(3) by simp
      have "a_bytes_read (r_assembler r) \<le> ?z"
        using good(1) fin by (auto simp: Recv_inv_def)
      moreover obtain b s5 where "add_read_credits (?z - a_bytes_read (r_assembler r)) ?s4 = Some (b, s5)" "streams_inv s5 F"
        using add_read_credits_ok [OF s3] by blast
      ultimately show ?thesis
        using Some Inr r 4 s2 fin by (simp add: received_reset_def Let_def)
    qed
  qed
qed

lemma queue_max_stream_id_ok:
  assumes "tables_range s"
  shows "\<exists>q p. queue_max_stream_id pending s = Some (q, p)"
  using assms by (auto simp: queue_max_stream_id_def Dir_iter_def tables_range_def)

section \<open>Operations of the application\<close>

lemma RecvStream_stop_ok:
  assumes inv: "streams_inv s F"
  shows "\<exists>res s' p. RecvStream_stop i code s pending = Some (res, s', p) \<and> streams_inv s' F"
proof (cases "st_recv s i")
  case None
  then show ?thesis
    using inv by (simp add: RecvStream_stop_def)
next
  case (Some slot)
  let ?w = "st_stream_receive_window s"
  define r where "r = recv_of s i"
  have r: "get_or_insert_recv ?w slot = r" "Recv_good ?w r"
    using Some recv_of_good [OF inv, of i] by (simp_all add: r_def recv_of_def)
  have good: "Recv_inv r" "Recv_window ?w r" "\<And>z. Recv_final_offset r = Some z \<Longrightarrow> r_end r \<le> z"
    using r(2) by (auto simp: Recv_good_def)
  have put: "streams_inv (put_recv i r s) F"
    using put_recv_ok [OF inv _ r(2)] Some by simp
  from good(1) show ?thesis
  proof (cases rule: Recv_stop_cases)
    case again
    then show ?thesis
      using Some r put by (simp add: RecvStream_stop_def Let_def)
  next
    case (ok r')
    have "Recv_good ?w r'"
      using ok good by (auto simp: Recv_good_def Recv_window_def Recv_final_offset_def)
    then have s1: "streams_inv (put_recv i r' s) F" (is "streams_inv ?s1 F")
      using put_recv_ok [OF inv] Some by simp
    obtain s2 where s2: "(if \<not> Recv_final_offset_unknown r' then remove_recv i ?s1 else Some ?s1) = Some s2" "streams_inv s2 F"
      using remove_recv_ok [OF s1, of i r'] s1 by (cases "Recv_final_offset_unknown r'") auto
    obtain b s3 where "add_read_credits (r_end r - a_bytes_read (r_assembler r)) s2 = Some (b, s3)" "streams_inv s3 F"
      using add_read_credits_ok [OF s2(2)] by blast
    then show ?thesis
      using Some r ok s2
      by (cases "Recv_final_offset_unknown r'"; cases "Recv_is_receiving r") (simp_all add: RecvStream_stop_def Let_def)
  qed
qed

lemma RecvStream_received_reset_ok:
  assumes inv: "streams_inv s F"
  shows "\<exists>res s' p. RecvStream_received_reset i s pending = Some (res, s', p) \<and> streams_inv s' F"
proof (cases "\<exists>r. st_recv s i = Some (Some (Open r)) \<and> \<not> r_stopped r \<and> Recv_reset_code r \<noteq> None")
  case True
  then obtain r code where r: "st_recv s i = Some (Some (Open r))" "\<not> r_stopped r" "Recv_reset_code r = Some code"
    by blast
  obtain s' where s': "remove_recv i s = Some s'" "streams_inv s' F"
    using remove_recv_ok [OF inv r(1)] by blast
  moreover obtain q p where "queue_max_stream_id pending s' = Some (q, p)"
    using queue_max_stream_id_ok [of s' pending] s'(2) by (auto simp: streams_inv_def tables_ok_def)
  ultimately show ?thesis
    using r by (simp add: RecvStream_received_reset_def)
next
  case False
  then show ?thesis
    using inv by (auto simp: RecvStream_received_reset_def split: option.splits StreamRecv.splits)
qed

section \<open>Reading\<close>

lemma Assembler_read_fields:
  "Assembler_read m ordered a = Some (res, a') \<Longrightarrow>
     a_end a' = a_end a \<and> a_bytes_read a' = a_bytes_read a + (case res of None \<Rightarrow> 0 | Some c \<Rightarrow> length (c_bytes c))"
proof (induction m ordered a arbitrary: res a' rule: Assembler_read.induct)
  case (1 m ordered a)
  have take: "a_end a'' = a_end a0 \<and> a_bytes_read a'' = a_bytes_read a0 + length (c_bytes c)"
    if "Assembler_take m chunk rest a0 = Some (c, a'')" for chunk rest a0 c a''
    using that by (auto simp: Assembler_take_def split_at_def split: if_splits option.splits bind_splits)
  show ?case
  proof (cases "a_data a")
    case Nil
    then show ?thesis
      using "1.prems" by (simp add: Assembler_read.simps [of m _ a])
  next
    case (Cons chunk rest)
    show ?thesis
    proof (cases "ordered \<and> b_offset chunk \<le> a_bytes_read a \<and> b_offset chunk + length (b_bytes chunk) \<le> a_bytes_read a")
      case True
      then obtain x y where xy: "csub (a_buffered a) (length (b_bytes chunk)) = Some x"
        "csub (a_allocated a) (b_allocation_size chunk) = Some y"
        "Assembler_read m ordered (a\<lparr>a_buffered := x, a_allocated := y, a_data := rest\<rparr>) = Some (res, a')"
        using "1.prems" Cons by (auto simp: Assembler_read.simps [of m _ a] split: bind_splits)
      show ?thesis
        using "1.IH" [OF Cons _ _ xy(1,2) xy(3)] True by simp
    next
      case False
      then show ?thesis
        using "1.prems" Cons
        by (auto simp: Assembler_read.simps [of m _ a] Let_def split: if_splits bind_splits dest!: take)
    qed
  qed
qed

lemma ensure_ordering_end:
  "Assembler_ensure_ordering ordered a = Inr a' \<Longrightarrow> a_end a' = a_end a"
  "Assembler_ensure_ordering ordered a = Inr a' \<Longrightarrow> a_data a = [] \<Longrightarrow>
     a_data a' = [] \<and> a_buffered a' = a_buffered a \<and> a_bytes_read a' = a_bytes_read a \<and> State_is_ordered (a_state a') = ordered"
  by (auto simp: Assembler_ensure_ordering_def Let_def Assembler_defragment_def State_is_ordered_def split: if_splits)

definition readable :: "nat \<Rightarrow> bool \<Rightarrow> Recv \<Rightarrow> bool" where
  "readable w ordered r \<longleftrightarrow> Recv_good w r \<and> \<not> r_stopped r \<and> State_is_ordered (a_state (r_assembler r)) = ordered"

lemma Recv_good_assembler:
  assumes good: "Recv_good w r" and "\<not> r_stopped r"
    and "if Recv_is_receiving r then \<exists>R D. asm_inv (\<lambda>_. UNIV) R D a else a_data a = [] \<and> a_buffered a = 0"
    and "a_end a = a_end (r_assembler r)" and "a_bytes_read (r_assembler r) \<le> a_bytes_read a"
    and "\<not> Recv_is_receiving r \<Longrightarrow> a_bytes_read a = a_bytes_read (r_assembler r)"
  shows "Recv_good w (r\<lparr>r_assembler := a\<rparr>)"
proof -
  have "a_bytes_read a \<le> r_end r"
  proof (cases "Recv_is_receiving r")
    case True
    then have "a_end a = r_end r"
      using good assms(2,4) by (auto simp: Recv_good_def Recv_inv_def)
    then show ?thesis
      using assms(3) True asm_inv_read_le_end by (metis (full_types))
  next
    case False
    then show ?thesis
      using assms(6) good by (auto simp: Recv_good_def Recv_inv_def)
  qed
  then show ?thesis
    using assms
    by (auto simp: Recv_good_def Recv_inv_def Recv_is_receiving_def Recv_window_def Recv_final_offset_def split: if_splits)
qed

lemma readable_ensure:
  assumes good: "Recv_good w r" and "\<not> r_stopped r" and a: "Assembler_ensure_ordering ordered (r_assembler r) = Inr a"
  shows "readable w ordered (r\<lparr>r_assembler := a\<rparr>)"
proof (cases "Recv_is_receiving r")
  case True
  then obtain R D where "asm_inv (\<lambda>_. UNIV) R D (r_assembler r)"
    using assms by (auto simp: Recv_good_def Recv_inv_def)
  from Assembler_ensure_ordering_spec [OF this, of ordered] have
    "asm_inv (\<lambda>_. UNIV) R D a" "State_is_ordered (a_state a) = ordered" "a_bytes_read a = a_bytes_read (r_assembler r)"
    using a by auto
  then show ?thesis
    using Recv_good_assembler [OF assms(1,2), of a] ensure_ordering_end(1) [OF a] True assms(2)
    by (auto simp: readable_def)
next
  case False
  then have "a_data (r_assembler r) = []" "a_buffered (r_assembler r) = 0"
    using assms by (auto simp: Recv_good_def Recv_inv_def)
  then show ?thesis
    using Recv_good_assembler [OF assms(1,2), of a] ensure_ordering_end [OF a] False assms(2)
    by (auto simp: readable_def)
qed

lemma readable_read:
  assumes r: "readable w ordered r"
  shows "\<exists>res a. Assembler_read m ordered (r_assembler r) = Some (res, a) \<and> readable w ordered (r\<lparr>r_assembler := a\<rparr>) \<and>
     a_bytes_read a = a_bytes_read (r_assembler r) + (case res of None \<Rightarrow> 0 | Some c \<Rightarrow> length (c_bytes c)) \<and>
     (\<not> Recv_is_receiving r \<longrightarrow> res = None)"
proof (cases "Recv_is_receiving r")
  case True
  then obtain R D where inv: "asm_inv (\<lambda>_. UNIV) R D (r_assembler r)"
    using r by (auto simp: readable_def Recv_good_def Recv_inv_def)
  have "\<exists>res a. Assembler_read m ordered (r_assembler r) = Some (res, a) \<and> a_state a = a_state (r_assembler r) \<and>
      (\<exists>R D. asm_inv (\<lambda>_. UNIV) R D a)"
  proof (cases ordered)
    case True
    then have "a_state (r_assembler r) = Ordered"
      using r by (auto simp: readable_def State_is_ordered_def split: State.splits)
    from Assembler_read_ordered [OF inv this, of m] show ?thesis
      using True by (fastforce split: option.splits)
  next
    case False
    then have "\<not> State_is_ordered (a_state (r_assembler r))"
      using r by (simp add: readable_def)
    from Assembler_read_unordered [OF inv this, of m] show ?thesis
      using False inv by (fastforce split: option.splits)
  qed
  then obtain res a where a: "Assembler_read m ordered (r_assembler r) = Some (res, a)"
    "a_state a = a_state (r_assembler r)" "\<exists>R D. asm_inv (\<lambda>_. UNIV) R D a"
    by blast
  then show ?thesis
    using r Recv_good_assembler [of w r a] Assembler_read_fields [OF a(1)] True by (auto simp: readable_def)
next
  case False
  then have "a_data (r_assembler r) = []"
    using r by (auto simp: readable_def Recv_good_def Recv_inv_def)
  then show ?thesis
    using r by (simp add: Assembler_read.simps [of m ordered])
qed

text \<open>A reader: while it is open, its stream is not in the table.\<close>

definition chunks_ok :: "StreamMeta list \<Rightarrow> Chunks \<Rightarrow> StreamsState \<Rightarrow> bool" where
  "chunks_ok F c t \<longleftrightarrow>
     (case c_state c of
        ReadableState r \<Rightarrow>
          st_recv t (c_id c) = None \<and> tables_ok (t\<lparr>st_recv := (st_recv t)(c_id c \<mapsto> None)\<rparr>) \<and> recv_ok t \<and> send_ok t F \<and>
          queue_ok t \<and> blocked_ok t \<and> readable (st_stream_receive_window t) (c_ordered c) r \<and>
          (\<not> Recv_is_receiving r \<longrightarrow> c_read c = 0)
      | _ \<Rightarrow> streams_inv t F)"

lemma tables_ok_slot: "tables_ok (t\<lparr>st_recv := (st_recv t)(i \<mapsto> x)\<rparr>) = tables_ok (t\<lparr>st_recv := (st_recv t)(i \<mapsto> y)\<rparr>)"
proof -
  have "((if j = i then Some x else st_recv t j) = None) = ((if j = i then Some y else st_recv t j) = None)" for j
    by simp
  then show ?thesis
    by (simp add: tables_ok_def tables_range_def remote_ids_def known_sends_def fun_upd_def)
qed

lemma Chunks_new_ok:
  assumes inv: "streams_inv s F"
  shows "case Chunks_new i ordered s of
      (Inl _, s') \<Rightarrow> streams_inv s' F
    | (Inr c, s') \<Rightarrow> chunks_ok F c s' \<and> (\<exists>r. c_state c = ReadableState r)"
proof (cases "st_recv s i")
  case None
  then show ?thesis
    using inv by (simp add: Chunks_new_def)
next
  case (Some slot)
  let ?w = "st_stream_receive_window s"
  define r where "r = recv_of s i"
  have r: "get_or_insert_recv ?w slot = r" "Recv_good ?w r"
    using Some recv_of_good [OF inv, of i] by (simp_all add: r_def recv_of_def)
  have put: "streams_inv (put_recv i r s) F"
    using put_recv_ok [OF inv _ r(2)] Some by simp
  define t where "t = (put_recv i r s)\<lparr>st_recv := (st_recv s)(i := None)\<rparr>"
  have t: "recv_ok t" "send_ok t F" "queue_ok t" "blocked_ok t" "st_recv t i = None" "st_stream_receive_window t = ?w"
    using inv by (auto simp: t_def put_recv_def streams_inv_def recv_ok_def send_ok_def queue_ok_def blocked_ok_def)
  have "t\<lparr>st_recv := (st_recv t)(i \<mapsto> Some (Open r))\<rparr> = put_recv i r s"
    by (simp add: t_def put_recv_def)
  then have tab: "tables_ok (t\<lparr>st_recv := (st_recv t)(i \<mapsto> None)\<rparr>)"
    using put tables_ok_slot [of t i "Some (Open r)" None] by (simp add: streams_inv_def)
  have sub: "remote_ids t d \<subseteq> remote_ids (t\<lparr>st_recv := (st_recv t)(i \<mapsto> None)\<rparr>) d"
    "known_sends t = known_sends (t\<lparr>st_recv := (st_recv t)(i \<mapsto> None)\<rparr>)" for d
    by (auto simp: remote_ids_def known_sends_def)
  have "tables_ok t"
    using tab sub(2) order_trans [OF card_mono [OF finite_range(2) sub(1)]]
    by (auto simp: tables_ok_def) (auto simp: tables_range_def split: if_splits)
  then have "streams_inv t F"
    using t by (simp add: streams_inv_def)
  then show ?thesis
    using Some r put t tab readable_ensure [OF r(2), of ordered]
    by (auto simp: Chunks_new_def t_def [symmetric] chunks_ok_def Recv_is_receiving_def Let_def split: sum.splits)
qed

lemma Chunks_next_ok:
  assumes ok: "chunks_ok F c t" and live: "c_state c \<noteq> FinalizedState"
  shows "\<exists>res c' t'. Chunks_next m c t = Some (res, c', t') \<and> chunks_ok F c' t' \<and> c_state c' \<noteq> FinalizedState"
proof (cases "c_state c")
  case (ReadableState r)
  let ?w = "st_stream_receive_window t"
  have t: "st_recv t (c_id c) = None" "tables_ok (t\<lparr>st_recv := (st_recv t)(c_id c \<mapsto> None)\<rparr>)" "recv_ok t" "send_ok t F"
    "queue_ok t" "blocked_ok t" and r: "readable ?w (c_ordered c) r" and z: "\<not> Recv_is_receiving r \<Longrightarrow> c_read c = 0"
    using ok ReadableState by (simp_all add: chunks_ok_def)
  from readable_read [OF r, of m] obtain res a where a: "Assembler_read m (c_ordered c) (r_assembler r) = Some (res, a)"
    "readable ?w (c_ordered c) (r\<lparr>r_assembler := a\<rparr>)" "\<not> Recv_is_receiving r \<Longrightarrow> res = None"
    by blast
  have still: "Recv_is_receiving (r\<lparr>r_assembler := a\<rparr>) = Recv_is_receiving r"
    by (simp add: Recv_is_receiving_def)
  obtain u where u: "stream_recv_freed (c_id c) (Open (r\<lparr>r_assembler := a\<rparr>)) t = Some u" "streams_inv u F"
    using free_recv_ok [OF t(2,1,3-6)] by blast
  have blocked: "chunks_ok F (c\<lparr>c_state := ReadableState (r\<lparr>r_assembler := a\<rparr>)\<rparr>) t"
    using t a(2) z still by (simp add: chunks_ok_def)
  show ?thesis
  proof (cases res)
    case (Some chunk)
    then have "Recv_is_receiving r"
      using a(3) by auto
    then show ?thesis
      using ReadableState a Some t still by (simp add: Chunks_next_def chunks_ok_def)
  next
    case None
    show ?thesis
    proof (cases "r_state r")
      case (Receiving final)
      then show ?thesis
        using ReadableState a None blocked u by (auto simp: Chunks_next_def Let_def chunks_ok_def)
    next
      case (ResetRecvd z code)
      then have "c_read c = 0"
        using z by (simp add: Recv_is_receiving_def)
      then show ?thesis
        using ReadableState a None ResetRecvd u by (simp add: Chunks_next_def Let_def chunks_ok_def)
    qed
  qed
qed (use assms in \<open>simp_all add: Chunks_next_def\<close>)

lemma Chunks_finalize_ok:
  assumes ok: "chunks_ok F c t"
  shows "\<exists>b c' t' p. Chunks_finalize c t pending = Some (b, c', t', p) \<and> streams_inv t' F \<and> c_state c' = FinalizedState"
proof (cases "c_state c")
  case (ReadableState r)
  let ?w = "st_stream_receive_window t"
  have t: "st_recv t (c_id c) = None" "tables_ok (t\<lparr>st_recv := (st_recv t)(c_id c \<mapsto> None)\<rparr>)" "recv_ok t" "send_ok t F"
    "queue_ok t" "blocked_ok t" and r: "readable ?w (c_ordered c) r"
    using ok ReadableState by (simp_all add: chunks_ok_def)
  have good: "Recv_good ?w r"
    using r by (simp add: readable_def)
  have "tables_range t"
    using t(2) by (auto simp: tables_ok_def tables_range_def split: if_splits)
  then obtain q p where q: "queue_max_stream_id pending t = Some (q, p)"
    using queue_max_stream_id_ok by blast
  have "tables_ok (put_recv (c_id c) r t)"
    using t(2) tables_ok_slot [of t "c_id c" "Some (Open r)" None] by (simp add: put_recv_def)
  moreover have "recv_ok (put_recv (c_id c) r t)"
    using t(3) good by (simp add: recv_ok_def put_recv_def)
  moreover have "send_ok (put_recv (c_id c) r t) F" "queue_ok (put_recv (c_id c) r t)" "blocked_ok (put_recv (c_id c) r t)"
    using t by (simp_all add: send_ok_def queue_ok_def blocked_ok_def put_recv_def)
  ultimately have "streams_inv (put_recv (c_id c) r t) F"
    by (simp add: streams_inv_def)
  then obtain b u where "add_read_credits (c_read c) (put_recv (c_id c) r t) = Some (b, u)" "streams_inv u F"
    using add_read_credits_ok by blast
  moreover have "Recv_window ?w r"
    using good by (simp add: Recv_good_def)
  ultimately show ?thesis
    using ReadableState q by (simp add: Chunks_finalize_def Recv_max_stream_data_spec Let_def)
next
  case FinalizedState
  then show ?thesis
    using ok by (auto simp: Chunks_finalize_def chunks_ok_def)
qed (use ok queue_max_stream_id_ok [of t pending] add_read_credits_ok [of t F "c_read c"]
     in \<open>auto simp: Chunks_finalize_def chunks_ok_def streams_inv_def tables_ok_def\<close>)

text \<open>
  One use of a reader by the application: it is created, asked for chunks of the given maximal
  lengths, and finalized (which dropping it also does).
\<close>

fun Chunks_nexts :: "nat list \<Rightarrow> Chunks \<Rightarrow> StreamsState \<Rightarrow> ((ReadError + Chunk option) list \<times> Chunks \<times> StreamsState) option" where
  "Chunks_nexts [] c s = Some ([], c, s)"
| "Chunks_nexts (m # ms) c s = do {
     (res, c, s) \<leftarrow> Chunks_next m c s;
     (rest, c, s) \<leftarrow> Chunks_nexts ms c s;
     Some (res # rest, c, s) }"

definition read_stream :: "StreamId \<Rightarrow> bool \<Rightarrow> nat list \<Rightarrow> StreamsState \<Rightarrow> Retransmits \<Rightarrow>
    ((ReadableError + (ReadError + Chunk option) list) \<times> StreamsState \<times> Retransmits) option" where
  "read_stream i ordered lengths s pending =
     (case Chunks_new i ordered s of
        (Inl e, s) \<Rightarrow> Some (Inl e, s, pending)
      | (Inr c, s) \<Rightarrow> do {
          (results, c, s) \<leftarrow> Chunks_nexts lengths c s;
          (_, c, s, pending) \<leftarrow> Chunks_finalize c s pending;
          Some (Inr results, s, pending) })"

lemma Chunks_nexts_ok:
  "chunks_ok F c t \<Longrightarrow> c_state c \<noteq> FinalizedState \<Longrightarrow>
     \<exists>res c' t'. Chunks_nexts ms c t = Some (res, c', t') \<and> chunks_ok F c' t' \<and> c_state c' \<noteq> FinalizedState"
proof (induction ms arbitrary: c t)
  case (Cons m ms)
  obtain r c1 t1 where 1: "Chunks_next m c t = Some (r, c1, t1)" "chunks_ok F c1 t1" "c_state c1 \<noteq> FinalizedState"
    using Chunks_next_ok [OF Cons.prems] by blast
  then show ?case
    using Cons.IH [OF 1(2,3)] by auto
qed simp

lemma read_stream_ok:
  assumes "streams_inv s F"
  shows "\<exists>res s' p. read_stream i ordered lengths s pending = Some (res, s', p) \<and> streams_inv s' F"
proof (cases "Chunks_new i ordered s")
  case (Pair x t)
  note new = Chunks_new_ok [OF assms, of i ordered]
  show ?thesis
  proof (cases x)
    case (Inl e)
    then show ?thesis
      using Pair new by (simp add: read_stream_def)
  next
    case (Inr c)
    then have "chunks_ok F c t" "c_state c \<noteq> FinalizedState"
      using Pair new by auto
    from Chunks_nexts_ok [OF this] obtain res c1 t1 where "Chunks_nexts lengths c t = Some (res, c1, t1)" "chunks_ok F c1 t1"
      by blast
    then show ?thesis
      using Pair Inr Chunks_finalize_ok [of F c1 t1 pending] by (auto simp: read_stream_def)
  qed
qed

end
