(* ===== verification/Streams_Send.thy ===== *)
theory Streams_Send
  imports Streams_Receive "HOL-Library.Multiset"
begin

text \<open>
  The sending side of the streams: every operation returns without a panic, keeps the invariant,
  and accounts for the frames in flight.
\<close>

section \<open>Changing one sending half\<close>

lemma finite_sends: "streams_inv s F \<Longrightarrow> finite (dom (st_send s))"
  using finite_range(1) by (simp add: streams_inv_def tables_ok_def)

lemma put_send_upd_ok:
  fixes B q u d
  assumes inv: "streams_inv s F" and i: "st_send s i \<noteq> None"
    and x: "stream_ok x (flights F' i)" "known s i \<or> s_state x = Ready"
    and F': "\<And>j. j \<noteq> i \<Longrightarrow> flights F' j = flights F j" "\<And>m. m \<in> set F' \<Longrightarrow> m \<in> set F \<or> sm_id m = i"
    and u: "st_unacked_data s + unacked_of x \<le> u + slot_unacked (st_send s i)" and d: "d \<le> st_max_data s"
    and q: "pq_inv q" "queued_ids (st_pending s) - {i} \<subseteq> queued_ids q"
      "Send_is_pending x \<Longrightarrow> \<not> Send_is_reset x \<Longrightarrow> i \<in> queued_ids q"
    and B: "distinct B" "set B \<subseteq> insert i (set (st_connection_blocked s))" "i \<in> set B \<Longrightarrow> s_connection_blocked x"
  shows "streams_inv ((put_send i x s)\<lparr>st_data_sent := d, st_unacked_data := u, st_pending := q, st_connection_blocked := B\<rparr>) F'"
    (is "streams_inv ?t F'")
proof -
  have known: "remote_ids ?t dir = remote_ids s dir" "known_sends ?t = known_sends s" for dir
    using i by (auto simp: remote_ids_def known_sends_def put_send_def)
  have alloc: "allocated s i"
    using inv i by (auto simp: streams_inv_def tables_ok_def tables_range_def)
  have "tables_ok ?t" "recv_ok ?t"
    using inv i known by (auto simp: streams_inv_def tables_ok_def tables_range_def recv_ok_def put_send_def)
  moreover have "total_unacked (st_send ?t) \<le> u"
    using total_unacked_upd [OF finite_sends [OF inv], of i "Some (Some x)"] u inv
    by (simp add: put_send_def slot_unacked_def streams_inv_def send_ok_def)
  then have "send_ok ?t F'"
    using inv x F' d alloc by (fastforce simp: streams_inv_def send_ok_def put_send_def)
  moreover have "queue_ok ?t"
    using inv q by (auto simp: streams_inv_def queue_ok_def put_send_def)
  moreover have "blocked_ok ?t"
    using inv B alloc by (auto simp: streams_inv_def blocked_ok_def put_send_def)
  ultimately show ?thesis
    by (simp add: streams_inv_def)
qed

lemma put_send_ok:
  assumes "streams_inv s F" and "st_send s i \<noteq> None"
    and "stream_ok x (flights F i)" and "known s i \<or> s_state x = Ready" and "unacked_of x \<le> slot_unacked (st_send s i)"
    and "Send_is_pending x \<Longrightarrow> \<not> Send_is_reset x \<Longrightarrow> i \<in> queued_ids (st_pending s)"
    and "i \<in> set (st_connection_blocked s) \<Longrightarrow> s_connection_blocked x"
  shows "streams_inv (put_send i x s) F"
  using put_send_upd_ok [OF assms(1-4), of "st_unacked_data s" "st_data_sent s" "st_pending s" "st_connection_blocked s"] assms
  by (auto simp: streams_inv_def queue_ok_def blocked_ok_def send_ok_def put_send_def)

text \<open>The sending half that an operation on the stream works on.\<close>

definition send_of :: "StreamsState \<Rightarrow> StreamId \<Rightarrow> Send" where
  "send_of s i = get_or_insert_send (max_send_data i s) (case st_send s i of Some slot \<Rightarrow> slot | None \<Rightarrow> None)"

lemma send_of_eq: "st_send s i = Some slot \<Longrightarrow> get_or_insert_send (max_send_data i s) slot = send_of s i"
  by (simp add: send_of_def)

lemma send_of_Some: "st_send s i = Some (Some x) \<Longrightarrow> send_of s i = x"
  by (simp add: send_of_def get_or_insert_send_def)

lemma Send_new_fields [simp]: "s_state (Send_new n) = Ready" "\<not> Send_is_pending (Send_new n)"
  by (simp_all add: Send_new_def Send_is_pending_def sb_has_unsent_data_def sb_new_def
      sb_offset_def sbd_new_def sbd_range_def ars_is_empty_def)

lemma send_of_ok:
  assumes inv: "streams_inv s F" and i: "st_send s i \<noteq> None"
  shows "stream_ok (send_of s i) (flights F i)" and "known s i \<or> s_state (send_of s i) = Ready"
    and "slot_unacked (st_send s i) = unacked_of (send_of s i)"
    and "Send_is_pending (send_of s i) \<Longrightarrow> \<not> Send_is_reset (send_of s i) \<Longrightarrow> i \<in> queued_ids (st_pending s)"
    and "i \<in> set (st_connection_blocked s) \<Longrightarrow> s_connection_blocked (send_of s i)"
proof -
  have "stream_ok (send_of s i) (flights F i) \<and> (known s i \<or> s_state (send_of s i) = Ready) \<and>
    slot_unacked (st_send s i) = unacked_of (send_of s i) \<and>
    (Send_is_pending (send_of s i) \<longrightarrow> \<not> Send_is_reset (send_of s i) \<longrightarrow> i \<in> queued_ids (st_pending s)) \<and>
    (i \<in> set (st_connection_blocked s) \<longrightarrow> s_connection_blocked (send_of s i))"
  proof (cases "st_send s i = Some None")
    case True
    have none: "flights F i = []"
      using True inv by (fastforce simp: streams_inv_def send_ok_def flights_def filter_empty_conv)
    have "max_send_data i s < 2 ^ 62"
      using inv by (auto simp: streams_inv_def send_ok_def max_send_data_def split: Dir.splits)
    moreover have "send_of s i = Send_new (max_send_data i s)"
      using True by (simp add: send_of_def get_or_insert_send_def)
    moreover have "i \<notin> set (st_connection_blocked s)"
      using inv True by (auto simp: streams_inv_def blocked_ok_def)
    ultimately show ?thesis
      using none stream_ok_new True by (simp add: slot_unacked_def)
  next
    case False
    then obtain x where "st_send s i = Some (Some x)"
      using i by (metis not_Some_eq)
    then show ?thesis
      using inv
      by (simp add: send_of_Some slot_unacked_def) (auto simp: streams_inv_def send_ok_def queue_ok_def blocked_ok_def)
  qed
  then show "stream_ok (send_of s i) (flights F i)" "known s i \<or> s_state (send_of s i) = Ready"
    "slot_unacked (st_send s i) = unacked_of (send_of s i)"
    "Send_is_pending (send_of s i) \<Longrightarrow> \<not> Send_is_reset (send_of s i) \<Longrightarrow> i \<in> queued_ids (st_pending s)"
    "i \<in> set (st_connection_blocked s) \<Longrightarrow> s_connection_blocked (send_of s i)"
    by auto
qed

lemma put_send_of: "streams_inv s F \<Longrightarrow> st_send s i \<noteq> None \<Longrightarrow> streams_inv (put_send i (send_of s i) s) F"
  using send_of_ok [of s F i] by (intro put_send_ok) auto

lemma put_send_fields [simp]:
  "st_send (put_send i x s) = (st_send s)(i \<mapsto> Some x)" "st_pending (put_send i x s) = st_pending s"
  "st_connection_blocked (put_send i x s) = st_connection_blocked s" "st_unacked_data (put_send i x s) = st_unacked_data s"
  "st_data_sent (put_send i x s) = st_data_sent s" "st_max_data (put_send i x s) = st_max_data s"
  "put_send i y (put_send i x s) = put_send i y s"
  by (simp_all add: put_send_def)

lemma put_send_pending: "put_send i x (s\<lparr>st_pending := q\<rparr>) = (put_send i x s)\<lparr>st_pending := q\<rparr>"
  by (simp add: put_send_def)

lemma write_limit_ok:
  "streams_inv s F \<Longrightarrow> \<exists>n. write_limit s = Some n \<and> st_data_sent s + n \<le> st_max_data s"
  by (auto simp: write_limit_def streams_inv_def send_ok_def)

text \<open>Queueing a stream.\<close>

lemma push_pending_ids:
  assumes "pq_inv q" and "0 < pq_recency q"
  shows "\<exists>q'. push_pending i pr q = Some q' \<and> pq_inv q' \<and> queued_ids q' = insert i (queued_ids q) \<and>
    pq_recency q' = pq_recency q - 1"
proof -
  obtain q' where q': "push_pending i pr q = Some q'" "pq_inv q'" "pq_next q' = pq_next q" "pq_recency q' = pq_recency q - 1"
    "set (map ps_id (pq_streams q')) = insert i (set (map ps_id (pq_streams q)))"
    using push_pending_spec [OF assms, of i pr] by blast
  have "queued_ids q' = insert i (queued_ids q)"
    using q'(3,5) by (auto simp: queued_ids_def pq_iter_def split: option.splits)
  then show ?thesis
    using q' by blast
qed

lemma queue_if_ok:
  assumes "streams_inv s F" and "0 < pq_recency (st_pending s)" and "p \<Longrightarrow> i \<in> queued_ids (st_pending s)"
  obtains q where "(if \<not> p then push_pending i pr (st_pending s) else Some (st_pending s)) = Some q" "pq_inv q"
    "queued_ids q = insert i (queued_ids (st_pending s))"
  using push_pending_ids [of "st_pending s" i pr] assms by (cases p) (auto simp: streams_inv_def queue_ok_def)

lemma stream_ok_same_buffer:
  "stream_ok x R \<Longrightarrow> s_pending y = s_pending x \<Longrightarrow> s_max_data y = s_max_data x \<Longrightarrow> (Send_is_reset x \<Longrightarrow> Send_is_reset y) \<Longrightarrow>
     stream_ok y R"
  using stream_ok_cong [of x R y] by (auto simp: stream_ok_def)

lemma block_stream_ok:
  assumes inv: "streams_inv s F" and i: "st_send s i = Some (Some x)" and "\<not> s_connection_blocked x"
  shows "streams_inv ((put_send i (x\<lparr>s_connection_blocked := True\<rparr>) s)\<lparr>st_connection_blocked := i # st_connection_blocked s\<rparr>) F"
proof -
  let ?y = "x\<lparr>s_connection_blocked := True\<rparr>"
  note x = send_of_ok [OF inv, of i, unfolded send_of_Some [OF i] i, simplified]
  have y: "stream_ok ?y (flights F i)" "unacked_of ?y = unacked_of x" "Send_is_pending ?y = Send_is_pending x"
    "Send_is_reset ?y = Send_is_reset x"
    using stream_ok_same_buffer [of x "flights F i" ?y] x(1) by (auto simp: unacked_of_def Send_is_reset_def Send_is_pending_def)
  have "distinct (i # st_connection_blocked s)" "st_data_sent s \<le> st_max_data s" "pq_inv (st_pending s)"
    using inv x(5) assms(3) by (auto simp: streams_inv_def blocked_ok_def send_ok_def queue_ok_def)
  then show ?thesis
    using put_send_upd_ok [OF inv _ y(1), of "st_unacked_data s" "st_data_sent s" "st_pending s" "i # st_connection_blocked s"]
      i x y(2-4)
    by (auto simp: put_send_def)
qed

lemma streams_inv_basic:
  assumes "streams_inv s F"
  shows "distinct (st_connection_blocked s)" and "st_data_sent s \<le> st_max_data s" and "pq_inv (st_pending s)"
  using assms by (auto simp: streams_inv_def blocked_ok_def send_ok_def queue_ok_def)

text \<open>The same with the frames in flight unchanged.\<close>

lemma put_send_same_flight:
  fixes q u d
  assumes inv: "streams_inv s F" and i: "st_send s i \<noteq> None" and k: "known s i" and x: "stream_ok x (flights F i)"
    and b: "s_connection_blocked x = s_connection_blocked (send_of s i)"
    and u: "st_unacked_data s + unacked_of x \<le> u + unacked_of (send_of s i)" and d: "d \<le> st_max_data s"
    and q: "pq_inv q" "queued_ids (st_pending s) \<subseteq> queued_ids q"
      "Send_is_pending x \<Longrightarrow> \<not> Send_is_reset x \<Longrightarrow> i \<in> queued_ids q"
  shows "streams_inv ((put_send i x s)\<lparr>st_data_sent := d, st_unacked_data := u, st_pending := q\<rparr>) F"
proof -
  have "streams_inv ((put_send i x s)\<lparr>st_data_sent := d, st_unacked_data := u, st_pending := q,
      st_connection_blocked := st_connection_blocked s\<rparr>) F"
  proof (rule put_send_upd_ok [OF inv i x])
    show "st_unacked_data s + unacked_of x \<le> u + slot_unacked (st_send s i)"
      using u send_of_ok(3) [OF inv i] by simp
    show "i \<in> set (st_connection_blocked s) \<Longrightarrow> s_connection_blocked x"
      using b send_of_ok(5) [OF inv i] by simp
    show "queued_ids (st_pending s) - {i} \<subseteq> queued_ids q"
      using q(2) by blast
  qed (use k d q streams_inv_basic [OF inv] in \<open>simp_all add: subset_insertI\<close>)
  then show ?thesis
    by (simp add: put_send_def)
qed

section \<open>Operations of the application\<close>

lemma SendStream_write_source_ok:
  assumes inv: "streams_inv s F" and known: "known s i" and rec: "0 < pq_recency (st_pending s)"
  shows "\<exists>res src' s'. SendStream_write_source closed i src s = Some (res, src', s') \<and> streams_inv s' F"
proof (cases "closed \<or> st_send s i = None")
  case True
  then show ?thesis
    using inv write_limit_ok [OF inv] by (auto simp: SendStream_write_source_def)
next
  case False
  then obtain slot where slot: "st_send s i = Some slot" "\<not> closed"
    by auto
  obtain limit where limit: "write_limit s = Some limit" "st_data_sent s + limit \<le> st_max_data s"
    using write_limit_ok [OF inv] by blast
  define x where "x = send_of s i"
  define s1 where "s1 = put_send i x s"
  have s1: "streams_inv s1 F" "st_send s1 i = Some (Some x)"
    using put_send_of [OF inv] slot by (simp_all add: s1_def x_def)
  note x = send_of_ok [OF inv, of i, folded x_def]
  show ?thesis
  proof (cases "limit = 0")
    case True
    then show ?thesis
      using slot limit s1 block_stream_ok [OF s1] send_of_eq [OF slot(1)]
      by (auto simp: SendStream_write_source_def Let_def x_def [symmetric] s1_def [symmetric])
  next
    case False
    obtain xs where xs: "Send_inv xs x"
      using x(1) slot by (auto simp: stream_ok_def)
    show ?thesis
    proof (cases "s_state x = Ready \<and> s_stop_reason x = None \<and> Send_offset x < s_max_data x")
      case True
      then have ready: "s_state x = Ready" "s_stop_reason x = None" "Send_offset x < s_max_data x" and ok: "stream_ok x (flights F i)"
        using x(1) slot by simp_all
      obtain w src' y where w: "Send_write src limit x = Some (Inr (w, src', y))" "stream_ok y (flights F i)"
        "w_bytes w = min (min limit (s_max_data x - Send_offset x)) (length (src_bytes src))"
        "y = x\<lparr>s_pending := s_pending y\<rparr>" "unacked_of y = unacked_of x + w_bytes w" "Send_is_pending x \<Longrightarrow> Send_is_pending y"
        using stream_ok_write [OF ok ready, of src limit] by blast
      have y: "s_connection_blocked y = s_connection_blocked x" "s_state y = Ready" "s_priority y = s_priority x"
        using True by (subst w(4), simp)+
      have "Send_is_pending x \<Longrightarrow> i \<in> queued_ids (st_pending s)"
        using x(4) slot True by (simp add: Send_is_reset_def)
      from queue_if_ok [OF inv rec this, where pr = "s_priority y"] obtain q where
        q: "(if \<not> Send_is_pending x then push_pending i (s_priority y) (st_pending s) else Some (st_pending s)) = Some q"
        "pq_inv q" "queued_ids q = insert i (queued_ids (st_pending s))" .
      have "streams_inv ((put_send i y s)\<lparr>st_data_sent := st_data_sent s + w_bytes w,
          st_unacked_data := st_unacked_data s + w_bytes w, st_pending := q\<rparr>) F"
        using slot limit(2)
        by (intro put_send_same_flight [OF inv _ known w(2)]) (simp_all add: x_def [symmetric] w(3,5) y q subset_insertI)
      then show ?thesis
        using slot limit False w(1) q(1) send_of_eq [OF slot(1)]
        by (auto simp: SendStream_write_source_def Let_def x_def [symmetric] y(3) put_send_def split: if_splits)
    next
      case no: False
      then have "\<exists>e. Send_write src limit x = Some (Inl e)"
        using Send_write_error [OF xs, where src = src and limit = limit] Send_offset_inv [OF xs] xs
        by (cases "s_state x = Ready"; cases "s_stop_reason x") (auto simp: Send_inv_def)
      then show ?thesis
        using slot limit False s1 send_of_eq [OF slot(1)]
        by (auto simp: SendStream_write_source_def Let_def x_def [symmetric] s1_def [symmetric])
    qed
  qed
qed

lemma SendStream_finish_ok:
  assumes inv: "streams_inv s F" and known: "known s i" and rec: "0 < pq_recency (st_pending s)"
  shows "\<exists>res s'. SendStream_finish i s = Some (res, s') \<and> streams_inv s' F"
proof (cases "st_send s i")
  case None
  then show ?thesis
    using inv by (simp add: SendStream_finish_def)
next
  case (Some slot)
  define x where "x = send_of s i"
  note x = send_of_ok [OF inv, of i, folded x_def]
  show ?thesis
  proof (cases "s_stop_reason x = None \<and> s_state x = Ready")
    case True
    let ?y = "x\<lparr>s_state := DataSent False, s_fin_pending := True\<rparr>"
    have "Send_is_pending x \<Longrightarrow> i \<in> queued_ids (st_pending s)"
      using x(4) Some True by (simp add: Send_is_reset_def)
    from queue_if_ok [OF inv rec this, where pr = "s_priority x"] obtain q where
      q: "(if \<not> Send_is_pending x then push_pending i (s_priority x) (st_pending s) else Some (st_pending s)) = Some q"
      "pq_inv q" "queued_ids q = insert i (queued_ids (st_pending s))" .
    have "stream_ok ?y (flights F i)" "unacked_of ?y = unacked_of x"
      using stream_ok_same_buffer [of x "flights F i" ?y] x(1) Some True by (auto simp: unacked_of_def Send_is_reset_def)
    then have "streams_inv ((put_send i ?y s)\<lparr>st_data_sent := st_data_sent s, st_unacked_data := st_unacked_data s,
        st_pending := q\<rparr>) F"
      using Some streams_inv_basic [OF inv]
      by (intro put_send_same_flight [OF inv _ known]) (simp_all add: x_def [symmetric] q subset_insertI)
    then show ?thesis
      using Some q(1) send_of_eq [OF Some] True
      by (auto simp: SendStream_finish_def Send_finish_def Let_def x_def [symmetric] put_send_def split: if_splits)
  next
    case False
    then show ?thesis
      using Some put_send_of [OF inv] send_of_eq [OF Some]
      by (auto simp: SendStream_finish_def Send_finish_def Let_def x_def split: option.splits)
  qed
qed

lemma SendStream_reset_ok:
  assumes inv: "streams_inv s F" and known: "known s i"
  shows "\<exists>res s' p. SendStream_reset i code s pending = Some (res, s', p) \<and> streams_inv s' F"
proof (cases "st_send s i")
  case None
  then show ?thesis
    using inv by (simp add: SendStream_reset_def)
next
  case (Some slot)
  define x where "x = send_of s i"
  note x = send_of_ok [OF inv, of i, folded x_def]
  show ?thesis
  proof (cases "s_state x = ResetSent")
    case True
    then show ?thesis
      using Some put_send_of [OF inv] send_of_eq [OF Some] by (simp add: SendStream_reset_def Let_def x_def)
  next
    case False
    let ?y = "Send_reset x"
    have y: "s_state ?y = ResetSent" "s_pending ?y = s_pending x" "s_max_data ?y = s_max_data x"
      "s_connection_blocked ?y = s_connection_blocked x"
      by (simp_all add: Send_reset_def split: SendState.splits)
    have u: "sb_unacked (s_pending x) = Some (unacked_of x)"
      using stream_ok_unacked [OF x(1)] Some False by (simp add: Send_is_reset_def)
    have "unacked_of x \<le> st_unacked_data s"
      using slot_unacked_le [OF finite_sends [OF inv], of i] x(3) Some inv by (simp add: streams_inv_def send_ok_def)
    moreover have "stream_ok ?y (flights F i)" "unacked_of ?y = 0"
      using stream_ok_same_buffer [of x "flights F i" ?y] x(1) Some y by (auto simp: unacked_of_def Send_is_reset_def)
    ultimately have "streams_inv ((put_send i ?y s)\<lparr>st_data_sent := st_data_sent s, st_unacked_data := st_unacked_data s - unacked_of x,
        st_pending := st_pending s\<rparr>) F"
      using Some streams_inv_basic [OF inv]
      by (intro put_send_same_flight [OF inv _ known]) (simp_all add: x_def [symmetric] y Send_is_reset_def)
    then show ?thesis
      using Some send_of_eq [OF Some] False u \<open>unacked_of x \<le> st_unacked_data s\<close>
      by (simp add: SendStream_reset_def Let_def x_def [symmetric]) (simp add: put_send_def)
  qed
qed

lemma SendStream_set_priority_ok:
  assumes inv: "streams_inv s F"
  shows "streams_inv (snd (SendStream_set_priority i p s)) F"
proof (cases "st_send s i")
  case (Some slot)
  define x where "x = send_of s i"
  let ?y = "x\<lparr>s_priority := p\<rparr>"
  note x = send_of_ok [OF inv, of i, folded x_def]
  have "stream_ok ?y (flights F i)" "unacked_of ?y = unacked_of x"
    using stream_ok_same_buffer [of x "flights F i" ?y] x(1) Some by (auto simp: unacked_of_def Send_is_reset_def)
  moreover have "Send_is_pending ?y = Send_is_pending x" "Send_is_reset ?y = Send_is_reset x"
    by (simp_all add: Send_is_reset_def Send_is_pending_def)
  ultimately have "streams_inv (put_send i ?y s) F"
    using Some x by (intro put_send_ok [OF inv]) simp_all
  then show ?thesis
    using Some send_of_eq [OF Some] by (simp add: SendStream_set_priority_def x_def)
qed (use inv in \<open>simp add: SendStream_set_priority_def\<close>)

section \<open>Frames from the peer\<close>

lemma received_stop_sending_ok:
  assumes inv: "streams_inv s F"
  shows "streams_inv (received_stop_sending i code s) F"
proof (cases "st_send s i")
  case (Some slot)
  define x where "x = send_of s i"
  let ?y = "snd (Send_try_stop code x)"
  note x = send_of_ok [OF inv, of i, folded x_def]
  have y: "s_pending ?y = s_pending x" "s_max_data ?y = s_max_data x" "s_state ?y = s_state x" "s_fin_pending ?y = s_fin_pending x"
    "s_connection_blocked ?y = s_connection_blocked x"
    by (simp_all add: Send_try_stop_def)
  then have "stream_ok ?y (flights F i)" "unacked_of ?y = unacked_of x"
    using stream_ok_same_buffer [of x "flights F i" ?y] x(1) Some by (auto simp: unacked_of_def Send_is_reset_def)
  then have "streams_inv (put_send i ?y s) F"
    using Some x y by (intro put_send_ok [OF inv]) (simp_all add: Send_is_pending_def Send_is_reset_def)
  then show ?thesis
    using Some send_of_eq [OF Some]
    by (cases "Send_try_stop code x") (simp add: received_stop_sending_def Let_def x_def [symmetric])
qed (use inv in \<open>simp add: received_stop_sending_def\<close>)

lemma received_max_stream_data_ok:
  assumes inv: "streams_inv s F" and off: "off < 2 ^ 62"
  shows "\<exists>res s'. received_max_stream_data i off s = Some (res, s') \<and> streams_inv s' F"
proof -
  obtain limit where limit: "write_limit s = Some limit"
    using write_limit_ok [OF inv] by blast
  show ?thesis
  proof (cases "StreamId_initiator i \<noteq> st_side s \<and> StreamId_dir i = Uni \<or> st_send s i = None")
    case True
    then show ?thesis
      using inv limit by (auto simp: received_max_stream_data_def)
  next
    case False
    then obtain slot where Some: "st_send s i = Some slot"
      by auto
    define x where "x = send_of s i"
    note x = send_of_ok [OF inv, of i, folded x_def]
    obtain b y where inc: "Send_increase_max_data off x = (b, y)"
      by fastforce
    from inc have y: "s_pending y = s_pending x" "s_max_data x \<le> s_max_data y" "s_state y = s_state x" "s_fin_pending y = s_fin_pending x"
      "s_connection_blocked y = s_connection_blocked x" "s_max_data x < 2 ^ 62 \<Longrightarrow> s_max_data y < 2 ^ 62"
      using off by (auto simp: Send_increase_max_data_def split: if_splits)
    have "s_max_data x < 2 ^ 62"
      using x(1) Some by (simp add: stream_ok_def)
    then have "stream_ok y (flights F i)" "unacked_of y = unacked_of x"
      using stream_ok_cong [of x "flights F i" y] x(1) Some y by (auto simp: unacked_of_def Send_is_reset_def)
    then have s1: "streams_inv (put_send i y s) F"
      using Some x y by (intro put_send_ok [OF inv]) (simp_all add: Send_is_pending_def Send_is_reset_def)
    then show ?thesis
      using False Some limit inc send_of_eq [OF Some] block_stream_ok [OF s1, of i y]
      by (auto simp: received_max_stream_data_def Let_def x_def [symmetric] s1)
  qed
qed

section \<open>Acknowledgement and loss\<close>

lemma length_filter_mset: "mset xs = mset ys \<Longrightarrow> length (filter P xs) = length (filter P ys)"
  by (metis mset_filter size_mset)

lemma stream_ok_mset: "mset R = mset R' \<Longrightarrow> stream_ok x R = stream_ok x R'"
  using length_filter_mset [of R R'] mset_eq_setD [of R R'] by (simp add: stream_ok_def holders_def)

lemma flights_remove1:
  assumes "m \<in> set F"
  shows "mset (flights (remove1 m F) (sm_id m)) = mset (remove1 (sm_offsets m) (flights F (sm_id m)))"
    and "sm_offsets m \<in> set (flights F (sm_id m))" and "j \<noteq> sm_id m \<Longrightarrow> flights (remove1 m F) j = flights F j"
proof -
  have "filter P (remove1 m F) = remove1 m (filter P F)" if "P m" for P
    using that by (induction F) auto
  then have "flights (remove1 m F) (sm_id m) = map sm_offsets (remove1 m (filter (\<lambda>k. sm_id k = sm_id m) F))"
    by (simp add: flights_def)
  then show "mset (flights (remove1 m F) (sm_id m)) = mset (remove1 (sm_offsets m) (flights F (sm_id m)))"
    using assms by (simp add: flights_def image_mset_Diff)
  show "sm_offsets m \<in> set (flights F (sm_id m))"
    using assms by (force simp: flights_def)
  show "flights (remove1 m F) j = flights F j" if "j \<noteq> sm_id m"
  proof -
    have "filter (\<lambda>k. sm_id k = j) (remove1 m F) = filter (\<lambda>k. sm_id k = j) F"
      using that by (induction F) auto
    then show ?thesis
      by (simp add: flights_def)
  qed
qed

lemma stream_ok_forget:
  assumes ok: "stream_ok x R" and "Send_is_reset x"
  shows "stream_ok x (remove1 r R)"
proof -
  have "length (filter P (remove1 r R)) \<le> length (filter P R)" for P
    by (induction R) auto
  then have "holders (s_pending x) (remove1 r R) n \<le> holders (s_pending x) R n" for n
    by (simp add: holders_def)
  moreover have "holders (s_pending x) R n \<le> of_bool (n < sb_unsent (s_pending x))" for n
    using ok by (simp add: stream_ok_def)
  ultimately have "holders (s_pending x) (remove1 r R) n \<le> of_bool (n < sb_unsent (s_pending x))" for n
    using order_trans by blast
  then show ?thesis
    using assms by (simp add: stream_ok_def) (auto dest: notin_set_remove1)
qed

lemma forget_flight_ok:
  assumes inv: "streams_inv s F" and m: "m \<in> set F" and dead: "\<And>x. st_send s (sm_id m) = Some (Some x) \<Longrightarrow> Send_is_reset x"
  shows "streams_inv s (remove1 m F)"
proof -
  have "stream_ok x (flights (remove1 m F) j)" if j: "st_send s j = Some (Some x)" for j x
  proof (cases "j = sm_id m")
    case True
    have "stream_ok x (flights F j)"
      using inv j by (simp add: streams_inv_def send_ok_def)
    then show ?thesis
      using True stream_ok_mset [OF flights_remove1(1) [OF m]] stream_ok_forget dead j by simp
  next
    case False
    then show ?thesis
      using inv j flights_remove1(3) [OF m] by (simp add: streams_inv_def send_ok_def)
  qed
  then show ?thesis
    using inv by (auto simp: streams_inv_def send_ok_def dest: notin_set_remove1)
qed

lemma received_ack_of_ok:
  assumes inv: "streams_inv s F" and m: "m \<in> set F"
  shows "\<exists>s'. received_ack_of m s = Some s' \<and> streams_inv s' (remove1 m F)"
proof (cases "\<exists>x. st_send s (sm_id m) = Some (Some x) \<and> \<not> Send_is_reset x")
  case False
  then have "streams_inv s (remove1 m F)"
    using forget_flight_ok [OF inv m] by blast
  then show ?thesis
    using False by (auto simp: received_ack_of_def Let_def split: option.splits)
next
  case True
  let ?i = "sm_id m" and ?F = "remove1 m F" and ?len = "snd (sm_offsets m) - fst (sm_offsets m)"
  obtain x where x: "st_send s ?i = Some (Some x)" "\<not> Send_is_reset x"
    using True by blast
  note ok = send_of_ok [OF inv, of ?i, unfolded send_of_Some [OF x(1)] x(1), simplified]
  note r = flights_remove1 [OF m]
  obtain closed y where y: "Send_ack m x = Some (closed, y)" "stream_ok y (remove1 (sm_offsets m) (flights F ?i))"
    "unacked_of x = unacked_of y + ?len" "s_connection_blocked y = s_connection_blocked x" "\<not> Send_is_reset y"
    "s_state y = Ready \<longleftrightarrow> s_state x = Ready" "closed \<Longrightarrow> s_state x \<noteq> Ready" "Send_is_pending y \<Longrightarrow> Send_is_pending x"
    using stream_ok_ack [OF ok(1) r(2) x(2)] by blast
  have le: "fst (sm_offsets m) \<le> snd (sm_offsets m)" "unacked_of x \<le> st_unacked_data s"
    using stream_ok_ranges [OF ok(1) r(2)] slot_unacked_le [OF finite_sends [OF inv], of ?i] ok(3) x(1) inv
    by (auto simp: streams_inv_def send_ok_def)
  define s1 where "s1 = (put_send ?i y s)\<lparr>st_unacked_data := st_unacked_data s - ?len\<rparr>"
  have "streams_inv ((put_send ?i y s)\<lparr>st_data_sent := st_data_sent s, st_unacked_data := st_unacked_data s - ?len,
      st_pending := st_pending s, st_connection_blocked := st_connection_blocked s\<rparr>) ?F"
  proof (rule put_send_upd_ok [OF inv])
    show "stream_ok y (flights ?F ?i)"
      using y(2) stream_ok_mset [OF r(1)] by simp
    show "st_unacked_data s + unacked_of y \<le> st_unacked_data s - ?len + slot_unacked (st_send s ?i)"
      using le ok(3) y(3) by (simp add: x(1))
    show "\<And>k. k \<in> set ?F \<Longrightarrow> k \<in> set F \<or> sm_id k = ?i"
      by (meson notin_set_remove1)
  qed (use x(1) ok(2,4,5) y x(2) r(3) streams_inv_basic [OF inv] in \<open>auto\<close>)
  then have s1: "streams_inv s1 ?F"
    by (simp add: s1_def put_send_def)
  show ?thesis
  proof (cases closed)
    case False
    then show ?thesis
      using x y(1) le y(3) s1 by (simp add: received_ack_of_def Let_def s1_def)
  next
    case True
    then have "known s1 ?i"
      using ok(2) y(7) by (simp add: s1_def put_send_def)
    then obtain s2 where "stream_freed ?i SendHalf (s1\<lparr>st_send := (st_send s1)(?i := None)\<rparr>) = Some s2" "streams_inv s2 ?F"
      using free_send_ok [OF s1, of ?i] by (auto simp: s1_def)
    then show ?thesis
      using x y(1) le y(3) True by (simp add: received_ack_of_def Let_def s1_def)
  qed
qed

lemma retransmit_ok:
  assumes inv: "streams_inv s F" and m: "m \<in> set F" and rec: "0 < pq_recency (st_pending s)"
  shows "\<exists>s'. retransmit m s = Some s' \<and> streams_inv s' (remove1 m F)"
proof (cases "\<exists>x. st_send s (sm_id m) = Some (Some x)")
  case False
  then have "streams_inv s (remove1 m F)"
    using forget_flight_ok [OF inv m] by blast
  then show ?thesis
    using False by (auto simp: retransmit_def Let_def split: option.splits)
next
  case True
  let ?i = "sm_id m" and ?F = "remove1 m F"
  obtain x where x: "st_send s ?i = Some (Some x)"
    using True by blast
  note ok = send_of_ok [OF inv, of ?i, unfolded send_of_Some [OF x(1)] x(1), simplified]
  note r = flights_remove1 [OF m]
  from stream_ok_lose [OF ok(1) r(2)] obtain b where b: "sb_retransmit (sm_offsets m) (s_pending x) = Some b"
    and y: "\<And>f. stream_ok (x\<lparr>s_fin_pending := f, s_pending := b\<rparr>) (remove1 (sm_offsets m) (flights F ?i))"
      "\<And>f. unacked_of (x\<lparr>s_fin_pending := f, s_pending := b\<rparr>) = unacked_of x"
    by blast
  let ?y = "x\<lparr>s_fin_pending := s_fin_pending x \<or> sm_fin m, s_pending := b\<rparr>"
  obtain q where q: "(if \<not> Send_is_pending x then push_pending ?i (s_priority x) (st_pending s) else Some (st_pending s)) = Some q"
    "pq_inv q" "queued_ids (st_pending s) \<subseteq> queued_ids q" "\<not> Send_is_reset x \<Longrightarrow> ?i \<in> queued_ids q"
    using push_pending_ids [of "st_pending s" ?i "s_priority x"] ok(4) rec streams_inv_basic [OF inv]
    by (cases "Send_is_pending x") auto
  have "streams_inv ((put_send ?i ?y s)\<lparr>st_data_sent := st_data_sent s, st_unacked_data := st_unacked_data s,
      st_pending := q, st_connection_blocked := st_connection_blocked s\<rparr>) ?F"
  proof (rule put_send_upd_ok [OF inv])
    show "stream_ok ?y (flights ?F ?i)"
      using y(1) stream_ok_mset [OF r(1)] by simp
    show "\<And>k. k \<in> set ?F \<Longrightarrow> k \<in> set F \<or> sm_id k = ?i"
      by (meson notin_set_remove1)
    show "\<not> Send_is_reset ?y \<Longrightarrow> ?i \<in> queued_ids q"
      using q(4) by (simp add: Send_is_reset_def)
  qed (use x ok q y r(3) streams_inv_basic [OF inv] in \<open>auto\<close>)
  then have "streams_inv (put_send ?i ?y (s\<lparr>st_pending := q\<rparr>)) ?F"
    unfolding put_send_pending by (simp add: put_send_def)
  then show ?thesis
    using x b q(1) by (simp add: retransmit_def Let_def)
qed

lemma reset_acked_ok:
  assumes inv: "streams_inv s F"
  shows "\<exists>s'. reset_acked i s = Some s' \<and> streams_inv s' F"
proof (cases "\<exists>x. st_send s i = Some (Some x) \<and> s_state x = ResetSent")
  case True
  then obtain x where x: "st_send s i = Some (Some x)" "s_state x = ResetSent"
    by blast
  then have "known s i"
    using send_of_ok(2) [OF inv, of i] send_of_Some [OF x(1)] by simp
  then show ?thesis
    using free_send_ok [OF inv, of i] x by (auto simp: reset_acked_def)
next
  case False
  then show ?thesis
    using inv by (auto simp: reset_acked_def split: option.splits)
qed

section \<open>Limits and events\<close>

lemma simple_ops_ok:
  assumes inv: "streams_inv s F"
  shows "streams_inv (received_max_data n s) F" and "streams_inv (snd (received_max_streams dir n s)) F"
    and "streams_inv (set_send_window n s) F"
proof -
  show "streams_inv (received_max_data n s) F"
    using inv by (simp add: streams_inv_def received_max_data_def) (auto simp: send_ok_def)
  show "streams_inv (snd (received_max_streams dir n s)) F"
    using inv by (simp add: received_max_streams_def)
  show "streams_inv (set_send_window n s) F"
    using inv by (simp add: set_send_window_def)
qed

lemma set_receive_window_ok:
  assumes inv: "streams_inv s F"
  shows "streams_inv (snd (set_receive_window n s)) F"
proof -
  have "streams_inv (s\<lparr>st_local_max_data := sat_add (st_local_max_data s) k\<rparr>) F" for k
    using inv by (simp add: streams_inv_def) (auto simp: recv_ok_def sat_add_def)
  then show ?thesis
    using inv by (simp add: set_receive_window_def)
qed

end
