(* ===== verification/Streams_Limits.thy ===== *)
theory Streams_Limits
  imports Streams_Send
begin

text \<open>
  Opening and accepting streams, the stream limits, the transport parameters, and the events: every
  operation keeps the invariant of the streams.
\<close>

section \<open>Limits\<close>

lemma set_max_concurrent_ok:
  assumes inv: "streams_inv s F"
  shows "\<exists>s'. set_max_concurrent dir n s = Some s' \<and> streams_inv s' F"
proof -
  define t where "t = s\<lparr>st_flow_control_adjusted := True,
    st_max_concurrent_remote_count := (st_max_concurrent_remote_count s)(dir := n)\<rparr>"
  have t: "streams_inv t F"
    using inv by (simp add: t_def)
  then have tabs: "tables_range t" "\<And>d. card (remote_ids t d) \<le> st_allocated_remote_count t d" "card (known_sends t) \<le> st_send_streams t"
    by (auto simp: streams_inv_def tables_ok_def)
  from ensure_remote_streams_ok [OF tabs(1,2), of dir] obtain s' where s': "ensure_remote_streams dir t = Some s'"
    "streams_ext t s'" "tables_range s'" "\<forall>d. card (remote_ids s' d) \<le> st_allocated_remote_count s' d"
    "known_sends s' = known_sends t"
    by auto
  have "tables_ok s'"
    using s' tabs(3) streams_ext_fields(10) [OF s'(2)] by (simp add: tables_ok_def)
  moreover have "recv_ok s'" "queue_ok s'" "blocked_ok s'" "send_ok s' F"
    using t streams_ext_inv [OF s'(2)] finite_range(1) [OF tabs(1)] finite_range(1) [OF s'(3)] by (auto simp: streams_inv_def)
  ultimately show ?thesis
    using s'(1) by (simp add: set_max_concurrent_def t_def streams_inv_def)
qed

section \<open>Opening and accepting\<close>

lemma streams_open_ok:
  assumes inv: "streams_inv s F"
  shows "\<exists>res s'. streams_open closed dir s = Some (res, s') \<and> streams_inv s' F"
proof (cases "closed \<or> st_max s dir \<le> st_next s dir")
  case True
  then show ?thesis
    using inv by (auto simp: streams_open_def)
next
  case False
  define i where "i = StreamId_new (st_side s) dir (st_next s dir)"
  have i: "StreamId_initiator i = st_side s" "StreamId_dir i = dir" "StreamId_index i = st_next s dir" "\<not> allocated s i"
    by (simp_all add: i_def allocated_def)
  have none: "st_send s i = None" "st_recv s i = None"
    using inv i(4) by (auto simp: streams_inv_def tables_ok_def tables_range_def)
  define recv free where "recv = (case st_free_recv s of [] \<Rightarrow> None | r # rs \<Rightarrow> Some r)" and "free = tl (st_free_recv s)"
  define t where "t = s\<lparr>st_next := (st_next s)(dir := st_next s dir + 1), st_send := (st_send s)(i \<mapsto> None),
    st_free_recv := (if dir = Bi then free else st_free_recv s),
    st_recv := (if dir = Bi then (st_recv s)(i \<mapsto> recv) else st_recv s), st_send_streams := st_send_streams s + 1\<rparr>"
  have op: "streams_open closed dir s = Some (Some i, t)"
    using False none by (cases dir; cases "st_free_recv s")
      (simp_all add: streams_open_def streams_insert_def t_def Let_def i_def recv_def free_def)
  have alloc: "allocated t j \<longleftrightarrow> allocated s j \<or> j = i" for j
  proof -
    have "j = i" if "StreamId_initiator j = st_side s" "StreamId_dir j = dir" "StreamId_index j = st_next s dir"
      using that StreamId_parts_new [of j] by (simp add: i_def)
    then show ?thesis
      using i by (auto simp: allocated_def t_def less_Suc_eq)
  qed
  have known: "known t j = known s j" for j
    by (simp add: known_def t_def)
  have sub: "known_sends t \<subseteq> insert i (known_sends s)"
    using i by (auto simp: known_sends_def known alloc) (auto simp: t_def split: if_splits)
  have "card (known_sends t) \<le> card (known_sends s) + 1"
    using card_mono [OF _ sub] card_insert_le_m1 [of "card (known_sends s) + 1" "known_sends s" i] finite_known_sends [of s]
    by (simp add: card_insert_if split: if_splits)
  moreover have "remote_ids t d = remote_ids s d" for d
    using i by (auto simp: remote_ids_def t_def)
  moreover have "tables_range t"
    using inv i alloc by (auto simp: streams_inv_def tables_ok_def tables_range_def) (auto simp: t_def split: if_splits)
  ultimately have "tables_ok t"
    using inv by (simp add: streams_inv_def tables_ok_def) (auto simp: t_def)
  moreover have "recv_ok t"
  proof -
    have "recv = None \<or> recv = Some (Free (Recv_new (st_stream_receive_window s)))" "set free \<subseteq> set (st_free_recv s)"
      using inv by (cases "st_free_recv s"; auto simp: streams_inv_def recv_ok_def recv_def free_def)+
    then show ?thesis
      using inv by (auto simp: streams_inv_def recv_ok_def t_def split: if_splits)
  qed
  moreover have "total_unacked (st_send t) = total_unacked (st_send s)"
    using total_unacked_upd [OF finite_sends [OF inv], of i "Some None"] none by (simp add: t_def slot_unacked_def)
  then have "send_ok t F"
    using inv i alloc known by (auto simp: streams_inv_def send_ok_def) (auto simp: t_def split: if_splits)
  moreover have "queue_ok t"
    using inv by (auto simp: streams_inv_def queue_ok_def t_def split: if_splits)
  moreover have "blocked_ok t"
    using inv i alloc by (auto simp: streams_inv_def blocked_ok_def) (auto simp: t_def split: if_splits)
  ultimately show ?thesis
    using op by (simp add: streams_inv_def)
qed

lemma streams_accept_ok:
  assumes inv: "streams_inv s F"
  shows "streams_inv (snd (streams_accept dir s)) F"
proof (cases "st_next_remote s dir = st_next_reported_remote s dir")
  case True
  then show ?thesis
    using inv by (simp add: streams_accept_def)
next
  case False
  define n where "n = st_next_reported_remote s dir"
  define t where "t = s\<lparr>st_next_reported_remote := (st_next_reported_remote s)(dir := n + 1),
    st_send_streams := st_send_streams s + of_bool (dir = Bi)\<rparr>"
  define i where "i = StreamId_new (Side_not (st_side s)) dir n"
  have t: "snd (streams_accept dir s) = t"
    using False by (simp add: streams_accept_def t_def Let_def n_def)
  have alloc: "allocated t j = allocated s j" for j
    by (simp add: allocated_def t_def)
  have known: "known t j \<longleftrightarrow> known s j \<or> j = i" for j
  proof -
    have "j = i" if "StreamId_initiator j \<noteq> st_side s" "StreamId_dir j = dir" "StreamId_index j = n"
      using that StreamId_parts_new [of j] other_side [OF that(1)] by (simp add: i_def)
    moreover have "known t i"
      by (simp add: known_def t_def i_def)
    ultimately show ?thesis
      by (cases "j = i") (auto simp: known_def t_def less_Suc_eq n_def)
  qed
  have tabs: "tables_range s" "card (known_sends s) \<le> st_send_streams s"
    using inv by (simp_all add: streams_inv_def tables_ok_def)
  have sub: "known_sends t \<subseteq> (if dir = Bi then insert i (known_sends s) else known_sends s)"
  proof
    fix j
    assume j: "j \<in> known_sends t"
    have "j = i \<Longrightarrow> dir \<noteq> Bi \<Longrightarrow> False"
      using j tabs(1) by (auto simp: known_sends_def tables_range_def alloc i_def t_def split: if_splits)
    then show "j \<in> (if dir = Bi then insert i (known_sends s) else known_sends s)"
      using j by (auto simp: known_sends_def known alloc) (auto simp: t_def)
  qed
  have "card (known_sends t) \<le> card (known_sends s) + of_bool (dir = Bi)"
    using card_mono [OF _ sub] finite_known_sends [of s] by (auto simp: card_insert_if split: if_splits)
  moreover have "remote_ids t d = remote_ids s d" for d
    by (auto simp: remote_ids_def t_def)
  ultimately have "tables_ok t"
    using inv by (auto simp: streams_inv_def tables_ok_def tables_range_def alloc) (auto simp: t_def)
  moreover have "send_ok t F"
    using inv by (auto simp: streams_inv_def send_ok_def alloc known) (auto simp: t_def)
  moreover have "recv_ok t" "queue_ok t" "blocked_ok t"
    using inv by (simp_all add: streams_inv_def recv_ok_def queue_ok_def blocked_ok_def alloc) (simp_all add: t_def)
  ultimately show ?thesis
    using t by (simp add: streams_inv_def)
qed

section \<open>Events\<close>

lemma upd_blocked_send:
  "s\<lparr>st_send := f, st_connection_blocked := B\<rparr> = s\<lparr>st_connection_blocked := B, st_send := f\<rparr>"
  by simp

lemma poll_blocked_ok:
  assumes "streams_inv (s\<lparr>st_connection_blocked := B, st_send := send\<rparr>) F"
  shows "\<exists>e B' send'. poll_blocked B send = Some (e, B', send') \<and> streams_inv (s\<lparr>st_connection_blocked := B', st_send := send'\<rparr>) F"
  using assms
proof (induction B arbitrary: send)
  case (Cons i B)
  define t where "t = s\<lparr>st_connection_blocked := i # B, st_send := send\<rparr>"
  have inv: "streams_inv t F"
    using Cons.prems by (simp add: t_def)
  have i: "i \<notin> set B" "send i \<noteq> Some None" "\<And>x. send i = Some (Some x) \<Longrightarrow> s_connection_blocked x"
    using inv by (auto simp: streams_inv_def blocked_ok_def t_def)
  show ?case
  proof (cases "send i")
    case None
    have "blocked_ok (t\<lparr>st_connection_blocked := B\<rparr>)"
      using inv by (auto simp: streams_inv_def blocked_ok_def t_def)
    then have "streams_inv (t\<lparr>st_connection_blocked := B\<rparr>) F"
      using inv by (simp add: streams_inv_def)
    then show ?thesis
      using Cons.IH [of send] None by (simp add: t_def upd_blocked_send)
  next
    case (Some slot)
    then obtain x where x: "send i = Some (Some x)"
      using i(2) by (cases slot) auto
    define y where "y = x\<lparr>s_connection_blocked := False\<rparr>"
    have tx: "st_send t i = Some (Some x)"
      using x by (simp add: t_def)
    note ok = send_of_ok [OF inv, of i, unfolded send_of_Some [OF tx] tx, simplified]
    have y: "stream_ok y (flights F i)" "unacked_of y = unacked_of x" "Send_is_pending y = Send_is_pending x"
      "Send_is_reset y = Send_is_reset x" "s_state y = s_state x"
      using stream_ok_same_buffer [of x "flights F i" y] ok(1)
      by (simp_all add: y_def unacked_of_def Send_is_reset_def Send_is_pending_def)
    have "streams_inv ((put_send i y t)\<lparr>st_data_sent := st_data_sent t, st_unacked_data := st_unacked_data t,
        st_pending := st_pending t, st_connection_blocked := B\<rparr>) F"
    proof (rule put_send_upd_ok [OF inv _ y(1)])
      show "distinct B" "set B \<subseteq> insert i (set (st_connection_blocked t))" "i \<in> set B \<Longrightarrow> s_connection_blocked y"
        using streams_inv_basic(1) [OF inv] i(1) by (auto simp: t_def)
    qed (use tx ok y streams_inv_basic [OF inv] in auto)
    moreover define send2 where "send2 = send(i \<mapsto> Some y)"
    ultimately have rest: "streams_inv (s\<lparr>st_connection_blocked := B, st_send := send2\<rparr>) F"
      by (simp add: put_send_def t_def upd_blocked_send)
    then show ?thesis
      using Cons.IH [OF rest] x i(3) by (simp add: y_def [symmetric] send2_def [symmetric] Let_def)
  qed
qed simp

lemma streams_poll_ok:
  assumes inv: "streams_inv s F"
  shows "\<exists>e s'. streams_poll s = Some (e, s') \<and> streams_inv s' F"
proof (cases "List.find (st_opened s) Dir_iter")
  case (Some dir)
  then show ?thesis
    using inv by (simp add: streams_poll_def)
next
  case None
  obtain limit where limit: "write_limit s = Some limit"
    using write_limit_ok [OF inv] by blast
  have "\<exists>e s'. (if limit > 0 then do {
              (event, blocked, send) \<leftarrow> poll_blocked (st_connection_blocked s) (st_send s);
              Some (event, s\<lparr>st_connection_blocked := blocked, st_send := send\<rparr>) }
            else Some (None, s)) = Some (e, s') \<and> streams_inv s' F"
    using poll_blocked_ok [where s = s and B = "st_connection_blocked s" and send = "st_send s" and F = F] inv by auto
  then obtain e s' where "(if limit > 0 then do {
              (event, blocked, send) \<leftarrow> poll_blocked (st_connection_blocked s) (st_send s);
              Some (event, s\<lparr>st_connection_blocked := blocked, st_send := send\<rparr>) }
            else Some (None, s)) = Some (e, s')" "streams_inv s' F"
    by blast
  then show ?thesis
    using None limit by (cases e; cases "st_events s'") (simp_all add: streams_poll_def)
qed

section \<open>The initial state\<close>

lemma StreamsState_new_ok:
  assumes "receive_window \<le> u64_max"
  shows "\<exists>s. StreamsState_new side max_uni max_bi send_window receive_window stream_window = Some s \<and> streams_inv s []"
proof -
  define remote where "remote = (\<lambda>d. case d of Bi \<Rightarrow> max_bi | Uni \<Rightarrow> max_uni)"
  obtain s0 :: StreamsState where new: "StreamsState_new side max_uni max_bi send_window receive_window stream_window =
      for_each (\<lambda>dir s. for_each (insert_remote dir) [0..<st_max_remote s dir] s) Dir_iter s0"
    and s0: "st_side s0 = side" "st_send s0 = Map.empty" "st_recv s0 = Map.empty" "st_free_recv s0 = []" "st_next s0 = (\<lambda>_. 0)"
      "st_max_remote s0 = remote" "st_sent_max_remote s0 = remote" "st_allocated_remote_count s0 = remote"
      "st_next_reported_remote s0 = (\<lambda>_. 0)" "st_pending s0 = pq_new" "st_connection_blocked s0 = []" "st_max_data s0 = 0"
      "st_data_sent s0 = 0" "st_data_recvd s0 = 0" "st_local_max_data s0 = receive_window" "st_sent_max_data s0 = receive_window"
      "st_initial_max_stream_data_uni s0 = 0" "st_initial_max_stream_data_bidi_local s0 = 0"
      "st_initial_max_stream_data_bidi_remote s0 = 0"
    by (rule that, unfold StreamsState_new_def Let_def, rule refl) (simp_all add: remote_def)
  obtain send1 recv1 free1 where
    l1: "for_each (insert_remote Bi) [0..<0 + max_bi] s0 = Some (s0\<lparr>st_send := send1, st_recv := recv1, st_free_recv := free1\<rparr>)"
    and f1: "set free1 \<subseteq> set (st_free_recv s0)"
    and s1: "\<And>i. send1 i = (if fresh_remote s0 Bi 0 max_bi i \<and> Bi = Bi then Some None else st_send s0 i)"
    and r1: "\<And>i. if fresh_remote s0 Bi 0 max_bi i then recv1 i = Some None \<or> (\<exists>f \<in> set (st_free_recv s0). recv1 i = Some (Some f))
          else recv1 i = st_recv s0 i"
    using insert_remote_loop [of s0 Bi 0 max_bi] s0 by auto
  define t where "t = s0\<lparr>st_send := send1, st_recv := recv1, st_free_recv := free1\<rparr>"
  have fresh: "fresh_remote t d a n i = fresh_remote s0 d a n i" for d a n i
    by (simp add: fresh_remote_def t_def)
  have t: "st_send t i = None" "st_recv t i = None" if "StreamId_dir i = Uni" for i
    using s1 [of i] r1 [of i] that s0 by (auto simp: t_def fresh_remote_def)
  obtain send recv free where
    l2: "for_each (insert_remote Uni) [0..<0 + max_uni] t = Some (t\<lparr>st_send := send, st_recv := recv, st_free_recv := free\<rparr>)"
    and f2: "set free \<subseteq> set (st_free_recv t)"
    and s2: "\<And>i. send i = (if fresh_remote t Uni 0 max_uni i \<and> Uni = Bi then Some None else st_send t i)"
    and r2: "\<And>i. if fresh_remote t Uni 0 max_uni i then recv i = Some None \<or> (\<exists>f \<in> set (st_free_recv t). recv i = Some (Some f))
          else recv i = st_recv t i"
    using insert_remote_loop [of t Uni 0 max_uni] t by auto
  define s where "s = s0\<lparr>st_send := send, st_recv := recv, st_free_recv := []\<rparr>"
  have nil: "free = []" "free1 = []"
    using f1 f2 s0(4) by (auto simp: t_def)
  have send: "send i = (if fresh_remote s0 Bi 0 max_bi i then Some None else None)" for i
    using s1 [of i] s2 [of i] s0 by (simp add: t_def)
  have recv: "recv i = (if fresh_remote s0 (StreamId_dir i) 0 (remote (StreamId_dir i)) i then Some None else None)" for i
    using r1 [of i] r2 [of i] s0 nil fresh
    by (cases "StreamId_dir i") (auto simp: t_def remote_def fresh_remote_def split: if_splits)
  have "StreamsState_new side max_uni max_bi send_window receive_window stream_window = Some s"
    using new l1 l2 s0 nil by (simp add: Dir_iter_def t_def remote_def s_def)
  moreover have "tables_range s"
    using s0 by (auto simp: tables_range_def allocated_def s_def send recv fresh_remote_def remote_def split: if_splits Dir.splits)
  moreover have "card (remote_ids s d) \<le> st_allocated_remote_count s d" for d
  proof -
    have "remote_ids s d \<subseteq> StreamId_new (Side_not (st_side s0)) d ` {0..<0 + remote d}"
    proof
      fix i
      assume "i \<in> remote_ids s d"
      then have "fresh_remote s0 d 0 (remote d) i"
        by (auto simp: remote_ids_def s_def send recv remote_def fresh_remote_def split: if_splits)
      then show "i \<in> StreamId_new (Side_not (st_side s0)) d ` {0..<0 + remote d}"
        by (rule fresh_remote_image)
    qed
    then have "card (remote_ids s d) \<le> card {0..<remote d}"
      using surj_card_le [of "{0..<remote d}"] by simp
    then show ?thesis
      using s0 by (simp add: s_def)
  qed
  moreover have "known_sends s = {}"
    using s0 by (auto simp: known_sends_def known_def allocated_def s_def)
  moreover have "recv_ok s" "queue_ok s" "blocked_ok s"
    using s0 assms pq_inv_new by (auto simp: recv_ok_def queue_ok_def blocked_ok_def s_def send recv split: if_splits)
  moreover have "total_unacked (st_send s) = 0"
    by (simp add: total_unacked_def s_def send slot_unacked_def sum.neutral)
  then have "send_ok s []"
    using s0 by (auto simp: send_ok_def s_def send split: if_splits)
  ultimately show ?thesis
    by (auto simp: streams_inv_def tables_ok_def)
qed

section \<open>Transport parameters\<close>

definition param :: "TransportParameters \<Rightarrow> IntParam \<Rightarrow> nat" where
  "param params i = unat (into_inner (tp_int params i))"

text \<open>
  The parameters do not take back credit that has been used: they are set before anything is
  written on a stream of the peer.
\<close>

definition params_fit :: "TransportParameters \<Rightarrow> StreamsState \<Rightarrow> bool" where
  "params_fit params s \<longleftrightarrow> (\<forall>i. param params i < 2 ^ 62) \<and>
     (\<forall>i x. st_send s i = Some (Some x) \<longrightarrow> StreamId_initiator i \<noteq> st_side s \<longrightarrow> Send_offset x \<le> param params InitialMaxStreamDataBidiLocal)"

lemma set_params_stream_ok:
  assumes inv: "streams_inv s F" and n: "n < 2 ^ 62"
    and fit: "\<And>i x. st_send s i = Some (Some x) \<Longrightarrow> StreamId_initiator i \<noteq> st_side s \<Longrightarrow> Send_offset x \<le> n"
  shows "streams_inv (set_params_stream n k s) F \<and> st_side (set_params_stream n k s) = st_side s \<and>
    (\<forall>i x. st_send (set_params_stream n k s) i = Some (Some x) \<longrightarrow> StreamId_initiator i \<noteq> st_side s \<longrightarrow> Send_offset x \<le> n)"
proof -
  define i where "i = StreamId_new (Side_not (st_side s)) Bi k"
  have remote: "StreamId_initiator i \<noteq> st_side s"
    by (simp add: i_def)
  show ?thesis
  proof (cases "\<exists>x. st_send s i = Some (Some x)")
    case True
    then obtain x where x: "st_send s i = Some (Some x)"
      by blast
    define y where "y = x\<lparr>s_max_data := n\<rparr>"
    note ok = send_of_ok [OF inv, of i, unfolded send_of_Some [OF x] x, simplified]
    have off: "Send_offset x \<le> n"
      using fit [OF x remote] .
    have y: "s_pending y = s_pending x" "s_state y = s_state x" "s_connection_blocked y = s_connection_blocked x"
      "s_fin_pending y = s_fin_pending x" "s_max_data y = n"
      by (simp_all add: y_def)
    have "stream_ok y (flights F i)"
      using ok(1) off n Send_offset_inv by (auto simp: stream_ok_def Send_inv_def y Send_is_reset_def)
    moreover have "unacked_of y = unacked_of x" "Send_is_pending y = Send_is_pending x" "Send_is_reset y = Send_is_reset x"
      "Send_offset y = Send_offset x"
      by (simp_all add: unacked_of_def Send_is_pending_def Send_is_reset_def Send_offset_def y)
    ultimately have "streams_inv (put_send i y s) F" "Send_offset y \<le> n"
      using x ok y off put_send_ok [OF inv, of i y] by auto
    moreover have "set_params_stream n k s = put_send i y s"
      using x by (simp add: set_params_stream_def i_def y_def Let_def)
    ultimately show ?thesis
      using fit by (auto simp: put_send_def)
  next
    case False
    then have "set_params_stream n k s = s"
      by (auto simp: set_params_stream_def Let_def i_def split: option.splits)
    then show ?thesis
      using inv fit by simp
  qed
qed

lemma set_params_streams_ok:
  assumes "streams_inv s F" and "n < 2 ^ 62"
    and "\<And>i x. st_send s i = Some (Some x) \<Longrightarrow> StreamId_initiator i \<noteq> st_side s \<Longrightarrow> Send_offset x \<le> n"
  shows "streams_inv (fold (set_params_stream n) ks s) F"
  using assms
proof (induction ks arbitrary: s)
  case (Cons k ks)
  show ?case
    using Cons.IH [of "set_params_stream n k s"] set_params_stream_ok [OF Cons.prems, where k = k] Cons.prems(2) by auto
qed simp

lemma set_params_ok:
  assumes inv: "streams_inv s F" and fit: "params_fit params s"
  shows "streams_inv (set_params params s) F"
proof -
  let ?v = "\<lambda>i. unat (into_inner (tp_int params i))"
  define t where "t = received_max_data (?v InitialMaxData) (s\<lparr>st_initial_max_stream_data_uni := ?v InitialMaxStreamDataUni,
      st_initial_max_stream_data_bidi_local := ?v InitialMaxStreamDataBidiLocal,
      st_initial_max_stream_data_bidi_remote := ?v InitialMaxStreamDataBidiRemote,
      st_max := (st_max s)(Bi := ?v InitialMaxStreamsBidi, Uni := ?v InitialMaxStreamsUni)\<rparr>)"
  have v: "?v i < 2 ^ 62" for i
    using fit by (simp add: params_fit_def param_def)
  have ids: "allocated t = allocated s" "known t = known s"
    by (simp_all add: t_def received_max_data_def allocated_def known_def fun_eq_iff)
  have t: "st_side t = st_side s" "st_send t = st_send s" "st_recv t = st_recv s" "st_sent_max_remote t = st_sent_max_remote s"
      "st_max_remote t = st_max_remote s" "st_allocated_remote_count t = st_allocated_remote_count s" "st_send_streams t = st_send_streams s" "st_stream_receive_window t = st_stream_receive_window s"
      "st_free_recv t = st_free_recv s" "st_data_recvd t = st_data_recvd s" "st_local_max_data t = st_local_max_data s" "st_sent_max_data t = st_sent_max_data s"
      "st_unacked_data t = st_unacked_data s" "st_data_sent t = st_data_sent s" "st_pending t = st_pending s" "st_connection_blocked t = st_connection_blocked s"
     "st_max_data s \<le> st_max_data t" "st_initial_max_stream_data_uni t < 2 ^ 62" "st_initial_max_stream_data_bidi_local t < 2 ^ 62"
      "st_initial_max_stream_data_bidi_remote t < 2 ^ 62"
    using v by (simp_all add: t_def received_max_data_def)
  then have "remote_ids t = remote_ids s" "known_sends t = known_sends s"
    using ids by (simp_all add: remote_ids_def known_sends_def fun_eq_iff)
  then have "tables_ok t"
    using inv ids t by (simp add: streams_inv_def tables_ok_def tables_range_def)
  moreover have "recv_ok t" "queue_ok t" "blocked_ok t"
    using inv ids t by (simp_all add: streams_inv_def recv_ok_def queue_ok_def blocked_ok_def)
  moreover have "send_ok t F"
    using inv ids t by (simp add: streams_inv_def send_ok_def)
  ultimately have "streams_inv t F"
    by (simp add: streams_inv_def)
  then have "streams_inv (fold (set_params_stream (?v InitialMaxStreamDataBidiLocal)) [0..<st_max_remote t Bi] t) F"
    using fit v t(1,2) by (intro set_params_streams_ok) (auto simp: params_fit_def param_def)
  then show ?thesis
    unfolding set_params_def Let_def t_def .
qed

end
