(* ===== verification/Streams_Frames.thy ===== *)
theory Streams_Frames
  imports Streams_State Packet_Builder
begin

text \<open>
  Writing the frames of the streams into a packet (\<open>write_control_frames\<close> and
  \<open>write_stream_frames\<close> in \<open>noq-proto/src/connection/streams/state.rs\<close>).
\<close>

section \<open>Definitions\<close>

definition ResetStream_SIZE_BOUND :: nat where
  "ResetStream_SIZE_BOUND = 1 + 8 + 8 + 8"

definition StopSending_SIZE_BOUND :: nat where
  "StopSending_SIZE_BOUND = 1 + 8 + 8"

definition Stream_SIZE_BOUND :: nat where
  "Stream_SIZE_BOUND = 1 + 8 + 8 + 8"

text \<open>
  The loops of \<open>write_control_frames\<close>.  The vectors are popped from their end, so the loops run
  over the reversed lists; the set of streams with a window update is iterated in the order of its list.
\<close>

fun write_reset_frames :: "(StreamId \<times> VarInt) list \<Rightarrow> StreamsState \<Rightarrow> PacketBuilder \<Rightarrow>
    ((StreamId \<times> VarInt) list \<times> PacketBuilder) option" where
  "write_reset_frames [] s b = Some ([], b)"
| "write_reset_frames ((i, error_code) # rest) s b = do {
     space \<leftarrow> frame_space_remaining b;
     if space > ResetStream_SIZE_BOUND then
       (case st_send s i of
          Some (Some stream) \<Rightarrow>
            (case VarInt_from_u64 (of_nat (Send_offset stream)) of
               Inl _ \<Rightarrow> None
             | Inr final_offset \<Rightarrow> do {
                 b \<leftarrow> write_frame (EResetStream \<lparr>rs_id = i, rs_error_code = error_code, rs_final_offset = final_offset\<rparr>) b;
                 write_reset_frames rest s b })
        | _ \<Rightarrow> write_reset_frames rest s b)
     else Some ((i, error_code) # rest, b) }"

fun write_stop_frames :: "StopSending list \<Rightarrow> PacketBuilder \<Rightarrow> (StopSending list \<times> PacketBuilder) option" where
  "write_stop_frames [] b = Some ([], b)"
| "write_stop_frames (frame # rest) b = do {
     space \<leftarrow> frame_space_remaining b;
     if space > StopSending_SIZE_BOUND then do {
       b \<leftarrow> write_frame (EStopSending frame) b;
       write_stop_frames rest b }
     else Some (frame # rest, b) }"

fun write_max_stream_data_frames :: "StreamId list \<Rightarrow> StreamsState \<Rightarrow> PacketBuilder \<Rightarrow>
    (StreamId list \<times> StreamsState \<times> PacketBuilder) option" where
  "write_max_stream_data_frames [] s b = Some ([], s, b)"
| "write_max_stream_data_frames (i # rest) s b = do {
     space \<leftarrow> frame_space_remaining b;
     if space > 17 then
       (case st_recv s i of
          Some (Some (Open rs)) \<Rightarrow>
            if \<not> Recv_can_send_flow_control rs then write_max_stream_data_frames rest s b
            else do {
              (max, _) \<leftarrow> Recv_max_stream_data (st_stream_receive_window s) rs;
              let s = put_recv i (Recv_record_sent_max_stream_data max rs) s;
              b \<leftarrow> write_frame (EMaxStreamData i max) b;
              write_max_stream_data_frames rest s b }
        | _ \<Rightarrow> write_max_stream_data_frames rest s b)
     else Some (i # rest, s, b) }"

definition write_max_data_frame :: "Retransmits \<Rightarrow> StreamsState \<Rightarrow> PacketBuilder \<Rightarrow>
    (Retransmits \<times> StreamsState \<times> PacketBuilder) option" where
  "write_max_data_frame pending s b = do {
     space \<leftarrow> frame_space_remaining b;
     if rt_max_data pending \<and> space > 9 then do {
       let pending = pending\<lparr>rt_max_data := False\<rparr>;
       let max = (if st_local_max_data s < 2 ^ 62 then VarInt (of_nat (st_local_max_data s)) else VarInt_MAX);
       let s = (if unat (into_inner max) > st_sent_max_data s
                then s\<lparr>st_sent_max_data := unat (into_inner max)\<rparr> else s);
       b \<leftarrow> write_frame (EMaxData max) b;
       Some (pending, s, b) }
     else Some (pending, s, b) }"

fun write_max_streams_frames :: "Dir list \<Rightarrow> Retransmits \<Rightarrow> StreamsState \<Rightarrow> PacketBuilder \<Rightarrow>
    (Retransmits \<times> StreamsState \<times> PacketBuilder) option" where
  "write_max_streams_frames [] pending s b = Some (pending, s, b)"
| "write_max_streams_frames (dir # dirs) pending s b = do {
     space \<leftarrow> frame_space_remaining b;
     if \<not> rt_max_stream_id pending dir \<or> space \<le> 9 then write_max_streams_frames dirs pending s b
     else do {
       let pending = pending\<lparr>rt_max_stream_id := (rt_max_stream_id pending)(dir := False)\<rparr>;
       let s = s\<lparr>st_sent_max_remote := (st_sent_max_remote s)(dir := st_max_remote s dir)\<rparr>;
       b \<leftarrow> write_frame (EMaxStreams dir (st_max_remote s dir)) b;
       write_max_streams_frames dirs pending s b } }"

fun write_streams_blocked_frames :: "Dir list \<Rightarrow> Retransmits \<Rightarrow> StreamsState \<Rightarrow> PacketBuilder \<Rightarrow>
    (Retransmits \<times> StreamsState \<times> PacketBuilder) option" where
  "write_streams_blocked_frames [] pending s b = Some (pending, s, b)"
| "write_streams_blocked_frames (dir # dirs) pending s b = do {
     let (pending, s) =
       (if st_streams_blocked s dir
        then (pending\<lparr>rt_streams_blocked := (rt_streams_blocked pending)(dir := True)\<rparr>,
              s\<lparr>st_streams_blocked := (st_streams_blocked s)(dir := False)\<rparr>)
        else (pending, s));
     space \<leftarrow> frame_space_remaining b;
     if \<not> rt_streams_blocked pending dir \<or> space \<le> 9 then write_streams_blocked_frames dirs pending s b
     else do {
       let pending = pending\<lparr>rt_streams_blocked := (rt_streams_blocked pending)(dir := False)\<rparr>;
       b \<leftarrow> write_frame (EStreamsBlocked dir (st_max s dir)) b;
       write_streams_blocked_frames dirs pending s b } }"

definition write_control_frames :: "Retransmits \<Rightarrow> StreamsState \<Rightarrow> PacketBuilder \<Rightarrow>
    (Retransmits \<times> StreamsState \<times> PacketBuilder) option" where
  "write_control_frames pending s b = do {
     (resets, b) \<leftarrow> write_reset_frames (rev (rt_reset_stream pending)) s b;
     (stops, b) \<leftarrow> write_stop_frames (rev (rt_stop_sending pending)) b;
     let pending = pending\<lparr>rt_reset_stream := rev resets, rt_stop_sending := rev stops\<rparr>;
     (pending, s, b) \<leftarrow> write_max_data_frame pending s b;
     (updates, s, b) \<leftarrow> write_max_stream_data_frames (rt_max_stream_data pending) s b;
     let pending = pending\<lparr>rt_max_stream_data := updates\<rparr>;
     (pending, s, b) \<leftarrow> write_max_streams_frames Dir_iter pending s b;
     write_streams_blocked_frames Dir_iter pending s b }"

text \<open>
  One round of \<open>write_stream_frames\<close> for a stream that is not reset.  The data is copied into the
  transmit buffer itself, without a limit.
\<close>

definition write_stream_frame :: "bool \<Rightarrow> StreamId \<Rightarrow> Send \<Rightarrow> StreamsState \<Rightarrow> PacketBuilder \<Rightarrow>
    (StreamsState \<times> PacketBuilder) option" where
  "write_stream_frame fair i stream s b = do {
     space \<leftarrow> frame_space_remaining b;
     n \<leftarrow> csub space 1;
     k \<leftarrow> VarInt_size (VarInt (of_nat (sid i)));
     max_buf_size \<leftarrow> csub n k;
     ((offsets, encode_length), buf) \<leftarrow> sb_poll_transmit max_buf_size (s_pending stream);
     let stream = stream\<lparr>s_pending := buf\<rparr>;
     let fin = (snd offsets = sb_offset buf \<and> (case s_state stream of DataSent _ \<Rightarrow> True | _ \<Rightarrow> False));
     let stream = (if fin then stream\<lparr>s_fin_pending := False\<rparr> else stream);
     pending \<leftarrow> (if Send_is_pending stream then
                   if fair then push_pending i (s_priority stream) (st_pending s)
                   else reinsert_pending i (s_priority stream) (st_pending s)
                 else Some (st_pending s));
     let s = put_send i stream (s\<lparr>st_pending := pending\<rparr>);
     b \<leftarrow> write_frame (EStreamMeta \<lparr>sm_id = i, sm_offsets = offsets, sm_fin = fin\<rparr> encode_length) b;
     data \<leftarrow> sb_get_into offsets (s_pending stream);
     Some (s, b\<lparr>pb_buf := tb_put data (pb_buf b)\<rparr>) }"

text \<open>
  The loop.  A round drops an entry of the queue or writes at least two bytes, so the size of the
  queue and the room in the packet bound the number of rounds.
\<close>

fun write_stream_loop :: "nat \<Rightarrow> bool \<Rightarrow> StreamsState \<Rightarrow> PacketBuilder \<Rightarrow> (StreamsState \<times> PacketBuilder) option" where
  "write_stream_loop 0 fair s b = None"
| "write_stream_loop (Suc fuel) fair s b = do {
     space \<leftarrow> frame_space_remaining b;
     if space > Stream_SIZE_BOUND then
       (case pq_pop (st_pending s) of
          (None, _) \<Rightarrow> Some (s, b)
        | (Some p, pending) \<Rightarrow>
            let s = s\<lparr>st_pending := pending\<rparr>; i = ps_id p in
            (case st_send s i of
               Some (Some stream) \<Rightarrow>
                 if Send_is_reset stream then write_stream_loop fuel fair s b
                 else do {
                   (s, b) \<leftarrow> write_stream_frame fair i stream s b;
                   write_stream_loop fuel fair s b }
             | _ \<Rightarrow> write_stream_loop fuel fair s b))
     else Some (s, b) }"

definition write_stream_frames :: "bool \<Rightarrow> StreamsState \<Rightarrow> PacketBuilder \<Rightarrow> (StreamsState \<times> PacketBuilder) option" where
  "write_stream_frames fair s b = do {
     space \<leftarrow> frame_space_remaining b;
     write_stream_loop (Suc (space + length (pq_iter (st_pending s)))) fair s b }"

end
