(* ===== verification/Streams_Transmit.thy ===== *)
theory Streams_Transmit
  imports Streams_Limits Streams_Frames
begin

text \<open>
  Writing STREAM frames into a packet: the loop ends, no step panics, the packet is not exceeded,
  the frames carry the bytes that the application wrote, and they are recorded as in flight.
\<close>

section \<open>One frame\<close>

lemma write_varn_size:
  assumes "n < 2 ^ 62"
  shows "\<exists>bs. write_varn n = Some bs \<and> VarInt_size (VarInt (of_nat n)) = Some (length bs) \<and> length bs \<le> 8 \<and> 1 \<le> length bs"
proof -
  obtain bs where bs: "write_varn n = Some bs"
    using encp_varn [OF assms] by (auto simp: encp_def)
  then have "VarInt_encode (VarInt (of_nat n)) = Some bs"
    by (auto simp: write_varn_def write_var_def VarInt_from_u64_def split: if_splits sum.splits)
  from length_VarInt_encode [OF this] show ?thesis
    using bs VarInt_size_length [OF assms] by auto
qed

lemma StreamMeta_header:
  assumes ok: "StreamMeta_ok m d" and k: "VarInt_size (VarInt (of_nat (sid (sm_id m)))) = Some k"
  shows "\<exists>bs. StreamMetaEncoder_encode m el = Some bs \<and> 1 \<le> length bs \<and>
     length bs \<le> 1 + k + offset_field_size (fst (sm_offsets m)) + (if el then 8 else 0) \<and>
     (\<not> el \<longrightarrow> length bs = 1 + k + offset_field_size (fst (sm_offsets m)))"
proof -
  let ?a = "fst (sm_offsets m)"
  have lt: "sid (sm_id m) < 2 ^ 62" "?a < 2 ^ 62" "length d < 2 ^ 62"
    using ok by (auto simp: StreamMeta_ok_def)
  have len: "csub (snd (sm_offsets m)) ?a = Some (length d)"
    using ok by (auto simp: StreamMeta_ok_def)
  obtain ib where ib: "StreamId_encode (sm_id m) = Some ib" "length ib = k"
  proof -
    have "\<exists>ib. StreamId_encode (sm_id m) = Some ib \<and> VarInt_encode (VarInt (of_nat (sid (sm_id m)))) = Some ib"
      using encp_StreamId [OF lt(1)] by (auto simp: encp_def StreamId_encode_def VarInt_from_u64_def split: if_splits)
    then show ?thesis
      using length_VarInt_encode k that by force
  qed
  obtain ab where ab: "write_varn ?a = Some ab" "offset_field_size ?a = (if ?a = 0 then 0 else length ab)"
    using write_varn_size [OF lt(2)] by (auto simp: offset_field_size_def)
  obtain db where db: "write_varn (length d) = Some db" "length db \<le> 8"
    using write_varn_size [OF lt(3)] by auto
  have "StreamInfo_to_u64 (StreamMeta_get_type m el) < 64"
    using StreamMeta_get_type_flags(4) [of m el] by (auto simp: StreamInfo_VALUES_def)
  then obtain tb where tb: "write_varn (FrameType_to_u64 (FT_Stream (StreamMeta_get_type m el))) = Some tb" "length tb = 1"
    using write_varn_size [of "FrameType_to_u64 (FT_Stream (StreamMeta_get_type m el))"] length_write_varn by fastforce
  show ?thesis
    using ib ab db tb len
    by (auto simp: StreamMetaEncoder_encode_def writes.simps)
qed

text \<open>A frame as it must be for a stream of the state: its data is what the buffer holds at its offsets.\<close>

definition carries :: "StreamsState \<Rightarrow> StreamMeta \<Rightarrow> byte list \<Rightarrow> bool" where
  "carries s m d \<longleftrightarrow> StreamMeta_ok m d \<and>
     (\<exists>x. st_send s (sm_id m) = Some (Some x) \<and> \<not> Send_is_reset x \<and> sb_get_into (sm_offsets m) (s_pending x) = Some d \<and>
        sbd_offset (sb_data (s_pending x)) \<le> fst (sm_offsets m) \<and> snd (sm_offsets m) \<le> Send_offset x \<and>
        (sm_fin m \<longleftrightarrow> snd (sm_offsets m) = Send_offset x \<and> s_state x \<noteq> Ready))"

definition same_data :: "StreamsState \<Rightarrow> StreamsState \<Rightarrow> bool" where
  "same_data s t \<longleftrightarrow> (\<forall>j.
     (st_send s j = None \<longleftrightarrow> st_send t j = None) \<and>
     (\<forall>y. st_send t j = Some (Some y) \<longrightarrow> (\<exists>x. st_send s j = Some (Some x) \<and> s_state y = s_state x \<and>
        sb_data (s_pending y) = sb_data (s_pending x))))"

lemma same_data_refl: "same_data s s"
  by (simp add: same_data_def)

lemma same_data_trans: "same_data s t \<Longrightarrow> same_data t u \<Longrightarrow> same_data s u"
  unfolding same_data_def by (metis (no_types, lifting))

lemma carries_same: "same_data s t \<Longrightarrow> carries t m d \<Longrightarrow> carries s m d"
  unfolding same_data_def carries_def
  by (fastforce simp: sb_get_into_def Send_offset_def sb_offset_def Send_is_reset_def)

lemma carries_bytes:
  assumes "carries s m d"
  shows "\<exists>x. st_send s (sm_id m) = Some (Some x) \<and> \<not> Send_is_reset x \<and>
     (\<forall>xs. Send_inv xs x \<longrightarrow> d = slice (fst (sm_offsets m)) (snd (sm_offsets m)) xs \<and>
        (sm_fin m \<longleftrightarrow> snd (sm_offsets m) = length xs \<and> s_state x \<noteq> Ready))"
proof -
  let ?a = "fst (sm_offsets m)" and ?e = "snd (sm_offsets m)"
  from assms obtain x where x: "st_send s (sm_id m) = Some (Some x)" "\<not> Send_is_reset x"
    "sb_get_into (?a, ?e) (s_pending x) = Some d" "sbd_offset (sb_data (s_pending x)) \<le> ?a" "?a \<le> ?e" "?e \<le> Send_offset x"
    "sm_fin m \<longleftrightarrow> ?e = Send_offset x \<and> s_state x \<noteq> Ready"
    by (auto simp: carries_def StreamMeta_ok_def)
  have "d = slice ?a ?e xs" if "Send_inv xs x" for xs
    using sb_get_into_spec [of xs "s_pending x" ?a ?e] that x Send_offset_inv [OF that] by (simp add: Send_inv_def)
  then show ?thesis
    using x(1,2,7) Send_offset_inv by auto
qed

lemma length_pending_push [simp]: "length (pending_push x xs) = Suc (length xs)"
  by (induction xs) auto

lemma requeue_ok:
  assumes "pq_inv q" and "pq_next q = None" and "0 < pq_recency q"
  shows "\<exists>q'. (if p then if fair then push_pending i pr q else reinsert_pending i pr q else Some q) = Some q' \<and> pq_inv q' \<and>
    queued_ids q \<subseteq> queued_ids q' \<and> (p \<longrightarrow> i \<in> queued_ids q') \<and>
    pq_recency q \<le> pq_recency q' + 1 \<and> length (pq_iter q') \<le> length (pq_iter q) + of_bool p"
proof (cases "p \<and> fair")
  case True
  obtain q' where q': "push_pending i pr q = Some q'" "pq_inv q'" "queued_ids q' = insert i (queued_ids q)"
    "pq_recency q' = pq_recency q - 1"
    using push_pending_ids [OF assms(1,3)] by blast
  then have "length (pq_iter q') = length (pq_iter q) + 1"
    using assms(3) by (auto simp: push_pending_def pq_iter_def csub_def split: option.splits)
  then show ?thesis
    using q' True by auto
next
  case False
  then show ?thesis
    using assms by (cases p) (auto simp: reinsert_pending_def pq_inv_def queued_ids_def pq_iter_def)
qed

lemma write_stream_frame_ok:
  assumes inv: "streams_inv s F" and x: "st_send s i = Some (Some x)" "\<not> Send_is_reset x" and i: "sid i < 2 ^ 62"
    and b: "pb_ok b" "Stream_SIZE_BOUND < pb_room b"
    and q: "pq_inv q" "pq_next q = None" "0 < pq_recency q" "queued_ids (st_pending s) - {i} \<subseteq> queued_ids q"
  shows "\<exists>m enc d s' b' bs. write_stream_frame fair i x (s\<lparr>st_pending := q\<rparr>) b = Some (s', b') \<and> sm_id m = i \<and> carries s m d \<and>
     streams_inv s' (m # F) \<and> same_data s s' \<and> pb_ok b' \<and> sent_bytes (EStreamMeta m enc) d = Some bs \<and> bs \<noteq> [] \<and>
     length bs \<le> pb_room b \<and> pb_room b' = pb_room b - length bs \<and> (\<not> enc \<longrightarrow> pb_room b' = 0) \<and>
     tb_buf (pb_buf b') = tb_buf (pb_buf b) @ bs \<and>
     sfr_stream_frames (pb_sent_frames b') = sfr_stream_frames (pb_sent_frames b) @ [m] \<and>
     pq_recency q \<le> pq_recency (st_pending s') + 1 \<and> length (pq_iter (st_pending s')) \<le> length (pq_iter q) + 1"
proof -
  note ok = send_of_ok [OF inv, of i, unfolded send_of_Some [OF x(1)] x(1), simplified]
  obtain k where k: "VarInt_size (VarInt (of_nat (sid i))) = Some k" "1 \<le> k" "k \<le> 8"
    using VarInt_size_length [OF i] by blast
  define l where "l = pb_room b - 1 - k"
  have l: "16 \<le> l" "1 + k + l = pb_room b"
    using b(2) k by (auto simp: l_def Stream_SIZE_BOUND_def)
  from stream_ok_transmit [OF ok(1) l(1)] obtain xs a e enc buf where xs: "Send_inv xs x"
    and poll: "sb_poll_transmit l (s_pending x) = Some (((a, e), enc), buf)" and t: "sb_takes xs (s_pending x) a e buf"
    and size: "offset_field_size a + (if enc then 8 else 0) + (e - a) \<le> l" "\<not> enc \<longrightarrow> offset_field_size a + (e - a) = l"
    and y: "\<And>f. stream_ok (x\<lparr>s_fin_pending := f, s_pending := buf\<rparr>) ((a, e) # flights F i)"
      "\<And>f. unacked_of (x\<lparr>s_fin_pending := f, s_pending := buf\<rparr>) = unacked_of x"
    by blast
  have tk: "sb_inv xs buf" "sb_data buf = sb_data (s_pending x)" "sbd_offset (sb_data buf) \<le> a" "a \<le> e" "e \<le> length xs"
    using t by (auto simp: sb_takes_def)
  define fin where "fin \<longleftrightarrow> e = sb_offset buf \<and> (case s_state x of DataSent _ \<Rightarrow> True | _ \<Rightarrow> False)"
  define m where "m = \<lparr>sm_id = i, sm_offsets = (a, e), sm_fin = fin\<rparr>"
  define d where "d = slice a e xs"
  define z where "z = x\<lparr>s_fin_pending := s_fin_pending x \<and> \<not> fin, s_pending := buf\<rparr>"
  have get: "sb_get_into (a, e) buf = Some d"
    using sb_get_into_spec [OF tk(1,3,4,5)] by (simp add: d_def)
  have len: "length d = e - a"
    using tk by (simp add: d_def length_slice)
  have "length xs < 2 ^ 62"
    using ok(1) xs by (auto simp: stream_ok_def Send_inv_def)
  then have meta: "StreamMeta_ok m d"
    using i len tk by (simp add: StreamMeta_ok_def m_def)
  obtain hd where hd: "StreamMetaEncoder_encode m enc = Some hd" "1 \<le> length hd"
    "length hd \<le> 1 + k + offset_field_size a + (if enc then 8 else 0)"
    "\<not> enc \<longrightarrow> length hd = 1 + k + offset_field_size a"
    using StreamMeta_header [OF meta, of k enc] k(1) by (auto simp: m_def)
  have fits: "length hd + length d \<le> pb_room b" "\<not> enc \<Longrightarrow> length hd + length d = pb_room b"
    using hd(3,4) size l(2) len by auto
  obtain b1 where b1: "write_frame (EStreamMeta m enc) b = Some b1" "pb_ok b1" "pb_room b1 = pb_room b - length hd"
    "tb_buf (pb_buf b1) = tb_buf (pb_buf b) @ hd"
    "sfr_stream_frames (pb_sent_frames b1) = sfr_stream_frames (pb_sent_frames b) @ [m]"
    using write_frame_ok [OF b(1), of "EStreamMeta m enc" hd] hd(1) fits(1) by auto
  define b2 where "b2 = b1\<lparr>pb_buf := tb_put d (pb_buf b1)\<rparr>"
  have b2: "pb_ok b2" "pb_room b2 = pb_room b - length (hd @ d)"
    using pb_put_ok [OF b1(2), of d] b1(3) fits(1) by (auto simp: b2_def)
  obtain q' where q': "(if Send_is_pending z then if fair then push_pending i (s_priority z) q else reinsert_pending i (s_priority z) q
      else Some q) = Some q'" "pq_inv q'" "queued_ids q \<subseteq> queued_ids q'" "Send_is_pending z \<Longrightarrow> i \<in> queued_ids q'"
    "pq_recency q \<le> pq_recency q' + 1" "length (pq_iter q') \<le> length (pq_iter q) + of_bool (Send_is_pending z)"
    using requeue_ok [OF q(1-3), where p = "Send_is_pending z" and fair = fair and i = i and pr = "s_priority z"] by auto
  have "streams_inv ((put_send i z s)\<lparr>st_data_sent := st_data_sent s, st_unacked_data := st_unacked_data s,
      st_pending := q', st_connection_blocked := st_connection_blocked s\<rparr>) (m # F)"
  proof (rule put_send_upd_ok [OF inv])
    show "stream_ok z (flights (m # F) i)" "st_unacked_data s + unacked_of z \<le> st_unacked_data s + slot_unacked (st_send s i)"
      using y x ok(3) by (simp_all add: z_def flights_def m_def)
  qed (use x ok q q' streams_inv_basic [OF inv] in \<open>auto simp: flights_def m_def z_def\<close>)
  then have inv': "streams_inv (put_send i z (s\<lparr>st_pending := q'\<rparr>)) (m # F)"
    unfolding put_send_pending by (simp add: put_send_def)
  have z: "(if fin then x\<lparr>s_pending := buf, s_fin_pending := False\<rparr> else x\<lparr>s_pending := buf\<rparr>) = z" "s_pending z = buf"
    "s_state z = s_state x"
    by (simp_all add: z_def)
  have fin_eq: "fin \<longleftrightarrow> e = Send_offset x \<and> s_state x \<noteq> Ready"
    using x(2) tk(2) by (auto simp: fin_def Send_offset_def sb_offset_def Send_is_reset_def split: SendState.splits)
  have sub: "csub (pb_room b) 1 = Some (pb_room b - 1)" "csub (pb_room b - 1) k = Some l"
    using l k by (auto simp: csub_def l_def)
  have run: "write_stream_frame fair i x (s\<lparr>st_pending := q\<rparr>) b = Some (put_send i z (s\<lparr>st_pending := q'\<rparr>), b2)"
    using k(1) q'(1) poll get b1(1) z
    by (simp add: write_stream_frame_def frame_space_remaining_room [OF b(1)] sub [unfolded One_nat_def] Let_def fin_def [symmetric] m_def [symmetric] b2_def)
      (auto split: if_splits)
  have "carries s m d"
    using meta x get tk Send_offset_inv [OF xs] fin_eq by (auto simp: carries_def m_def sb_get_into_def)
  moreover have "same_data s (put_send i z (s\<lparr>st_pending := q'\<rparr>))"
    using x z tk(2) by (auto simp: same_data_def put_send_def)
  moreover have "sent_bytes (EStreamMeta m enc) d = Some (hd @ d)"
    using hd(1) by (simp add: sent_bytes_def writes.simps put_slice_def)
  moreover have "tb_buf (pb_buf b2) = tb_buf (pb_buf b) @ (hd @ d)"
    "sfr_stream_frames (pb_sent_frames b2) = sfr_stream_frames (pb_sent_frames b) @ [m]"
    using b1 by (simp_all add: b2_def tb_put_def)
  moreover have "sm_id m = i" "hd @ d \<noteq> []" "\<not> enc \<longrightarrow> pb_room b2 = 0" "length (hd @ d) \<le> pb_room b"
    using hd(2) fits b2(2) by (auto simp: m_def)
  moreover have "pq_recency q \<le> pq_recency (st_pending (put_send i z (s\<lparr>st_pending := q'\<rparr>))) + 1"
    "length (pq_iter (st_pending (put_send i z (s\<lparr>st_pending := q'\<rparr>)))) \<le> length (pq_iter q) + 1"
    using q'(5,6) by (auto simp: of_bool_def split: if_splits)
  ultimately show ?thesis
    using run inv' b2 by blast
qed

section \<open>The loop\<close>

lemma pq_pop_Some:
  assumes "pq_pop q0 = (Some p, q)" and "pq_inv q0"
  shows "pq_inv q" and "queued_ids q0 = insert (ps_id p) (queued_ids q)" and "pq_next q = None" and "pq_recency q = pq_recency q0"
    and "length (pq_iter q0) = Suc (length (pq_iter q))"
  using assms by (auto simp: pq_pop_def pq_inv_def queued_ids_def pq_iter_def split: option.splits list.splits)

lemma drop_entry_ok:
  assumes inv: "streams_inv s F" and q: "pq_inv q" "queued_ids (st_pending s) \<subseteq> insert i (queued_ids q)"
    and dead: "\<And>x. st_send s i = Some (Some x) \<Longrightarrow> Send_is_reset x"
  shows "streams_inv (s\<lparr>st_pending := q\<rparr>) F"
proof -
  have "queue_ok (s\<lparr>st_pending := q\<rparr>)"
    using inv q dead by (fastforce simp: streams_inv_def queue_ok_def)
  then show ?thesis
    using inv by (simp add: streams_inv_def)
qed

text \<open>The frames of a run of the loop: header, whether the length is encoded, and data.\<close>

type_synonym stream_item = "StreamMeta \<times> bool \<times> byte list"

definition item_frame :: "stream_item \<Rightarrow> EncodableFrame \<times> byte list" where
  "item_frame = (\<lambda>(m, enc, d). (EStreamMeta m enc, d))"

definition loop_result :: "StreamMeta list \<Rightarrow> StreamsState \<Rightarrow> PacketBuilder \<Rightarrow> stream_item list \<Rightarrow> StreamsState \<Rightarrow> PacketBuilder \<Rightarrow> bool" where
  "loop_result F s b items s' b' \<longleftrightarrow>
     streams_inv s' (rev (map fst items) @ F) \<and> same_data s s' \<and> pb_ok b' \<and>
     (\<forall>(m, enc, d) \<in> set items. carries s m d) \<and> (\<forall>(m, enc, d) \<in> set (butlast items). enc) \<and>
     (pb_room b \<le> Stream_SIZE_BOUND \<longrightarrow> items = []) \<and>
     (pb_room b' \<le> Stream_SIZE_BOUND \<or> pq_iter (st_pending s') = []) \<and>
     sfr_stream_frames (pb_sent_frames b') = sfr_stream_frames (pb_sent_frames b) @ map fst items \<and>
     (\<exists>payload. writes (map (\<lambda>(f, d). sent_bytes f d) (map item_frame items)) = Some payload \<and>
        tb_buf (pb_buf b') = tb_buf (pb_buf b) @ payload \<and> length payload \<le> pb_room b)"

lemma loop_result_Nil:
  assumes "streams_inv s F" and "pb_ok b" and "pb_room b \<le> Stream_SIZE_BOUND \<or> pq_iter (st_pending s) = []"
  shows "loop_result F s b [] s b"
  using assms by (simp add: loop_result_def same_data_refl writes.simps)

lemma loop_result_drop: "loop_result F (s\<lparr>st_pending := q\<rparr>) b items s' b' \<Longrightarrow> loop_result F s b items s' b'"
  by (simp add: loop_result_def same_data_def carries_def)

lemma loop_result_Cons:
  assumes 1: "carries s m d" "same_data s t" "sent_bytes (EStreamMeta m enc) d = Some bs" "length bs \<le> pb_room b"
      "pb_room c = pb_room b - length bs" "\<not> enc \<longrightarrow> pb_room c = 0" "tb_buf (pb_buf c) = tb_buf (pb_buf b) @ bs"
      "sfr_stream_frames (pb_sent_frames c) = sfr_stream_frames (pb_sent_frames b) @ [m]"
    and room: "Stream_SIZE_BOUND < pb_room b" and 2: "loop_result (m # F) t c items s' b'"
  shows "loop_result F s b ((m, enc, d) # items) s' b'"
proof -
  have "carries s m' d'" if "(m', enc', d') \<in> set items" for m' enc' d'
    using 2 that carries_same [OF 1(2)] by (fastforce simp: loop_result_def)
  moreover have "items = []" if "\<not> enc"
    using 2 1(6) that by (simp add: loop_result_def Stream_SIZE_BOUND_def)
  moreover have "same_data s s'"
    using 1(2) 2 same_data_trans by (simp add: loop_result_def)
  ultimately show ?thesis
    using 1 2 room by (auto simp: loop_result_def item_frame_def writes.simps)
qed

lemma write_stream_loop_ok:
  assumes "streams_inv s F" and "\<And>j. st_send s j \<noteq> None \<Longrightarrow> sid j < 2 ^ 62" and "pb_ok b"
    and "pb_room b + length (pq_iter (st_pending s)) < fuel" and "pb_room b \<le> pq_recency (st_pending s)"
  shows "\<exists>s' b' items. write_stream_loop fuel fair s b = Some (s', b') \<and> loop_result F s b items s' b'"
  using assms
proof (induction fuel arbitrary: s F b)
  case (Suc fuel)
  note inv = Suc.prems(1) and b = Suc.prems(3)
  show ?case
  proof (cases "Stream_SIZE_BOUND < pb_room b")
    case False
    then show ?thesis
      using loop_result_Nil [OF inv b] by (auto simp: frame_space_remaining_room [OF b])
  next
    case room: True
    obtain o0 q where pop: "pq_pop (st_pending s) = (o0, q)"
      by fastforce
    show ?thesis
    proof (cases o0)
      case None
      then have "pq_iter (st_pending s) = []"
        using pop by (auto simp: pq_pop_def pq_iter_def split: option.splits list.splits)
      then show ?thesis
        using loop_result_Nil [OF inv b] None pop by (auto simp: frame_space_remaining_room [OF b] room)
    next
      case (Some p)
      let ?i = "ps_id p"
      have pq: "pq_inv q" "queued_ids (st_pending s) = insert ?i (queued_ids q)" "pq_next q = None"
        "pq_recency q = pq_recency (st_pending s)" "length (pq_iter (st_pending s)) = Suc (length (pq_iter q))"
        using pq_pop_Some [of "st_pending s" p q] pop Some streams_inv_basic(3) [OF inv] by auto
      show ?thesis
      proof (cases "\<exists>x. st_send s ?i = Some (Some x) \<and> \<not> Send_is_reset x")
        case True
        then obtain x where x: "st_send s ?i = Some (Some x)" "\<not> Send_is_reset x"
          by blast
        have "sid ?i < 2 ^ 62" "0 < pq_recency q" "queued_ids (st_pending s) - {?i} \<subseteq> queued_ids q"
          using Suc.prems(2) [of ?i] x(1) Suc.prems(5) room pq by auto
        from write_stream_frame_ok [OF inv x this(1) b room pq(1,3) this(2,3), of fair] obtain m enc d t c bs where
          w: "write_stream_frame fair ?i x (s\<lparr>st_pending := q\<rparr>) b = Some (t, c)" "carries s m d" "streams_inv t (m # F)" "same_data s t"
          "pb_ok c" "sent_bytes (EStreamMeta m enc) d = Some bs" "bs \<noteq> []" "length bs \<le> pb_room b"
          "pb_room c = pb_room b - length bs" "\<not> enc \<longrightarrow> pb_room c = 0" "tb_buf (pb_buf c) = tb_buf (pb_buf b) @ bs"
          "sfr_stream_frames (pb_sent_frames c) = sfr_stream_frames (pb_sent_frames b) @ [m]"
          "pq_recency q \<le> pq_recency (st_pending t) + 1" "length (pq_iter (st_pending t)) \<le> length (pq_iter q) + 1"
          by blast
        have "0 < length bs"
          using w(7) by simp
        then have "pb_room c + length (pq_iter (st_pending t)) < fuel" "pb_room c \<le> pq_recency (st_pending t)"
          using w(8,9,13,14) pq(4,5) Suc.prems(4,5) by linarith+
        moreover have "\<And>j. st_send t j \<noteq> None \<Longrightarrow> sid j < 2 ^ 62"
          using Suc.prems(2) w(4) unfolding same_data_def by metis
        ultimately obtain s' b' items where run: "write_stream_loop fuel fair t c = Some (s', b')"
          and rest: "loop_result (m # F) t c items s' b'"
          using Suc.IH [OF w(3) _ w(5)] by blast
        have "write_stream_loop (Suc fuel) fair s b = Some (s', b')"
          using room pop Some x w(1) run by (simp add: frame_space_remaining_room [OF b] Let_def)
        then show ?thesis
          using loop_result_Cons [OF w(2,4,6,8-12) room rest] by blast
      next
        case False
        have "streams_inv (s\<lparr>st_pending := q\<rparr>) F"
          using drop_entry_ok [OF inv pq(1), of ?i] pq(2) False by auto
        then obtain s' b' items where run: "write_stream_loop fuel fair (s\<lparr>st_pending := q\<rparr>) b = Some (s', b')"
          and rest: "loop_result F (s\<lparr>st_pending := q\<rparr>) b items s' b'"
          using Suc.IH [of "s\<lparr>st_pending := q\<rparr>" F b] Suc.prems(2-5) pq by auto
        have "write_stream_loop (Suc fuel) fair s b = Some (s', b')"
          using room pop Some False run by (auto simp: frame_space_remaining_room [OF b] Let_def split: option.splits)
        then show ?thesis
          using loop_result_drop [OF rest] by blast
      qed
    qed
  qed
qed simp

text \<open>The whole operation: there is enough fuel, and the packet decodes to the frames.\<close>

lemma write_stream_frames_ok:
  assumes "streams_inv s F" and "\<And>j. st_send s j \<noteq> None \<Longrightarrow> sid j < 2 ^ 62" and "pb_ok b"
    and "pb_room b \<le> pq_recency (st_pending s)"
  shows "\<exists>s' b' items. write_stream_frames fair s b = Some (s', b') \<and> loop_result F s b items s' b'"
  using write_stream_loop_ok [OF assms(1-3) lessI assms(4)]
  by (simp add: write_stream_frames_def frame_space_remaining_room [OF assms(3)] del: write_stream_loop.simps)

lemma loop_result_decodes:
  assumes "loop_result F s b items s' b'"
  shows "\<exists>payload. tb_buf (pb_buf b') = tb_buf (pb_buf b) @ payload \<and> length payload \<le> pb_room b \<and>
     (\<forall>ty. Iter_frames \<lparr>it_bytes = payload, it_last_ty = ty\<rparr> = map (\<lambda>(m, enc, d). Inr (stream_frame m d)) items)"
proof -
  obtain payload where p: "writes (map (\<lambda>(f, d). sent_bytes f d) (map item_frame items)) = Some payload"
    "tb_buf (pb_buf b') = tb_buf (pb_buf b) @ payload" "length payload \<le> pb_room b"
    using assms by (auto simp: loop_result_def)
  have "\<forall>(f, d) \<in> set (map item_frame items). EncodableFrame_ok f d"
    using assms by (auto simp: loop_result_def item_frame_def carries_def)
  moreover have "\<forall>(f, d) \<in> set (butlast (map item_frame items)). sent_delimited f"
    using assms by (auto simp: loop_result_def item_frame_def sent_delimited_def map_butlast [symmetric])
  ultimately obtain payload' where p': "writes (map (\<lambda>(f, d). sent_bytes f d) (map item_frame items)) = Some payload'"
    "\<forall>ty. Iter_frames \<lparr>it_bytes = payload' @ replicate 0 0, it_last_ty = ty\<rparr> =
       map (\<lambda>(f, d). Inr (EncodableFrame_frame f d)) (map item_frame items) @ replicate 0 (Inr Padding)"
    using Iter_frames_sent [of "map item_frame items" 0] by blast
  moreover have "map (\<lambda>(f, d). Inr (EncodableFrame_frame f d)) (map item_frame items) =
      (map (\<lambda>(m, enc, d). Inr (stream_frame m d)) items :: (InvalidFrame + Frame) list)"
    by (auto simp: item_frame_def)
  ultimately show ?thesis
    using p by auto
qed

section \<open>Control frames\<close>

text \<open>The values of the pending control frames can be encoded.\<close>

definition control_sizes :: "Retransmits \<Rightarrow> StreamsState \<Rightarrow> bool" where
  "control_sizes pending s \<longleftrightarrow>
     (\<forall>(i, code) \<in> set (rt_reset_stream pending). sid i < 2 ^ 62 \<and> VarInt_ok code) \<and>
     (\<forall>f \<in> set (rt_stop_sending pending). sid (ss_id f) < 2 ^ 62 \<and> VarInt_ok (ss_error_code f)) \<and>
     (\<forall>i \<in> set (rt_max_stream_data pending). sid i < 2 ^ 62) \<and>
     (\<forall>i r. st_recv s i = Some (Some (Open r)) \<longrightarrow> a_bytes_read (r_assembler r) + st_stream_receive_window s < 2 ^ 62) \<and>
     (\<forall>d. st_max_remote s d < 2 ^ 62 \<and> st_max s d < 2 ^ 62)"

lemma write_control_ok:
  assumes "pb_ok b" and "Frame_ok (EncodableFrame_frame f [])" and "frame_size_bound f = Some n" and "n \<le> pb_room b"
    and "f \<in> {EResetStream r, EStopSending ss, EMaxData v, EMaxStreamData i off, EMaxStreams dir c, EStreamsBlocked dir c}"
  shows "\<exists>b'. write_frame f b = Some b' \<and> pb_ok b'"
proof -
  have "EncodableFrame_ok f []" "sent_delimited f"
    using assms(2,5) by (auto simp: sent_delimited_def)
  then show ?thesis
    using write_frame_sized [OF assms(1) _ _ assms(3,4)] by blast
qed

lemma write_reset_frames_ok:
  assumes "streams_inv s F" and "pb_ok b" and "\<forall>(i, code) \<in> set rs. sid i < 2 ^ 62 \<and> VarInt_ok code"
  shows "\<exists>rest b'. write_reset_frames rs s b = Some (rest, b') \<and> pb_ok b' \<and> set rest \<subseteq> set rs"
  using assms
proof (induction rs arbitrary: b)
  case (Cons rc rest)
  obtain i code where rc: "rc = (i, code)"
    by fastforce
  note b = Cons.prems(2)
  have room: "frame_space_remaining b = Some (pb_room b)"
    using frame_space_remaining_room [OF b] .
  show ?case
  proof (cases "ResetStream_SIZE_BOUND < pb_room b \<and> (\<exists>x. st_send s i = Some (Some x))")
    case True
    then obtain x where x: "st_send s i = Some (Some x)"
      by blast
    obtain xs where "Send_inv xs x" "s_max_data x < 2 ^ 62"
      using send_of_ok(1) [OF Cons.prems(1), of i] send_of_Some [OF x] x by (auto simp: stream_ok_def)
    then have "Send_offset x < 2 ^ 62"
      using Send_offset_inv by (auto simp: Send_inv_def)
    then have off: "VarInt_from_u64 (of_nat (Send_offset x)) = Inr (VarInt (of_nat (Send_offset x)))"
      "VarInt_ok (VarInt (of_nat (Send_offset x)))"
      by (simp_all add: VarInt_from_u64_def VarInt_ok_def unat_of_nat)
    define f where "f = EResetStream \<lparr>rs_id = i, rs_error_code = code, rs_final_offset = VarInt (of_nat (Send_offset x))\<rparr>"
    have "\<exists>c. write_frame f b = Some c \<and> pb_ok c"
      using off Cons.prems(3) True rc
      by (intro write_control_ok [OF b, where n = 25]) (auto simp: f_def ResetStream_SIZE_BOUND_def)
    then obtain c where c: "write_frame f b = Some c" "pb_ok c"
      by blast
    from Cons.IH [OF Cons.prems(1) c(2)] Cons.prems(3) obtain left b' where
      "write_reset_frames rest s c = Some (left, b')" "pb_ok b'" "set left \<subseteq> set rest"
      by auto
    then show ?thesis
      using True x off(1) c(1) rc by (auto simp: room f_def)
  next
    case False
    from Cons.IH [OF Cons.prems(1,2)] Cons.prems(3) obtain left b' where
      "write_reset_frames rest s b = Some (left, b')" "pb_ok b'" "set left \<subseteq> set rest"
      by auto
    then show ?thesis
      using False rc b by (cases "st_send s i"; cases "the (st_send s i)") (auto simp: room)
  qed
qed simp

lemma write_stop_frames_ok:
  assumes "pb_ok b" and "\<forall>f \<in> set fs. sid (ss_id f) < 2 ^ 62 \<and> VarInt_ok (ss_error_code f)"
  shows "\<exists>rest b'. write_stop_frames fs b = Some (rest, b') \<and> pb_ok b' \<and> set rest \<subseteq> set fs"
  using assms
proof (induction fs arbitrary: b)
  case (Cons f rest)
  note b = Cons.prems(1)
  show ?case
  proof (cases "StopSending_SIZE_BOUND < pb_room b")
    case True
    have "\<exists>c. write_frame (EStopSending f) b = Some c \<and> pb_ok c"
      using Cons.prems(2) True by (intro write_control_ok [OF b, where n = 17]) (auto simp: StopSending_SIZE_BOUND_def)
    then obtain c where c: "write_frame (EStopSending f) b = Some c" "pb_ok c"
      by blast
    from Cons.IH [OF c(2)] Cons.prems(2) show ?thesis
      using c(1) True by (auto simp: frame_space_remaining_room [OF b])
  qed (use b in \<open>simp add: frame_space_remaining_room [OF b]\<close>)
qed simp

text \<open>Updates that only raise the limits that have been announced.\<close>

lemma sent_max_ok:
  assumes inv: "streams_inv s F"
  shows "n \<le> st_local_max_data s \<Longrightarrow> streams_inv (s\<lparr>st_sent_max_data := n\<rparr>) F"
    and "streams_inv (s\<lparr>st_sent_max_remote := (st_sent_max_remote s)(d := st_max_remote s d)\<rparr>) F"
proof -
  show "n \<le> st_local_max_data s \<Longrightarrow> streams_inv (s\<lparr>st_sent_max_data := n\<rparr>) F"
    using inv by (simp add: streams_inv_def) (simp add: recv_ok_def)
  let ?t = "s\<lparr>st_sent_max_remote := (st_sent_max_remote s)(d := st_max_remote s d)\<rparr>"
  have "recv_ok ?t = recv_ok s" "send_ok ?t F = send_ok s F" "queue_ok ?t = queue_ok s" "blocked_ok ?t = blocked_ok s"
    "remote_ids ?t = remote_ids s" "known_sends ?t = known_sends s"
    by (simp_all add: inv_defs fun_eq_iff)
  then show "streams_inv ?t F"
    using inv by (simp add: streams_inv_def tables_ok_def tables_range_def)
qed

lemma write_max_data_frame_ok:
  assumes inv: "streams_inv s F" and b: "pb_ok b"
  shows "\<exists>p' s' b'. write_max_data_frame p s b = Some (p', s', b') \<and> pb_ok b' \<and> streams_inv s' F \<and>
    (\<exists>n. s' = s\<lparr>st_sent_max_data := n\<rparr>) \<and> (\<exists>x. p' = p\<lparr>rt_max_data := x\<rparr>)"
proof (cases "rt_max_data p \<and> 9 < pb_room b")
  case True
  define v where "v = (if st_local_max_data s < 2 ^ 62 then VarInt (of_nat (st_local_max_data s)) else VarInt_MAX)"
  have v: "VarInt_ok v" "unat (into_inner v) \<le> st_local_max_data s"
    by (auto simp: v_def VarInt_ok_def VarInt_MAX_def unat_of_nat)
  have "\<exists>c. write_frame (EMaxData v) b = Some c \<and> pb_ok c"
    using v(1) True by (intro write_control_ok [OF b, where n = 9]) auto
  then obtain c where c: "write_frame (EMaxData v) b = Some c" "pb_ok c"
    by blast
  define n where "n = max (st_sent_max_data s) (unat (into_inner v))"
  have "(if unat (into_inner v) > st_sent_max_data s then s\<lparr>st_sent_max_data := unat (into_inner v)\<rparr> else s) = s\<lparr>st_sent_max_data := n\<rparr>"
    by (simp add: n_def)
  then have "write_max_data_frame p s b = Some (p\<lparr>rt_max_data := False\<rparr>, s\<lparr>st_sent_max_data := n\<rparr>, c)"
    using True c(1) unfolding v_def
    by (simp only: write_max_data_frame_def frame_space_remaining_room [OF b] Let_def) simp
  moreover have "n \<le> st_local_max_data s"
    using v(2) inv by (simp add: n_def streams_inv_def recv_ok_def)
  ultimately show ?thesis
    using sent_max_ok(1) [OF inv] c(2) by blast
next
  case False
  then have "write_max_data_frame p s b = Some (p, s, b)"
    by (auto simp: write_max_data_frame_def frame_space_remaining_room [OF b])
  moreover have "s = s\<lparr>st_sent_max_data := st_sent_max_data s\<rparr>" "p = p\<lparr>rt_max_data := rt_max_data p\<rparr>"
    by simp_all
  ultimately show ?thesis
    using assms by metis
qed

lemma write_max_stream_data_frames_ok:
  assumes "streams_inv s F" and "pb_ok b" and "\<forall>i \<in> set is. sid i < 2 ^ 62"
    and "\<And>i r. st_recv s i = Some (Some (Open r)) \<Longrightarrow> a_bytes_read (r_assembler r) + st_stream_receive_window s < 2 ^ 62"
  shows "\<exists>rest s' b'. write_max_stream_data_frames is s b = Some (rest, s', b') \<and> pb_ok b' \<and> streams_inv s' F \<and>
    st_max_remote s' = st_max_remote s \<and> st_max s' = st_max s"
  using assms
proof (induction "is" arbitrary: s b)
  case (Cons i rest)
  note inv = Cons.prems(1) and b = Cons.prems(2)
  have room: "frame_space_remaining b = Some (pb_room b)"
    using frame_space_remaining_room [OF b] .
  show ?case
  proof (cases "17 < pb_room b \<and> (\<exists>r. st_recv s i = Some (Some (Open r)) \<and> Recv_can_send_flow_control r)")
    case True
    then obtain r where r: "st_recv s i = Some (Some (Open r))" "Recv_can_send_flow_control r"
      by blast
    let ?w = "st_stream_receive_window s"
    define n where "n = a_bytes_read (r_assembler r) + ?w"
    have good: "Recv_good ?w r" "n < 2 ^ 62"
      using recv_of_good [OF inv, of i] r(1) Cons.prems(4) [OF r(1)]
      by (simp_all add: n_def recv_of_def get_or_insert_recv_def)
    then have max: "\<exists>x. Recv_max_stream_data ?w r = Some (n, x)"
      using Recv_max_stream_data_spec [of ?w r] by (auto simp: Recv_good_def n_def)
    define r' where "r' = Recv_record_sent_max_stream_data n r"
    have r': "a_bytes_read (r_assembler r') = a_bytes_read (r_assembler r)"
      by (simp add: r'_def Recv_record_sent_max_stream_data_def)
    have "Recv_good ?w r'"
      using good Recv_record_sent_inv(1) [of r n] Recv_record_sent_inv(2) [of ?w r n]
      by (auto simp: Recv_good_def r'_def n_def Recv_record_sent_max_stream_data_def Recv_final_offset_def)
    then have t: "streams_inv (put_recv i r' s) F"
      using put_recv_ok [OF inv] r by simp
    have "\<exists>c. write_frame (EMaxStreamData i n) b = Some c \<and> pb_ok c"
      using Cons.prems(3) True good(2) by (intro write_control_ok [OF b, where n = 17]) auto
    then obtain c where c: "write_frame (EMaxStreamData i n) b = Some c" "pb_ok c"
      by blast
    have sizes: "a_bytes_read (r_assembler q) + st_stream_receive_window (put_recv i r' s) < 2 ^ 62"
      if "st_recv (put_recv i r' s) j = Some (Some (Open q))" for j q
      using Cons.prems(4) r r' that by (auto split: if_splits)
    have "\<exists>left s' b'. write_max_stream_data_frames rest (put_recv i r' s) c = Some (left, s', b') \<and> pb_ok b' \<and> streams_inv s' F \<and>
        st_max_remote s' = st_max_remote (put_recv i r' s) \<and> st_max s' = st_max (put_recv i r' s)"
      by (rule Cons.IH [OF t c(2)]) (use Cons.prems(3) sizes in auto)
    then show ?thesis
      using True r max c(1) by (auto simp: room r'_def Let_def put_recv_def)
  next
    case False
    from Cons.IH [OF inv b] Cons.prems(3,4) obtain left s' b' where
      "write_max_stream_data_frames rest s b = Some (left, s', b')" "pb_ok b'" "streams_inv s' F"
      "st_max_remote s' = st_max_remote s" "st_max s' = st_max s"
      by auto
    then show ?thesis
      using False b inv by (auto simp: room split: option.splits StreamRecv.splits)
  qed
qed simp

lemma write_max_streams_frames_ok:
  assumes "streams_inv s F" and "pb_ok b" and "\<And>d. st_max_remote s d < 2 ^ 62"
  shows "\<exists>p' s' b'. write_max_streams_frames dirs p s b = Some (p', s', b') \<and> pb_ok b' \<and> streams_inv s' F \<and> st_max s' = st_max s"
  using assms
proof (induction dirs arbitrary: p s b)
  case (Cons d dirs)
  note inv = Cons.prems(1) and b = Cons.prems(2)
  have room: "frame_space_remaining b = Some (pb_room b)"
    using frame_space_remaining_room [OF b] .
  show ?case
  proof (cases "rt_max_stream_id p d \<and> 9 < pb_room b")
    case True
    have "\<exists>c. write_frame (EMaxStreams d (st_max_remote s d)) b = Some c \<and> pb_ok c"
      using Cons.prems(3) True by (intro write_control_ok [OF b, where n = 9]) auto
    then obtain c where c: "write_frame (EMaxStreams d (st_max_remote s d)) b = Some c" "pb_ok c"
      by blast
    from Cons.IH [OF sent_max_ok(2) [OF inv, of d] c(2)] Cons.prems(3) show ?thesis
      using True c(1) by (auto simp: room Let_def)
  next
    case False
    from Cons.IH [OF Cons.prems] show ?thesis
      using False by (auto simp: room)
  qed
qed simp

lemma write_streams_blocked_frames_ok:
  assumes "streams_inv s F" and "pb_ok b" and "\<And>d. st_max s d < 2 ^ 62"
  shows "\<exists>p' s' b'. write_streams_blocked_frames dirs p s b = Some (p', s', b') \<and> pb_ok b' \<and> streams_inv s' F"
  using assms
proof (induction dirs arbitrary: p s b)
  case (Cons d dirs)
  note b = Cons.prems(2)
  have room: "frame_space_remaining b = Some (pb_room b)"
    using frame_space_remaining_room [OF b] .
  define s1 where "s1 = (if st_streams_blocked s d then s\<lparr>st_streams_blocked := (st_streams_blocked s)(d := False)\<rparr> else s)"
  define p1 where "p1 = (if st_streams_blocked s d then p\<lparr>rt_streams_blocked := (rt_streams_blocked p)(d := True)\<rparr> else p)"
  have s1: "streams_inv s1 F" "\<And>d. st_max s1 d < 2 ^ 62"
    using Cons.prems by (simp_all add: s1_def)
  have step: "write_streams_blocked_frames (d # dirs) p s b =
      (if \<not> rt_streams_blocked p1 d \<or> pb_room b \<le> 9 then write_streams_blocked_frames dirs p1 s1 b
       else do {
         c \<leftarrow> write_frame (EStreamsBlocked d (st_max s1 d)) b;
         write_streams_blocked_frames dirs (p1\<lparr>rt_streams_blocked := (rt_streams_blocked p1)(d := False)\<rparr>) s1 c })"
    by (cases "st_streams_blocked s d") (simp_all add: room s1_def p1_def Let_def)
  show ?case
  proof (cases "\<not> rt_streams_blocked p1 d \<or> pb_room b \<le> 9")
    case True
    then show ?thesis
      using Cons.IH [OF s1(1) b s1(2)] unfolding step by simp
  next
    case False
    have "\<exists>c. write_frame (EStreamsBlocked d (st_max s1 d)) b = Some c \<and> pb_ok c"
      using s1(2) False by (intro write_control_ok [OF b, where n = 9]) auto
    then obtain c where "write_frame (EStreamsBlocked d (st_max s1 d)) b = Some c" "pb_ok c"
      by blast
    then show ?thesis
      using Cons.IH [OF s1(1) _ s1(2)] False unfolding step by simp
  qed
qed simp

lemma write_control_frames_ok:
  assumes inv: "streams_inv s F" and b: "pb_ok b" and sizes: "control_sizes p s"
  shows "\<exists>p' s' b'. write_control_frames p s b = Some (p', s', b') \<and> pb_ok b' \<and> streams_inv s' F"
proof -
  obtain r1 b1 where 1: "write_reset_frames (rev (rt_reset_stream p)) s b = Some (r1, b1)" "pb_ok b1"
    using write_reset_frames_ok [OF inv b, of "rev (rt_reset_stream p)"] sizes by (auto simp: control_sizes_def)
  obtain r2 b2 where 2: "write_stop_frames (rev (rt_stop_sending p)) b1 = Some (r2, b2)" "pb_ok b2"
    using write_stop_frames_ok [OF 1(2), of "rev (rt_stop_sending p)"] sizes by (auto simp: control_sizes_def)
  let ?p = "p\<lparr>rt_reset_stream := rev r1, rt_stop_sending := rev r2\<rparr>"
  obtain n x b3 where 3: "write_max_data_frame ?p s b2 = Some (?p\<lparr>rt_max_data := x\<rparr>, s\<lparr>st_sent_max_data := n\<rparr>, b3)" "pb_ok b3"
    "streams_inv (s\<lparr>st_sent_max_data := n\<rparr>) F"
    using write_max_data_frame_ok [OF inv 2(2), of ?p] by auto
  obtain r4 s4 b4 where 4: "write_max_stream_data_frames (rt_max_stream_data p) (s\<lparr>st_sent_max_data := n\<rparr>) b3 = Some (r4, s4, b4)"
    "pb_ok b4" "streams_inv s4 F" "st_max_remote s4 = st_max_remote s" "st_max s4 = st_max s"
    using write_max_stream_data_frames_ok [OF 3(3,2), of "rt_max_stream_data p"] sizes by (auto simp: control_sizes_def)
  have lt: "st_max_remote s4 d < 2 ^ 62" "st_max s4 d < 2 ^ 62" for d
    using sizes 4(4,5) by (simp_all add: control_sizes_def)
  obtain p5 s5 b5 where 5: "write_max_streams_frames Dir_iter (?p\<lparr>rt_max_data := x, rt_max_stream_data := r4\<rparr>) s4 b4 = Some (p5, s5, b5)"
    "pb_ok b5" "streams_inv s5 F" "st_max s5 = st_max s4"
    using write_max_streams_frames_ok [OF 4(3,2) lt(1)] by blast
  obtain p6 s6 b6 where "write_streams_blocked_frames Dir_iter p5 s5 b5 = Some (p6, s6, b6)" "pb_ok b6" "streams_inv s6 F"
    using write_streams_blocked_frames_ok [OF 5(3,2)] 5(4) lt(2) by metis
  then show ?thesis
    using 1 2 3 4 5 by (simp add: write_control_frames_def Let_def)
qed

end
