(* ===== verification/Streams_System.thy ===== *)
theory Streams_System
  imports Streams_Transmit
begin

text \<open>
  The streams of a connection as a transition system: the operations of the application, the frames
  of the peer, acknowledgement and loss, and the building of packets, in any order.  The state is
  the state of the streams with the STREAM frames that are in flight.
\<close>

section \<open>The transition system\<close>

datatype streams_op =
    OpOpen bool Dir | OpAccept Dir | OpWrite bool StreamId Source | OpFinish StreamId
  | OpReset StreamId VarInt Retransmits | OpSetPriority StreamId int
  | OpStop StreamId VarInt Retransmits | OpReceivedReset StreamId Retransmits
  | OpRead StreamId bool "nat list" Retransmits | OpPoll
  | OpSetMaxConcurrent Dir nat | OpSetSendWindow nat | OpSetReceiveWindow nat
  | RxParams TransportParameters | RxStream StreamFrame nat | RxResetStream ResetStream
  | RxStopSending StreamId VarInt | RxMaxData nat | RxMaxStreams Dir nat | RxMaxStreamData StreamId nat
  | Acked StreamMeta | Lost StreamMeta | ResetAcked StreamId
  | TxStreams bool PacketBuilder | TxControl Retransmits PacketBuilder

type_synonym streams_conn = "StreamsState \<times> StreamMeta list"

fun streams_exec :: "streams_op \<Rightarrow> streams_conn \<Rightarrow> streams_conn option" where
  "streams_exec (OpOpen closed dir) (s, F) = map_option (\<lambda>(_, s). (s, F)) (streams_open closed dir s)"
| "streams_exec (OpAccept dir) (s, F) = Some (snd (streams_accept dir s), F)"
| "streams_exec (OpWrite closed i src) (s, F) = map_option (\<lambda>(_, _, s). (s, F)) (SendStream_write_source closed i src s)"
| "streams_exec (OpFinish i) (s, F) = map_option (\<lambda>(_, s). (s, F)) (SendStream_finish i s)"
| "streams_exec (OpReset i code p) (s, F) = map_option (\<lambda>(_, s, _). (s, F)) (SendStream_reset i code s p)"
| "streams_exec (OpSetPriority i n) (s, F) = Some (snd (SendStream_set_priority i n s), F)"
| "streams_exec (OpStop i code p) (s, F) = map_option (\<lambda>(_, s, _). (s, F)) (RecvStream_stop i code s p)"
| "streams_exec (OpReceivedReset i p) (s, F) = map_option (\<lambda>(_, s, _). (s, F)) (RecvStream_received_reset i s p)"
| "streams_exec (OpRead i ordered lengths p) (s, F) = map_option (\<lambda>(_, s, _). (s, F)) (read_stream i ordered lengths s p)"
| "streams_exec OpPoll (s, F) = map_option (\<lambda>(_, s). (s, F)) (streams_poll s)"
| "streams_exec (OpSetMaxConcurrent dir n) (s, F) = map_option (\<lambda>s. (s, F)) (set_max_concurrent dir n s)"
| "streams_exec (OpSetSendWindow n) (s, F) = Some (set_send_window n s, F)"
| "streams_exec (OpSetReceiveWindow n) (s, F) = Some (snd (set_receive_window n s), F)"
| "streams_exec (RxParams params) (s, F) = Some (set_params params s, F)"
| "streams_exec (RxStream frame len) (s, F) = map_option (\<lambda>(_, s). (s, F)) (received frame len s)"
| "streams_exec (RxResetStream frame) (s, F) = map_option (\<lambda>(_, s). (s, F)) (received_reset frame s)"
| "streams_exec (RxStopSending i code) (s, F) = Some (received_stop_sending i code s, F)"
| "streams_exec (RxMaxData n) (s, F) = Some (received_max_data n s, F)"
| "streams_exec (RxMaxStreams dir n) (s, F) = Some (snd (received_max_streams dir n s), F)"
| "streams_exec (RxMaxStreamData i n) (s, F) = map_option (\<lambda>(_, s). (s, F)) (received_max_stream_data i n s)"
| "streams_exec (Acked m) (s, F) = map_option (\<lambda>s. (s, remove1 m F)) (received_ack_of m s)"
| "streams_exec (Lost m) (s, F) = map_option (\<lambda>s. (s, remove1 m F)) (retransmit m s)"
| "streams_exec (ResetAcked i) (s, F) = map_option (\<lambda>s. (s, F)) (reset_acked i s)"
| "streams_exec (TxStreams fair b) (s, F) =
     map_option (\<lambda>(s, b'). (s, rev (drop (length (sfr_stream_frames (pb_sent_frames b))) (sfr_stream_frames (pb_sent_frames b'))) @ F))
       (write_stream_frames fair s b)"
| "streams_exec (TxControl p b) (s, F) = map_option (\<lambda>(_, s, _). (s, F)) (write_control_frames p s b)"

text \<open>
  When an operation can happen: the application uses the ids that it was given, the peer does not
  finish a stream below data it has sent, only frames in flight are acknowledged or lost, numbers
  stay within what a variable-length integer holds, and the counter of the queue is not used up.
\<close>

fun streams_enabled :: "streams_op \<Rightarrow> streams_conn \<Rightarrow> bool" where
  "streams_enabled (OpWrite closed i src) (s, F) = (known s i \<and> 0 < pq_recency (st_pending s))"
| "streams_enabled (OpFinish i) (s, F) = (known s i \<and> 0 < pq_recency (st_pending s))"
| "streams_enabled (OpReset i code p) (s, F) = known s i"
| "streams_enabled (RxParams params) (s, F) = params_fit params s"
| "streams_enabled (RxStream frame len) (s, F) = (length (sf_data frame) \<le> len \<and> fin_above frame s)"
| "streams_enabled (RxMaxStreamData i n) (s, F) = (n < 2 ^ 62)"
| "streams_enabled (Acked m) (s, F) = (m \<in> set F)"
| "streams_enabled (Lost m) (s, F) = (m \<in> set F \<and> 0 < pq_recency (st_pending s))"
| "streams_enabled (TxStreams fair b) (s, F) =
     (pb_ok b \<and> pb_room b \<le> pq_recency (st_pending s) \<and> (\<forall>i. st_send s i \<noteq> None \<longrightarrow> sid i < 2 ^ 62))"
| "streams_enabled (TxControl p b) (s, F) = (pb_ok b \<and> control_sizes p s)"
| "streams_enabled _ _ = True"

definition streams_init :: "streams_conn \<Rightarrow> bool" where
  "streams_init c \<longleftrightarrow> (\<exists>side max_uni max_bi send_window receive_window stream_window s.
     receive_window \<le> u64_max \<and> c = (s, []) \<and>
     StreamsState_new side max_uni max_bi send_window receive_window stream_window = Some s)"

definition streams_step :: "streams_conn \<Rightarrow> streams_conn \<Rightarrow> bool" where
  "streams_step c c' \<longleftrightarrow> (\<exists>op. streams_enabled op c \<and> streams_exec op c = Some c')"

section \<open>Every operation keeps the invariant\<close>

lemma TxStreams_ok:
  assumes inv: "streams_inv s F" and b: "pb_ok b" "pb_room b \<le> pq_recency (st_pending s)" and ids: "\<And>i. st_send s i \<noteq> None \<Longrightarrow> sid i < 2 ^ 62"
  shows "\<exists>s' F'. streams_exec (TxStreams fair b) (s, F) = Some (s', F') \<and> streams_inv s' F'"
proof -
  obtain s' b' items where w: "write_stream_frames fair s b = Some (s', b')" "loop_result F s b items s' b'"
    using write_stream_frames_ok [OF inv ids b] by blast
  then have "streams_exec (TxStreams fair b) (s, F) = Some (s', rev (map fst items) @ F)"
    by (simp add: loop_result_def)
  then show ?thesis
    using w(2) unfolding loop_result_def by blast
qed

lemma streams_exec_ok:
  assumes inv: "streams_inv s F" and "streams_enabled op (s, F)"
  shows "\<exists>s' F'. streams_exec op (s, F) = Some (s', F') \<and> streams_inv s' F'"
proof (cases op)
  case (OpOpen closed dir)
  then show ?thesis
    using streams_open_ok [OF inv, of closed dir] by auto
next
  case (OpAccept dir)
  then show ?thesis
    using streams_accept_ok [OF inv] by simp
next
  case (OpWrite closed i src)
  then show ?thesis
    using SendStream_write_source_ok [OF inv, of i closed src] assms(2) by auto
next
  case (OpFinish i)
  then show ?thesis
    using SendStream_finish_ok [OF inv, of i] assms(2) by auto
next
  case (OpReset i code p)
  then show ?thesis
    using SendStream_reset_ok [OF inv, of i code p] assms(2) by auto
next
  case (OpSetPriority i n)
  then show ?thesis
    using SendStream_set_priority_ok [OF inv] by simp
next
  case (OpStop i code p)
  then show ?thesis
    using RecvStream_stop_ok [OF inv, of i code p] by auto
next
  case (OpReceivedReset i p)
  then show ?thesis
    using RecvStream_received_reset_ok [OF inv, of i p] by auto
next
  case (OpRead i ordered lengths p)
  then show ?thesis
    using read_stream_ok [OF inv, of i ordered lengths p] by auto
next
  case OpPoll
  then show ?thesis
    using streams_poll_ok [OF inv] by auto
next
  case (OpSetMaxConcurrent dir n)
  then show ?thesis
    using set_max_concurrent_ok [OF inv, of dir n] by auto
next
  case (RxParams params)
  then show ?thesis
    using set_params_ok [OF inv] assms(2) by simp
next
  case (RxStream frame len)
  then show ?thesis
    using received_ok [OF inv, of frame len] assms(2) by auto
next
  case (RxResetStream frame)
  then show ?thesis
    using received_reset_ok [OF inv, of frame] by auto
next
  case (RxMaxStreamData i n)
  then show ?thesis
    using received_max_stream_data_ok [OF inv, of n i] assms(2) by auto
next
  case (Acked m)
  then show ?thesis
    using received_ack_of_ok [OF inv, of m] assms(2) by auto
next
  case (Lost m)
  then show ?thesis
    using retransmit_ok [OF inv, of m] assms(2) by auto
next
  case (ResetAcked i)
  then show ?thesis
    using reset_acked_ok [OF inv, of i] by auto
next
  case (TxStreams fair b)
  then show ?thesis
    using TxStreams_ok [OF inv] assms(2) by simp
next
  case (TxControl p b)
  then show ?thesis
    using write_control_frames_ok [OF inv, of b p] assms(2) by auto
qed (use inv in \<open>simp_all add: simple_ops_ok set_receive_window_ok received_stop_sending_ok\<close>)

interpretation streams_life: invariant_system streams_init streams_step "\<lambda>(s, F). streams_inv s F"
proof unfold_locales
  fix c c'
  show "case c of (s, F) \<Rightarrow> streams_inv s F" if init: "streams_init c"
  proof -
    from init obtain side mu mb sw rw w s where c: "c = (s, [])" and s: "rw \<le> u64_max" "StreamsState_new side mu mb sw rw w = Some s"
      unfolding streams_init_def by blast
    show ?thesis
      using StreamsState_new_ok [OF s(1), of side mu mb sw w] s(2) c by auto
  qed
  show "case c' of (s, F) \<Rightarrow> streams_inv s F" if inv: "case c of (s, F) \<Rightarrow> streams_inv s F" and step: "streams_step c c'"
  proof -
    obtain s F where c: "c = (s, F)"
      by fastforce
    from step obtain op where op: "streams_enabled op c" "streams_exec op c = Some c'"
      unfolding streams_step_def by blast
    show ?thesis
      using streams_exec_ok [of s F op] inv op by (auto simp: c)
  qed
qed

lemma streams_reachable:
  assumes "streams_init c" and "streams_step\<^sup>*\<^sup>* c (s, F)"
  shows "streams_inv s F"
  using streams_life.inv_reachable [OF assms] by simp

section \<open>A run\<close>

text \<open>
  A client whose peer allows one stream opens it, gets credit and writes three bytes, which are sent.
\<close>

definition demo_stream :: StreamId where
  "demo_stream = StreamId_new Client Bi 0"

definition demo0 :: StreamsState where
  "demo0 = the (StreamsState_new Client 0 0 1000 1000 100)"

definition demo1 :: StreamsState where
  "demo1 = received_max_data 10 (snd (received_max_streams Bi 1 demo0))"

definition demo2 :: StreamsState where
  "demo2 = snd (the (streams_open False Bi demo1))"

definition demo3 :: StreamsState where
  "demo3 = snd (the (received_max_stream_data demo_stream 5 demo2))"

definition demo4 :: StreamsState where
  "demo4 = snd (snd (the (SendStream_write_source False demo_stream (ByteSlice [1, 2, 3]) demo3)))"

lemma demo0_new: "StreamsState_new Client 0 0 1000 1000 100 = Some demo0"
  by (simp add: demo0_def StreamsState_new_def Dir_iter_def Let_def)

lemmas demo0_eq = demo0_new [unfolded StreamsState_new_def Let_def Dir_iter_def, simplified, symmetric]

lemma demo1_eq: "demo1 = demo0\<lparr>st_max := (\<lambda>_. 0)(Bi := 1), st_events := [Available Bi], st_max_data := 10\<rparr>"
  by (simp add: demo1_def received_max_streams_def MAX_STREAM_COUNT_def demo0_eq received_max_data_def push_event_def fun_eq_iff)

lemma demo2_open: "streams_open False Bi demo1 = Some (Some demo_stream, demo2)"
  "demo2 = demo1\<lparr>st_next := (\<lambda>_. 0)(Bi := 1), st_send := [demo_stream \<mapsto> None], st_recv := [demo_stream \<mapsto> None], st_send_streams := 1\<rparr>"
  by (simp_all add: demo2_def streams_open_def streams_insert_def demo1_eq demo0_eq demo_stream_def Let_def)

lemma demo3_eq: "received_max_stream_data demo_stream 5 demo2 = Some (Inr (), demo3)"
  "demo3 = demo2\<lparr>st_send := [demo_stream \<mapsto> Some (Send_new 5)], st_events := [Available Bi, Writable demo_stream]\<rparr>"
  by (simp_all add: demo3_def received_max_stream_data_def demo2_open(2) demo1_eq demo0_eq write_limit_def demo_stream_def
    get_or_insert_send_def max_send_data_def Send_increase_max_data_def Send_new_def sb_new_def sbd_new_def sb_offset_def sbd_range_def Let_def put_send_def push_event_def
    on_stream_frame_def)

lemma demo4_eq: "SendStream_write_source False demo_stream (ByteSlice [1, 2, 3]) demo3 = Some (Inr \<lparr>w_bytes = 3, w_chunks = 1\<rparr>, ByteSlice [], demo4)"
  by (simp_all add: demo4_def SendStream_write_source_def demo3_eq(2) demo2_open(2) demo1_eq demo0_eq write_limit_def demo_stream_def
    get_or_insert_send_def max_send_data_def Send_new_def sb_new_def sbd_new_def sb_offset_def sbd_range_def Let_def put_send_def
    Send_write_def Send_is_writable_def Send_write_loop.simps pop_chunk_def ByteSlice_pop_def sb_write_def sbd_append_def Send_is_pending_def
    sb_has_unsent_data_def ars_is_empty_def push_pending_def pq_new_def u64_max_def)

definition demo_sent :: Send where
  "demo_sent = (Send_new 5)\<lparr>s_pending := \<lparr>sb_data = \<lparr>sbd_offset = 0, sbd_len = Suc (Suc (Suc 0)), sbd_segments = [], sbd_last_segment = [1, 2, 3]\<rparr>,
     sb_unsent = 0, sb_acks = [], sb_retransmits = []\<rparr>\<rparr>"

lemma demo4_rest: "st_send demo4 = [demo_stream \<mapsto> Some demo_sent]"
  "st_pending demo4 = \<lparr>pq_streams = [\<lparr>ps_priority = 0, ps_recency = u64_max - 1, ps_id = demo_stream\<rparr>], pq_next = None, pq_recency = u64_max - 1\<rparr>"
  by (simp_all add: demo4_def SendStream_write_source_def demo3_eq(2) demo2_open(2) demo1_eq demo0_eq write_limit_def demo_stream_def
    get_or_insert_send_def max_send_data_def Send_new_def sb_new_def sbd_new_def sb_offset_def sbd_range_def Let_def put_send_def
    Send_write_def Send_is_writable_def Send_write_loop.simps pop_chunk_def ByteSlice_pop_def sb_write_def sbd_append_def Send_is_pending_def
    sb_has_unsent_data_def ars_is_empty_def push_pending_def pq_new_def u64_max_def demo_sent_def MAX_COMBINE_def)

definition demo_packet :: PacketBuilder where
  "demo_packet = \<lparr>pb_buf = (TransmitBuf_new 1 100)\<lparr>tb_buf_capacity := 100, tb_num_datagrams := 1\<rparr>, pb_start = 0, pb_ack_eliciting = False,
     pb_min_size = 0, pb_tag_len = 16, pb_sent_frames = SentFrames_default\<rparr>"

lemma demo_sid: "sid demo_stream = 0"
  by (simp add: demo_stream_def StreamId_new_sum)

lemma demo_packet_room: "pb_ok demo_packet" "pb_room demo_packet = 84"
  by (simp_all add: pb_ok_def pb_room_def demo_packet_def TransmitBuf_new_def pb_len_def)

lemmas demo_eval = sb_poll_transmit_def sb_transmit_len_def demo_sent_def
    sb_offset_def sbd_range_def sat_add_def u64_max_def ars_is_empty_def Send_new_def Send_is_pending_def sb_has_unsent_data_def ars_pop_min_def Let_def

lemma demo_poll: "sb_poll_transmit 82 (s_pending demo_sent) = Some (((0, 3), True), (s_pending demo_sent)\<lparr>sb_unsent := 3\<rparr>)"
  by (simp add: demo_eval VarInt_size_nat)

lemma demo_header: "StreamMetaEncoder_encode \<lparr>sm_id = demo_stream, sm_offsets = (0, 3), sm_fin = False\<rparr> True = Some [10, 0, 3]"
  by (simp add: StreamMetaEncoder_encode_def StreamMeta_get_type_def demo_sid StreamId_encode_def write_varn_def write_var_def VarInt_from_u64_def
     VarInt_encode_def writes.simps put_u8_def be_bytes_def)

lemma demo_data: "sb_get_into (0, 3) ((s_pending demo_sent)\<lparr>sb_unsent := 3\<rparr>) = Some [1, 2, 3]"
  by (simp add: sb_get_into_def sbd_get_into_def demo_eval sbd_segments_iter_def slice_def)

definition demo_flight :: StreamMeta where
  "demo_flight = \<lparr>sm_id = demo_stream, sm_offsets = (0, 3), sm_fin = False\<rparr>"

definition demo5 :: StreamsState where
  "demo5 = put_send demo_stream (demo_sent\<lparr>s_pending := (s_pending demo_sent)\<lparr>sb_unsent := 3\<rparr>\<rparr>)
     (demo4\<lparr>st_pending := (st_pending demo4)\<lparr>pq_streams := []\<rparr>\<rparr>)"

lemma demo5_frame:
  "\<exists>c. write_stream_frame True demo_stream demo_sent (demo4\<lparr>st_pending := (st_pending demo4)\<lparr>pq_streams := []\<rparr>\<rparr>) demo_packet =
     Some (demo5, c) \<and> pb_ok c \<and> pb_room c = 78 \<and> sfr_stream_frames (pb_sent_frames c) = [demo_flight]"
proof -
  obtain c where c: "write_frame (EStreamMeta demo_flight True) demo_packet = Some c" "pb_ok c" "pb_room c = 81"
    "sfr_stream_frames (pb_sent_frames c) = [demo_flight]"
    using write_frame_ok [OF demo_packet_room(1), of "EStreamMeta demo_flight True" "[10, 0, 3]"] demo_header demo_packet_room(2)
    by (auto simp: demo_flight_def demo_packet_def SentFrames_default_def)
  have "\<not> Send_is_pending (demo_sent\<lparr>s_pending := (s_pending demo_sent)\<lparr>sb_unsent := 3\<rparr>\<rparr>)" "s_state demo_sent = Ready"
    by (simp_all add: demo_eval)
  then have "write_stream_frame True demo_stream demo_sent (demo4\<lparr>st_pending := (st_pending demo4)\<lparr>pq_streams := []\<rparr>\<rparr>) demo_packet =
      Some (demo5, c\<lparr>pb_buf := tb_put [1, 2, 3] (pb_buf c)\<rparr>)"
    using c(1)
    by (simp add: write_stream_frame_def frame_space_remaining_room demo_packet_room demo_sid VarInt_size_nat Let_def demo_poll
        demo_data demo5_def demo_flight_def)
  then show ?thesis
    using pb_put_ok [OF c(2), of "[1, 2, 3]"] c(3,4) by auto
qed

lemma demo5_sent: "streams_exec (TxStreams True demo_packet) (demo4, []) = Some (demo5, [demo_flight])"
proof -
  obtain c where c: "write_stream_frame True demo_stream demo_sent (demo4\<lparr>st_pending := (st_pending demo4)\<lparr>pq_streams := []\<rparr>\<rparr>) demo_packet =
     Some (demo5, c)" "pb_ok c" "pb_room c = 78" "sfr_stream_frames (pb_sent_frames c) = [demo_flight]"
    using demo5_frame by blast
  have "\<not> Send_is_reset demo_sent" "pq_pop (st_pending demo5) = (None, st_pending demo5)"
    by (simp_all add: demo_sent_def Send_new_def Send_is_reset_def demo5_def demo4_rest pq_pop_def)
  then have "write_stream_loop (Suc (Suc n)) True demo4 demo_packet = Some (demo5, c)" for n
    using c by (simp add: frame_space_remaining_room demo_packet_room Stream_SIZE_BOUND_def demo4_rest pq_pop_def Let_def)
  from this [of 84] have "write_stream_frames True demo4 demo_packet = Some (demo5, c)"
    by (simp add: write_stream_frames_def frame_space_remaining_room demo_packet_room demo4_rest pq_iter_def del: write_stream_loop.simps)
  then show ?thesis
    using c(4) by (simp add: demo_packet_def SentFrames_default_def)
qed

lemma demo_init: "streams_init (demo0, [])"
proof -
  have "(1000 :: nat) \<le> u64_max"
    by (simp add: u64_max_def)
  then show ?thesis
    unfolding streams_init_def using demo0_new by blast
qed

lemma streams_stepI: "streams_enabled op c \<Longrightarrow> streams_exec op c = Some c' \<Longrightarrow> streams_step c c'"
  unfolding streams_step_def by blast

lemma demo_run4: "streams_step\<^sup>*\<^sup>* (demo0, []) (demo4, [])"
proof -
  have "streams_step (demo0, []) (snd (received_max_streams Bi 1 demo0), [])"
    by (rule streams_stepI [of "RxMaxStreams Bi 1"]) simp_all
  moreover have "streams_step (snd (received_max_streams Bi 1 demo0), []) (demo1, [])"
    by (rule streams_stepI [of "RxMaxData 10"]) (simp_all add: demo1_def)
  moreover have "streams_step (demo1, []) (demo2, [])"
    by (rule streams_stepI [of "OpOpen False Bi"]) (simp_all add: demo2_open(1))
  moreover have "streams_step (demo2, []) (demo3, [])"
    by (rule streams_stepI [of "RxMaxStreamData demo_stream 5"]) (simp_all add: demo3_eq(1))
  moreover have "streams_step (demo3, []) (demo4, [])"
    by (rule streams_stepI [of "OpWrite False demo_stream (ByteSlice [1, 2, 3])"])
       (simp_all add: demo4_eq, simp add: known_def demo3_eq(2) demo2_open(2) demo1_eq demo0_eq demo_stream_def pq_new_def u64_max_def)
  ultimately show ?thesis
    by (meson converse_rtranclp_into_rtranclp rtranclp.rtrancl_refl)
qed

lemma demo4_enabled: "streams_enabled (TxStreams True demo_packet) (demo4, [])"
  by (auto simp: demo_packet_room demo4_rest demo_sid u64_max_def split: if_splits)

lemma demo_run5: "streams_step\<^sup>*\<^sup>* (demo0, []) (demo5, [demo_flight])"
  using demo_run4 streams_stepI [OF demo4_enabled demo5_sent] by (rule rtranclp.rtrancl_into_rtrancl)

section \<open>Properties\<close>





text \<open>
  C2: nothing is lost or duplicated.  In every reachable state, each byte of a stream that has been
  sent and whose stream is not reset is in exactly one place: acknowledged, waiting for
  retransmission, or in exactly one frame in flight.
\<close>

theorem streams_exactly_once:
  assumes "streams_init c" and "streams_step\<^sup>*\<^sup>* c (s, F)"
    and "st_send s i = Some (Some x)" and "\<not> Send_is_reset x" and "n < sb_unsent (s_pending x)"
  shows "of_bool (n \<in> sb_acked (s_pending x)) + of_bool (n \<in> ars_set (sb_retransmits (s_pending x))) +
     length (filter (\<lambda>m. sm_id m = i \<and> fst (sm_offsets m) \<le> n \<and> n < snd (sm_offsets m)) F) = (1 :: nat)"
proof -
  note inv = streams_reachable [OF assms(1,2)]
  have ok: "stream_ok x (flights F i)"
    using send_of_ok(1) [OF inv, of i] send_of_Some [OF assms(3)] assms(3) by simp
  have "length (filter (\<lambda>m. sm_id m = i \<and> fst (sm_offsets m) \<le> n \<and> n < snd (sm_offsets m)) F) =
      length (filter (\<lambda>r. n \<in> rset r) (flights F i))"
    by (induction F) (auto simp: flights_def rset_def)
  moreover have "holders (s_pending x) (flights F i) n \<le> of_bool (n < sb_unsent (s_pending x))"
    using ok by (simp add: stream_ok_def)
  moreover have "1 \<le> holders (s_pending x) (flights F i) n"
    using ok assms(4,5) by (simp add: stream_ok_def)
  ultimately show ?thesis
    using assms(5) by (simp add: holders_def)
qed

theorem streams_exactly_once_witness:
  "\<exists>x. st_send demo5 demo_stream = Some (Some x) \<and> 2 < sb_unsent (s_pending x) \<and>
     of_bool (2 \<in> sb_acked (s_pending x)) + of_bool (2 \<in> ars_set (sb_retransmits (s_pending x))) +
     length (filter (\<lambda>m. sm_id m = demo_stream \<and> fst (sm_offsets m) \<le> 2 \<and> 2 < snd (sm_offsets m)) [demo_flight]) = (1 :: nat)"
proof -
  define x where "x = demo_sent\<lparr>s_pending := (s_pending demo_sent)\<lparr>sb_unsent := 3\<rparr>\<rparr>"
  have "st_send demo5 demo_stream = Some (Some x)" "\<not> Send_is_reset x" "2 < sb_unsent (s_pending x)"
    by (simp_all add: x_def demo5_def demo_sent_def Send_new_def Send_is_reset_def)
  then show ?thesis
    using streams_exactly_once [OF demo_init demo_run5] by blast
qed

text \<open>
  C5: pending data is not forgotten.  In every reachable state, each stream that has data or a FIN to
  send and is not reset is in the queue of pending streams, so that the connection knows that it has
  something to send.
\<close>

theorem streams_pending_queued:
  assumes "streams_init c" and "streams_step\<^sup>*\<^sup>* c (s, F)"
    and "st_send s i = Some (Some x)" and "Send_is_pending x" and "\<not> Send_is_reset x"
  shows "i \<in> ps_id ` set (pq_iter (st_pending s)) \<and> can_send_stream_data s"
proof -
  have "i \<in> queued_ids (st_pending s)"
    using streams_reachable [OF assms(1,2)] assms(3-5) by (auto simp: streams_inv_def queue_ok_def)
  then show ?thesis
    using assms(3,5) by (auto simp: queued_ids_def can_send_stream_data_def list_ex_iff intro!: bexI)
qed

theorem streams_pending_queued_witness:
  "demo_stream \<in> ps_id ` set (pq_iter (st_pending demo4)) \<and> can_send_stream_data demo4"
  by (rule streams_pending_queued [OF demo_init demo_run4, where x = demo_sent])
     (simp_all add: demo4_rest demo_eval Send_is_reset_def)

text \<open>
  C3: a packet of STREAM frames is what it should be.  In every reachable state, filling a packet
  succeeds; what is written fits and decodes to a sequence of STREAM frames; every frame carries the
  bytes that the application wrote at its offsets, with FIN exactly if it ends at the end of a
  finished stream; the frames are recorded with the packet; and afterwards nothing is pending or
  the packet has no room for another frame.
\<close>

theorem streams_packet:
  assumes "streams_init c" and "streams_step\<^sup>*\<^sup>* c (s, F)" and "streams_enabled (TxStreams fair b) (s, F)"
  shows "\<exists>s' b' payload items. write_stream_frames fair s b = Some (s', b') \<and>
     tb_buf (pb_buf b') = tb_buf (pb_buf b) @ payload \<and> length payload \<le> pb_room b \<and>
     (\<forall>ty. Iter_frames \<lparr>it_bytes = payload, it_last_ty = ty\<rparr> = map (\<lambda>(m, d). Inr (stream_frame m d)) items) \<and>
     sfr_stream_frames (pb_sent_frames b') = sfr_stream_frames (pb_sent_frames b) @ map fst items \<and>
     (\<forall>(m, d) \<in> set items. \<exists>x. st_send s (sm_id m) = Some (Some x) \<and> \<not> Send_is_reset x \<and>
        (\<forall>xs. Send_inv xs x \<longrightarrow> d = slice (fst (sm_offsets m)) (snd (sm_offsets m)) xs \<and>
           (sm_fin m \<longleftrightarrow> snd (sm_offsets m) = length xs \<and> s_state x \<noteq> Ready))) \<and>
     (pb_room b' \<le> Stream_SIZE_BOUND \<or> pq_iter (st_pending s') = [])"
proof -
  have "\<And>i. st_send s i \<noteq> None \<Longrightarrow> sid i < 2 ^ 62" "pb_ok b" "pb_room b \<le> pq_recency (st_pending s)"
    using assms(3) by auto
  from write_stream_frames_ok [OF streams_reachable [OF assms(1,2)] this, of fair] obtain s' b' its where
    w: "write_stream_frames fair s b = Some (s', b')" and res: "loop_result F s b its s' b'"
    by blast
  from loop_result_decodes [OF res] obtain payload where p: "tb_buf (pb_buf b') = tb_buf (pb_buf b) @ payload"
    "length payload \<le> pb_room b"
    "\<forall>ty. Iter_frames \<lparr>it_bytes = payload, it_last_ty = ty\<rparr> = map (\<lambda>(m, enc, d). Inr (stream_frame m d)) its"
    by blast
  define items where "items = map (\<lambda>(m, enc, d). (m, d)) its"
  have "map (\<lambda>(m, enc, d). Inr (stream_frame m d)) its = (map (\<lambda>(m, d). Inr (stream_frame m d)) items :: (InvalidFrame + Frame) list)"
    "map fst items = map fst its"
    by (auto simp: items_def)
  moreover have "\<exists>x. st_send s (sm_id m) = Some (Some x) \<and> \<not> Send_is_reset x \<and>
        (\<forall>xs. Send_inv xs x \<longrightarrow> d = slice (fst (sm_offsets m)) (snd (sm_offsets m)) xs \<and>
           (sm_fin m \<longleftrightarrow> snd (sm_offsets m) = length xs \<and> s_state x \<noteq> Ready))" if md: "(m, d) \<in> set items" for m d
  proof -
    obtain enc where "(m, enc, d) \<in> set its"
      using md by (auto simp: items_def)
    then have "carries s m d"
      using res by (auto simp: loop_result_def)
    then show ?thesis
      using carries_bytes by blast
  qed
  ultimately show ?thesis
    using w res p by (intro exI [of _ s'] exI [of _ b'] exI [of _ payload] exI [of _ items]) (auto simp: loop_result_def)
qed

theorem streams_packet_witness:
  "\<exists>s' b' payload items. write_stream_frames True demo4 demo_packet = Some (s', b') \<and> sfr_stream_frames (pb_sent_frames b') = map fst items \<and>
     tb_buf (pb_buf b') = payload \<and> (\<forall>ty. Iter_frames \<lparr>it_bytes = payload, it_last_ty = ty\<rparr> = map (\<lambda>(m, d). Inr (stream_frame m d)) items)"
  using streams_packet [OF demo_init demo_run4 demo4_enabled]
  by (auto simp: demo_packet_def SentFrames_default_def TransmitBuf_new_def)

end
