(* ===== verification/Streams_Findings.thy ===== *)
theory Streams_Findings
  imports Streams_System
begin

text \<open>
  Behaviours of the streams that do not match their documentation: a reset that underflows, and a
  stream that is reported to the application although it does not exist.
\<close>

section \<open>A reset after a FIN below received data\<close>

definition bad_stream :: StreamId where
  "bad_stream = StreamId_new Server Uni 0"

definition bad_data :: StreamFrame where
  "bad_data = \<lparr>sf_id = bad_stream, sf_offset = 0, sf_fin = False, sf_data = [1, 2, 3]\<rparr>"

definition bad_fin :: StreamFrame where
  "bad_fin = \<lparr>sf_id = bad_stream, sf_offset = 1, sf_fin = True, sf_data = []\<rparr>"

definition bad_reset :: ResetStream where
  "bad_reset = \<lparr>rs_id = bad_stream, rs_error_code = VarInt 0, rs_final_offset = VarInt 1\<rparr>"

lemma bad_initial:
  "\<exists>s. StreamsState_new Client 1 0 1000 1000 100 = Some s \<and> st_side s = Client \<and> st_max_remote s Uni = 1 \<and>
     st_recv s bad_stream = Some None \<and> st_stream_receive_window s = 100 \<and> st_data_recvd s = 0 \<and> st_local_max_data s = 1000 \<and>
     st_next_remote s Uni = 0"
  by (simp add: StreamsState_new_def Dir_iter_def Let_def insert_remote_def streams_insert_def bad_stream_def)

lemmas recv_eval = received_def validate_receive_id_def Let_def get_or_insert_recv_def Recv_ingest_def Recv_credit_consumed_by_def
  Recv_new_def Recv_final_offset_def Recv_is_receiving_def on_stream_frame_def put_recv_def push_event_def sat_add_def u64_max_def
  Assembler_insert_def Assembler_add_def Assembler_push_def Assembler_new_def Buffer_new_def

text \<open>
  C38: a peer can make the reset of a stream underflow.  After data up to offset 3, a FIN with final
  size 1 is accepted; a RESET_STREAM with the same final size then computes \<open>final_offset - end\<close>
  with \<open>end\<close> above the final offset, although the comment there says that it cannot underflow.
\<close>

theorem reset_underflow:
  "\<exists>s s1 s2. StreamsState_new Client 1 0 1000 1000 100 = Some s \<and> received bad_data 3 s = Some (Inr False, s1) \<and>
     received bad_fin 0 s1 = Some (Inr False, s2) \<and> received_reset bad_reset s2 = None"
proof -
  obtain s where new: "StreamsState_new Client 1 0 1000 1000 100 = Some s" and s: "st_side s = Client" "st_max_remote s Uni = 1"
    "st_recv s bad_stream = Some None" "st_stream_receive_window s = 100" "st_data_recvd s = 0" "st_local_max_data s = 1000"
    "st_next_remote s Uni = 0"
    using bad_initial by blast
  define i where "i = bad_stream"
  have i: "StreamId_initiator i = Server" "StreamId_dir i = Uni" "StreamId_index i = 0"
    by (simp_all add: i_def bad_stream_def)
  obtain s1 r a where s1: "received bad_data 3 s = Some (Inr False, s1)" "st_side s1 = Client" "st_max_remote s1 Uni = 1"
     "st_stream_receive_window s1 = 100" "st_data_recvd s1 = 3" "st_local_max_data s1 = 1000" "st_next_remote s1 Uni = 1"
     "st_recv s1 i = Some (Some (Open r))" and r: "r_end r = 3" "r_state r = Receiving None" "\<not> r_stopped r" "r_sent_max_stream_data r = 100"
       "Assembler_insert 1 [] 0 (r_assembler r) = Some a" "a_bytes_read a = 0"
    using s i by (simp add: recv_eval bad_data_def i_def [symmetric])
  obtain s2 r2 where s2: "received bad_fin 0 s1 = Some (Inr False, s2)" "st_side s2 = Client" "st_max_remote s2 Uni = 1"
     "st_stream_receive_window s2 = 100" "st_data_recvd s2 = 3" "st_local_max_data s2 = 1000"
     "st_recv s2 i = Some (Some (Open r2))" and r2: "r_end r2 = 3" "r_state r2 = Receiving (Some 1)" "\<not> r_stopped r2"
       "r_sent_max_stream_data r2 = 100" "a_bytes_read (r_assembler r2) = 0"
    using s1(2-) r i
    by (simp add: received_def validate_receive_id_def Let_def get_or_insert_recv_def Recv_ingest_def Recv_credit_consumed_by_def
        Recv_final_offset_def Recv_is_receiving_def on_stream_frame_def put_recv_def push_event_def sat_add_def u64_max_def
        bad_fin_def i_def [symmetric])
  have "received_reset bad_reset s2 = None"
    using s2(2-) r2 i
    by (simp add: received_reset_def validate_receive_id_def Let_def get_or_insert_recv_def Recv_reset_def Recv_credit_consumed_by_def
        Recv_final_offset_def on_stream_frame_def put_recv_def push_event_def bad_reset_def i_def [symmetric] Assembler_clear_def csub_def)
  then show ?thesis
    using new s1(1) s2(1) by blast
qed

section \<open>A stream that does not exist\<close>

definition ghost_stream :: StreamId where
  "ghost_stream = StreamId_new Server Bi 7"


end
