(* ===== verification/Cid_Queue.thy ===== *)
theory Cid_Queue
  imports Retransmits
begin

text \<open>
  The connection ids issued by the peer, \<open>noq-proto/src/cid_queue.rs\<close>: a ring buffer of
  \<open>CidQueue::LEN\<close> slots with an active id, a region of ids reserved for probing packets and a
  region of unused ids, with gaps where an id has not arrived.  The specification is a partial map
  from sequence numbers to ids with the sequence numbers of the active and of the last reserved id;
  every operation of the ring buffer implements the operation of the map.
\<close>

section \<open>The ring buffer\<close>

datatype CidData = CidData ConnectionId "byte list option"

datatype InsertError = Retired | ExceedsLimit

record CidQueue =
  cq_buffer :: "CidData option list"
  cq_cursor :: nat
  cq_offset :: nat
  cq_cursor_reserved :: nat

definition CidQueue_LEN :: nat where
  "CidQueue_LEN = 5"

definition CidQueue_new :: "ConnectionId \<Rightarrow> CidQueue" where
  "CidQueue_new cid =
     \<lparr>cq_buffer = (replicate CidQueue_LEN None)[0 := Some (CidData cid None)],
      cq_cursor = 0, cq_offset = 0, cq_cursor_reserved = 0\<rparr>"

definition reserved_len :: "CidQueue \<Rightarrow> nat option" where
  "reserved_len q =
     (if cq_cursor_reserved q \<ge> cq_cursor q then Some (cq_cursor_reserved q - cq_cursor q)
      else csub (cq_cursor_reserved q + CidQueue_LEN) (cq_cursor q))"

definition iter_from_active :: "CidQueue \<Rightarrow> (nat \<times> CidData) list" where
  "iter_from_active q =
     List.map_filter (\<lambda>k. map_option (Pair k) (cq_buffer q ! ((cq_cursor q + k) mod CidQueue_LEN)))
       [0..<CidQueue_LEN]"

definition iter_from_reserved :: "CidQueue \<Rightarrow> (nat \<times> CidData) list option" where
  "iter_from_reserved q = do {
     r \<leftarrow> reserved_len q;
     n \<leftarrow> csub CidQueue_LEN r;
     Some (List.map_filter
       (\<lambda>k. map_option (Pair k) (cq_buffer q ! ((cq_cursor_reserved q + k) mod CidQueue_LEN))) [0..<n]) }"

definition clear_slots :: "nat \<Rightarrow> nat list \<Rightarrow> CidData option list \<Rightarrow> CidData option list" where
  "clear_slots c ks buf = fold (\<lambda>k b. b[(c + k) mod CidQueue_LEN := None]) ks buf"

definition CidQueue_insert :: "NewConnectionId \<Rightarrow> CidQueue \<Rightarrow>
    ((InsertError + (range \<times> byte list) option) \<times> CidQueue) option" where
  "CidQueue_insert cid q =
     (if ncid_sequence cid < cq_offset q then Some (Inl Retired, q)
      else
        let index = ncid_sequence cid - cq_offset q;
            retired_count = ncid_retire_prior_to cid - cq_offset q in
        if index \<ge> CidQueue_LEN + retired_count then Some (Inl ExceedsLimit, q)
        else
          let buf = clear_slots (cq_cursor q) [0..<min retired_count CidQueue_LEN] (cq_buffer q);
              buf = buf[(cq_cursor q + index) mod CidQueue_LEN :=
                          Some (CidData (ncid_id cid) (Some (ncid_reset_token cid)))];
              q = q\<lparr>cq_buffer := buf\<rparr> in
          if retired_count = 0 then Some (Inr None, q)
          else
            let q = q\<lparr>cq_cursor := (cq_cursor q + retired_count) mod CidQueue_LEN\<rparr> in
            case iter_from_active q of
              [] \<Rightarrow> None
            | (i, CidData _ token) # _ \<Rightarrow>
                let cursor = (cq_cursor q + i) mod CidQueue_LEN;
                    orig_offset = cq_offset q;
                    q = q\<lparr>cq_cursor := cursor, cq_cursor_reserved := cursor,
                          cq_offset := ncid_retire_prior_to cid + i\<rparr> in
                (case token of
                   None \<Rightarrow> None
                 | Some token \<Rightarrow>
                     Some (Inr (Some ((orig_offset, min (cq_offset q) (orig_offset + CidQueue_LEN)), token)), q)))"

definition CidQueue_next :: "CidQueue \<Rightarrow> ((byte list \<times> range) option \<times> CidQueue) option" where
  "CidQueue_next q = do {
     ids \<leftarrow> iter_from_reserved q;
     case ids of
       _ # (i, CidData _ token) # _ \<Rightarrow> do {
         reserved \<leftarrow> reserved_len q;
         let orig_offset = cq_offset q;
         let cursor = (cq_cursor_reserved q + i) mod CidQueue_LEN;
         let q = q\<lparr>cq_buffer := clear_slots (cq_cursor q) [0..<Suc reserved] (cq_buffer q),
                   cq_offset := orig_offset + (i + reserved),
                   cq_cursor := cursor, cq_cursor_reserved := cursor\<rparr>;
         case token of None \<Rightarrow> None | Some token \<Rightarrow> Some (Some (token, (orig_offset, cq_offset q)), q) }
     | _ \<Rightarrow> Some (None, q) }"

definition CidQueue_next_reserved :: "CidQueue \<Rightarrow> (ConnectionId option \<times> CidQueue) option" where
  "CidQueue_next_reserved q = do {
     ids \<leftarrow> iter_from_reserved q;
     case ids of
       _ # (i, CidData c _) # _ \<Rightarrow>
         Some (Some c, q\<lparr>cq_cursor_reserved := (cq_cursor_reserved q + i) mod CidQueue_LEN\<rparr>)
     | _ \<Rightarrow> Some (None, q) }"

definition CidQueue_remaining :: "CidQueue \<Rightarrow> nat option" where
  "CidQueue_remaining q = do { ids \<leftarrow> iter_from_reserved q; csub (length ids) 1 }"

definition CidQueue_update_initial_cid :: "ConnectionId \<Rightarrow> CidQueue \<Rightarrow> CidQueue option" where
  "CidQueue_update_initial_cid cid q = do {
     assert_opt (cq_offset q = 0);
     Some (q\<lparr>cq_buffer := (cq_buffer q)[cq_cursor q := Some (CidData cid None)]\<rparr>) }"

definition CidQueue_active :: "CidQueue \<Rightarrow> ConnectionId option" where
  "CidQueue_active q = map_option (\<lambda>d. case d of CidData c _ \<Rightarrow> c) (cq_buffer q ! cq_cursor q)"

definition CidQueue_active_seq :: "CidQueue \<Rightarrow> nat" where
  "CidQueue_active_seq q = cq_offset q"

section \<open>The specification\<close>

record CidWindow =
  cw_cids :: "nat \<rightharpoonup> CidData"
  cw_active :: nat
  cw_reserved :: nat

text \<open>The first known id with a sequence number of at least \<open>n\<close>.\<close>

definition first_from :: "nat \<Rightarrow> (nat \<rightharpoonup> CidData) \<Rightarrow> nat" where
  "first_from n m = (LEAST i. n \<le> i \<and> m i \<noteq> None)"

fun cid_of :: "CidData \<Rightarrow> ConnectionId" where
  "cid_of (CidData c _) = c"

fun token_of :: "CidData \<Rightarrow> byte list option" where
  "token_of (CidData _ t) = t"

definition window_ok :: "CidWindow \<Rightarrow> bool" where
  "window_ok w \<longleftrightarrow> cw_active w \<in> dom (cw_cids w) \<and> cw_reserved w \<in> dom (cw_cids w)
     \<and> cw_active w \<le> cw_reserved w \<and> dom (cw_cids w) \<subseteq> {cw_active w..<cw_active w + CidQueue_LEN}
     \<and> (\<forall>n d. 0 < n \<longrightarrow> cw_cids w n = Some d \<longrightarrow> token_of d \<noteq> None)"

definition window_insert :: "NewConnectionId \<Rightarrow> CidWindow \<Rightarrow>
    (InsertError + (range \<times> byte list) option) \<times> CidWindow" where
  "window_insert cid w =
     (let n = ncid_sequence cid; p = ncid_retire_prior_to cid; a = cw_active w;
          m = ((cw_cids w)(n \<mapsto> CidData (ncid_id cid) (Some (ncid_reset_token cid)))) |` {p..};
          b = first_from p m in
      if n < a then (Inl Retired, w)
      else if n \<ge> max a p + CidQueue_LEN then (Inl ExceedsLimit, w)
      else if p \<le> a then (Inr None, w\<lparr>cw_cids := m\<rparr>)
      else (Inr (Some ((a, min b (a + CidQueue_LEN)), the (token_of (the (m b))))),
            \<lparr>cw_cids = m, cw_active = b, cw_reserved = b\<rparr>))"

definition window_next :: "CidWindow \<Rightarrow> (byte list \<times> range) option \<times> CidWindow" where
  "window_next w =
     (let r = cw_reserved w; m = cw_cids w; b = first_from (Suc r) m in
      if dom m \<subseteq> {..r} then (None, w)
      else (Some (the (token_of (the (m b))), (cw_active w, b)),
            \<lparr>cw_cids = m |` {b..}, cw_active = b, cw_reserved = b\<rparr>))"

definition window_next_reserved :: "CidWindow \<Rightarrow> ConnectionId option \<times> CidWindow" where
  "window_next_reserved w =
     (let r = cw_reserved w; m = cw_cids w; b = first_from (Suc r) m in
      if dom m \<subseteq> {..r} then (None, w)
      else (Some (cid_of (the (m b))), w\<lparr>cw_reserved := b\<rparr>))"

definition window_update_initial_cid :: "ConnectionId \<Rightarrow> CidWindow \<Rightarrow> CidWindow" where
  "window_update_initial_cid cid w = w\<lparr>cw_cids := (cw_cids w)(cw_active w \<mapsto> CidData cid None)\<rparr>"

text \<open>The map that a ring buffer stands for.\<close>

definition slot :: "CidQueue \<Rightarrow> nat \<Rightarrow> CidData option" where
  "slot q k = (if k < CidQueue_LEN then cq_buffer q ! ((cq_cursor q + k) mod CidQueue_LEN) else None)"

definition res_len :: "CidQueue \<Rightarrow> nat" where
  "res_len q = (cq_cursor_reserved q + CidQueue_LEN - cq_cursor q) mod CidQueue_LEN"

definition window :: "CidQueue \<Rightarrow> CidWindow" where
  "window q =
     \<lparr>cw_cids = (\<lambda>n. if cq_offset q \<le> n then slot q (n - cq_offset q) else None),
      cw_active = cq_offset q,
      cw_reserved = cq_offset q + res_len q\<rparr>"

definition cq_inv :: "CidQueue \<Rightarrow> bool" where
  "cq_inv q \<longleftrightarrow> length (cq_buffer q) = CidQueue_LEN \<and> cq_cursor q < CidQueue_LEN
     \<and> cq_cursor_reserved q < CidQueue_LEN \<and> window_ok (window q)"

section \<open>Generic facts about the ring\<close>

definition ids_from :: "(nat \<Rightarrow> CidData option) \<Rightarrow> nat \<Rightarrow> nat \<Rightarrow> (nat \<times> CidData) list" where
  "ids_from g a n = List.map_filter (\<lambda>k. map_option (Pair k) (g k)) [a..<n]"

lemma ids_from_step:
  "a < n \<Longrightarrow> ids_from g a n =
     (case g a of None \<Rightarrow> ids_from g (Suc a) n | Some d \<Rightarrow> (a, d) # ids_from g (Suc a) n)"
  by (simp add: ids_from_def upt_conv_Cons map_filter_simps split: option.split)

lemma ids_from_end [simp]: "n \<le> a \<Longrightarrow> ids_from g a n = []"
  by (simp add: ids_from_def map_filter_simps)

lemma ids_from_alt:
  "(ids_from g a n = [] \<and> (\<forall>k. a \<le> k \<and> k < n \<longrightarrow> g k = None)) \<or>
   (\<exists>i d. ids_from g a n = (i, d) # ids_from g (Suc i) n \<and> a \<le> i \<and> i < n \<and> g i = Some d
      \<and> (\<forall>k. a \<le> k \<and> k < i \<longrightarrow> g k = None))"
proof (induction "n - a" arbitrary: a)
  case (Suc m)
  then have a: "a < n" and IH: "m = n - Suc a"
    by simp_all
  show ?case
  proof (cases "g a")
    case None
    then have none: "(\<forall>k. a \<le> k \<and> k < j \<longrightarrow> g k = None) \<longleftrightarrow> (\<forall>k. Suc a \<le> k \<and> k < j \<longrightarrow> g k = None)" for j
      by (metis Suc_leD Suc_leI order_le_less)
    have "ids_from g a n = ids_from g (Suc a) n"
      using ids_from_step [OF a] None by simp
    then show ?thesis
      using Suc(1) [OF IH] unfolding none by (metis Suc_leD)
  next
    case (Some d)
    then have "ids_from g a n = (a, d) # ids_from g (Suc a) n"
      using ids_from_step [OF a] by simp
    then show ?thesis
      using Some a by auto
  qed
qed auto

lemma map_filter_same:
  "(\<And>x. x \<in> set xs \<Longrightarrow> f x = g x) \<Longrightarrow> List.map_filter f xs = List.map_filter g xs"
  by (induction xs) (auto simp: map_filter_simps split: option.split)

lemma ring_le:
  assumes "(c + j) mod n = (c + k) mod n" and "j \<le> k" and "k < (n :: nat)"
  shows "j = k"
proof -
  have "n dvd (c + k) - (c + j)"
    using assms(1,2) mod_eq_dvd_iff_nat [of "c + j" "c + k" n] by simp
  then show ?thesis
    using assms(2,3) by (auto dest: dvd_imp_le)
qed

lemma ring_eq:
  assumes "j < CidQueue_LEN" and "k < CidQueue_LEN"
  shows "(c + j) mod CidQueue_LEN = (c + k) mod CidQueue_LEN \<longleftrightarrow> j = k"
  using assms ring_le [of c j CidQueue_LEN k] ring_le [of c k CidQueue_LEN j] by (metis nat_le_linear)

lemma clear_slots_length [simp]: "length (clear_slots c ks buf) = length buf"
  unfolding clear_slots_def by (induction ks arbitrary: buf) simp_all

lemma clear_slots_nth:
  assumes "length buf = CidQueue_LEN" and "n \<le> CidQueue_LEN" and "k < CidQueue_LEN"
  shows "clear_slots c [0..<n] buf ! ((c + k) mod CidQueue_LEN) =
    (if k < n then None else buf ! ((c + k) mod CidQueue_LEN))"
  using assms(2)
proof (induction n)
  case (Suc n)
  have "(c + k) mod CidQueue_LEN < length (clear_slots c [0..<n] buf)"
    using assms(1) by (simp add: CidQueue_LEN_def)
  moreover have "clear_slots c [0..<Suc n] buf = (clear_slots c [0..<n] buf)[(c + n) mod CidQueue_LEN := None]"
    by (simp add: clear_slots_def)
  ultimately show ?case
    using Suc ring_eq [of n k c] assms(3) by (auto simp: nth_list_update)
qed (simp add: clear_slots_def)

lemma slot_clear:
  assumes "length (cq_buffer q) = CidQueue_LEN" and "n \<le> CidQueue_LEN"
  shows "slot (q\<lparr>cq_buffer := clear_slots (cq_cursor q) [0..<n] (cq_buffer q)\<rparr>) k = (if k < n then None else slot q k)"
  using assms clear_slots_nth by (auto simp: slot_def)

lemma slot_upd:
  assumes "length (cq_buffer q) = CidQueue_LEN" and "m < CidQueue_LEN"
  shows "slot (q\<lparr>cq_buffer := (cq_buffer q)[(cq_cursor q + m) mod CidQueue_LEN := x]\<rparr>) k = (if k = m then x else slot q k)"
proof (cases "k < CidQueue_LEN")
  case True
  have "(cq_cursor q + m) mod CidQueue_LEN < length (cq_buffer q)"
    using assms(1) by (simp add: CidQueue_LEN_def)
  then show ?thesis
    using assms True ring_eq [of m k "cq_cursor q"] by (auto simp: slot_def nth_list_update)
qed (use assms in \<open>auto simp: slot_def\<close>)

text \<open>Moving the cursor over empty slots keeps what is stored.\<close>

lemma slot_advance:
  assumes "\<And>j. j < i \<Longrightarrow> slot q j = None"
    and "cq_buffer q' = cq_buffer q" and "cq_cursor q' = (cq_cursor q + i) mod CidQueue_LEN"
  shows "slot q' k = slot q (i + k)"
proof (cases "k < CidQueue_LEN")
  case True
  let ?j = "(i + k) mod CidQueue_LEN"
  have "((cq_cursor q + i) mod CidQueue_LEN + k) mod CidQueue_LEN = (cq_cursor q + ?j) mod CidQueue_LEN"
    by (simp add: mod_simps add.assoc)
  moreover have j: "?j < CidQueue_LEN"
    by (simp add: CidQueue_LEN_def)
  ultimately have eq: "slot q' k = slot q ?j"
    using True assms(2,3) by (simp add: slot_def)
  show ?thesis
  proof (cases "i + k < CidQueue_LEN")
    case False
    then have "?j < i"
      using True mod_less_divisor [of CidQueue_LEN "i + k"] le_mod_geq [of CidQueue_LEN "i + k"] mod_less_eq_dividend [of "i + k - CidQueue_LEN" CidQueue_LEN]
      by (cases "i < CidQueue_LEN") (auto simp: CidQueue_LEN_def)
    then show ?thesis
      using False assms unfolding eq by (simp add: slot_def)
  qed (simp add: eq)
qed (simp add: slot_def)

lemma iter_from_active_eq: "iter_from_active q = ids_from (slot q) 0 CidQueue_LEN"
  unfolding iter_from_active_def ids_from_def by (rule map_filter_same) (simp add: slot_def)

lemma ring_distance:
  assumes "c < CidQueue_LEN" and "r < CidQueue_LEN"
  shows "(r + CidQueue_LEN - c) mod CidQueue_LEN = (if c \<le> r then r - c else r + CidQueue_LEN - c)"
proof (cases "c \<le> r")
  case True
  then have "r + CidQueue_LEN - c = r - c + CidQueue_LEN" by simp
  then show ?thesis
    using True assms(2) by (simp del: diff_add_assoc2 add_diff_assoc2)
qed (use assms in simp)

lemma reserved_len_eq:
  assumes "cq_cursor q < CidQueue_LEN" and "cq_cursor_reserved q < CidQueue_LEN"
  shows "reserved_len q = Some (res_len q)" and "res_len q < CidQueue_LEN"
    and "cq_cursor_reserved q = (cq_cursor q + res_len q) mod CidQueue_LEN"
  using assms by (auto simp: reserved_len_def res_len_def ring_distance csub_def)

lemma iter_from_reserved_eq:
  assumes "cq_cursor q < CidQueue_LEN" and "cq_cursor_reserved q < CidQueue_LEN"
  shows "iter_from_reserved q = Some (ids_from (\<lambda>k. slot q (res_len q + k)) 0 (CidQueue_LEN - res_len q))"
proof -
  note r = reserved_len_eq [OF assms]
  have "cq_buffer q ! ((cq_cursor_reserved q + k) mod CidQueue_LEN) = slot q (res_len q + k)"
    if "k < CidQueue_LEN - res_len q" for k
  proof -
    have "(cq_cursor_reserved q + k) mod CidQueue_LEN = (cq_cursor q + (res_len q + k)) mod CidQueue_LEN"
      using r by (metis add.assoc mod_add_left_eq)
    moreover have "res_len q + k < CidQueue_LEN"
      using that r(2) by arith
    ultimately show ?thesis
      by (simp add: slot_def)
  qed
  then show ?thesis
    using r unfolding iter_from_reserved_def ids_from_def by (auto intro!: map_filter_same)
qed

section \<open>Every operation implements its specification\<close>

lemma window_simps [simp]:
  "cw_active (window q) = cq_offset q"
  "cw_reserved (window q) = cq_offset q + res_len q"
  by (simp_all add: window_def)

lemma window_cids: "cw_cids (window q) n = (if cq_offset q \<le> n then slot q (n - cq_offset q) else None)"
  by (simp add: window_def)

lemma window_cids_add [simp]: "cw_cids (window q) (cq_offset q + k) = slot q k"
  by (simp add: window_cids)

lemma res_len_same [simp]: "cq_cursor q = cq_cursor_reserved q \<Longrightarrow> res_len q = 0"
  by (simp add: res_len_def)

lemma first_from_eq:
  assumes "n \<le> i" and "m i \<noteq> None" and "\<And>j. n \<le> j \<Longrightarrow> j < i \<Longrightarrow> m j = None"
  shows "first_from n m = i"
  unfolding first_from_def using assms by (intro Least_equality) (auto simp: not_less [symmetric])

lemma CidQueue_new_ok:
  "cq_inv (CidQueue_new cid)"
  "window (CidQueue_new cid) = \<lparr>cw_cids = [0 \<mapsto> CidData cid None], cw_active = 0, cw_reserved = 0\<rparr>"
proof -
  have slot: "slot (CidQueue_new cid) k = (if k = 0 then Some (CidData cid None) else None)" for k
    by (auto simp: slot_def CidQueue_new_def CidQueue_LEN_def nth_list_update)
  then show win: "window (CidQueue_new cid) = \<lparr>cw_cids = [0 \<mapsto> CidData cid None], cw_active = 0, cw_reserved = 0\<rparr>"
    by (auto simp: window_def fun_eq_iff CidQueue_new_def res_len_def)
  show "cq_inv (CidQueue_new cid)"
    unfolding cq_inv_def win window_ok_def by (simp add: CidQueue_new_def CidQueue_LEN_def)
qed

lemma cq_inv_slot:
  assumes "cq_inv q"
  shows "\<exists>d. slot q 0 = Some d" "\<exists>d. slot q (res_len q) = Some d"
    and "slot q k = Some d \<Longrightarrow> 0 < cq_offset q + k \<Longrightarrow> \<exists>c t. d = CidData c (Some t)"
proof -
  have ok: "window_ok (window q)"
    using assms by (simp add: cq_inv_def)
  show "\<exists>d. slot q 0 = Some d" "\<exists>d. slot q (res_len q) = Some d"
    using ok window_cids_add [of q 0] by (auto simp: window_ok_def)
  show "\<exists>c t. d = CidData c (Some t)" if "slot q k = Some d" "0 < cq_offset q + k"
  proof -
    have "token_of d \<noteq> None"
      using ok that window_cids_add [of q k] unfolding window_ok_def by metis
    then show ?thesis
      by (cases d) auto
  qed
qed

text \<open>What the iterator over the unused ids finds.\<close>

lemma reserved_ids:
  assumes "cq_inv q"
  shows "\<exists>d0 ids. iter_from_reserved q = Some ((0, d0) # ids) \<and>
    ((ids = [] \<and> dom (cw_cids (window q)) \<subseteq> {..cw_reserved (window q)}) \<or>
     (\<exists>i c t rest. ids = (i, CidData c (Some t)) # rest \<and> 0 < i \<and> res_len q + i < CidQueue_LEN
        \<and> \<not> dom (cw_cids (window q)) \<subseteq> {..cw_reserved (window q)}
        \<and> first_from (Suc (cw_reserved (window q))) (cw_cids (window q)) = cq_offset q + res_len q + i
        \<and> slot q (res_len q + i) = Some (CidData c (Some t))
        \<and> (\<forall>j. res_len q < j \<and> j < res_len q + i \<longrightarrow> slot q j = None)))"
proof -
  let ?g = "\<lambda>k. slot q (res_len q + k)" and ?n = "CidQueue_LEN - res_len q"
  have cur: "cq_cursor q < CidQueue_LEN" "cq_cursor_reserved q < CidQueue_LEN"
    using assms by (simp_all add: cq_inv_def)
  note r = reserved_len_eq [OF cur] and it = iter_from_reserved_eq [OF cur]
  obtain d0 where d0: "?g 0 = Some d0"
    using cq_inv_slot(2) [OF assms] by auto
  then have ids: "ids_from ?g 0 ?n = (0, d0) # ids_from ?g 1 ?n"
    using ids_from_step [of 0 ?n ?g] r(2) by simp
  from ids_from_alt [of ?g 1 ?n] show ?thesis
  proof (elim disjE exE conjE)
    assume none: "ids_from ?g 1 ?n = []" "\<forall>k. 1 \<le> k \<and> k < ?n \<longrightarrow> ?g k = None"
    have "dom (cw_cids (window q)) \<subseteq> {..cw_reserved (window q)}"
    proof
      fix n
      assume "n \<in> dom (cw_cids (window q))"
      then have n: "cq_offset q \<le> n" "slot q (n - cq_offset q) \<noteq> None"
        by (auto simp: window_cids split: if_splits)
      then have "n - cq_offset q < CidQueue_LEN"
        by (auto simp: slot_def split: if_splits)
      then have "res_len q + (n - cq_offset q - res_len q) = n - cq_offset q" "1 \<le> n - cq_offset q - res_len q"
        "n - cq_offset q - res_len q < CidQueue_LEN - res_len q" if "\<not> n \<le> cq_offset q + res_len q"
        using that by linarith+
      then show "n \<in> {..cw_reserved (window q)}"
        using n none(2) [rule_format, of "n - cq_offset q - res_len q"] by (cases "n \<le> cq_offset q + res_len q") simp_all
    qed
    then show ?thesis
      using it ids none by simp
  next
    fix i d
    assume i: "ids_from ?g 1 ?n = (i, d) # ids_from ?g (Suc i) ?n" "1 \<le> i" "i < ?n" "?g i = Some d"
      "\<forall>k. 1 \<le> k \<and> k < i \<longrightarrow> ?g k = None"
    then obtain c t where d: "d = CidData c (Some t)"
      using cq_inv_slot(3) [OF assms, of "res_len q + i" d] by auto
    have gap: "slot q j = None" if "res_len q < j" "j < res_len q + i" for j
      using i(5) [rule_format, of "j - res_len q"] that by (simp add: less_diff_conv2 Suc_le_eq)
    have "first_from (Suc (cw_reserved (window q))) (cw_cids (window q)) = cq_offset q + res_len q + i"
    proof (rule first_from_eq)
      fix j
      assume "Suc (cw_reserved (window q)) \<le> j" "j < cq_offset q + res_len q + i"
      then show "cw_cids (window q) j = None"
        using gap [of "j - cq_offset q"] by (auto simp: window_cids)
    qed (use i in \<open>auto simp: window_cids add.assoc\<close>)
    moreover have "cq_offset q + (res_len q + i) \<in> dom (cw_cids (window q))"
      using i(4) by (simp add: domIff)
    then have "\<not> dom (cw_cids (window q)) \<subseteq> {..cw_reserved (window q)}"
      using i(2) by (auto simp: subset_iff)
    ultimately show ?thesis
      using it ids i gap d by auto
  qed
qed

lemma window_ok_cut:
  assumes "window_ok w" and "b \<in> dom (cw_cids w)"
  shows "window_ok \<lparr>cw_cids = cw_cids w |` {b..}, cw_active = b, cw_reserved = b\<rparr>"
proof -
  have "cw_active w \<le> b"
    using assms by (auto simp: window_ok_def)
  then have "dom (cw_cids w |` {b..}) \<subseteq> {b..<b + CidQueue_LEN}"
    using assms(1) by (fastforce simp: window_ok_def)
  moreover have "\<forall>n d. 0 < n \<longrightarrow> (cw_cids w |` {b..}) n = Some d \<longrightarrow> token_of d \<noteq> None"
    using assms(1) by (simp add: window_ok_def restrict_map_def)
  ultimately show ?thesis
    using assms(2) by (auto simp: window_ok_def)
qed

lemma cq_invI:
  assumes "length (cq_buffer q) = CidQueue_LEN" "cq_cursor q < CidQueue_LEN" "cq_cursor_reserved q < CidQueue_LEN"
    "window q = w" "window_ok w"
  shows "cq_inv q"
  using assms by (simp add: cq_inv_def)

lemma mod_LEN [simp]: "n mod CidQueue_LEN < CidQueue_LEN"
  by (simp add: CidQueue_LEN_def)

lemma CidQueue_next_refines:
  assumes "cq_inv q"
  shows "\<exists>q'. CidQueue_next q = Some (fst (window_next (window q)), q') \<and> cq_inv q'
    \<and> window q' = snd (window_next (window q))"
proof -
  obtain d0 ids where it: "iter_from_reserved q = Some ((0, d0) # ids)"
    and alt: "(ids = [] \<and> dom (cw_cids (window q)) \<subseteq> {..cw_reserved (window q)}) \<or>
     (\<exists>i c t rest. ids = (i, CidData c (Some t)) # rest \<and> 0 < i \<and> res_len q + i < CidQueue_LEN
        \<and> \<not> dom (cw_cids (window q)) \<subseteq> {..cw_reserved (window q)}
        \<and> first_from (Suc (cw_reserved (window q))) (cw_cids (window q)) = cq_offset q + res_len q + i
        \<and> slot q (res_len q + i) = Some (CidData c (Some t))
        \<and> (\<forall>j. res_len q < j \<and> j < res_len q + i \<longrightarrow> slot q j = None))"
    using reserved_ids [OF assms] by blast
  note inv = assms [unfolded cq_inv_def]
  have r: "reserved_len q = Some (res_len q)" "res_len q < CidQueue_LEN" "cq_cursor_reserved q = (cq_cursor q + res_len q) mod CidQueue_LEN"
    using reserved_len_eq inv by blast+
  from alt show ?thesis
  proof (elim disjE exE conjE)
    assume "ids = []" "dom (cw_cids (window q)) \<subseteq> {..cw_reserved (window q)}"
    then show ?thesis
      using assms it by (simp add: CidQueue_next_def window_next_def)
  next
    fix i c t rest
    assume ids: "ids = (i, CidData c (Some t)) # rest" and i: "0 < i" "res_len q + i < CidQueue_LEN"
      and more: "\<not> dom (cw_cids (window q)) \<subseteq> {..cw_reserved (window q)}"
      and first: "first_from (Suc (cw_reserved (window q))) (cw_cids (window q)) = cq_offset q + res_len q + i"
      and here: "slot q (res_len q + i) = Some (CidData c (Some t))"
      and gap: "\<forall>j. res_len q < j \<and> j < res_len q + i \<longrightarrow> slot q j = None"
    let ?n = "res_len q + i"
    let ?q1 = "q\<lparr>cq_buffer := clear_slots (cq_cursor q) [0..<Suc (res_len q)] (cq_buffer q)\<rparr>"
    let ?q2 = "?q1\<lparr>cq_offset := cq_offset q + ?n, cq_cursor := (cq_cursor q + ?n) mod CidQueue_LEN,
       cq_cursor_reserved := (cq_cursor q + ?n) mod CidQueue_LEN\<rparr>"
    have cur: "(cq_cursor_reserved q + i) mod CidQueue_LEN = (cq_cursor q + ?n) mod CidQueue_LEN"
      unfolding r(3) by (simp add: mod_simps add.assoc)
    have s1: "slot ?q1 k = (if k < Suc (res_len q) then None else slot q k)" for k
      using slot_clear [of q "Suc (res_len q)" k] inv r(2) by (simp del: upt_Suc)
    then have s2: "slot ?q2 k = slot q (?n + k)" for k
      using slot_advance [of ?n ?q1 ?q2] gap i(1) by (simp add: not_less_eq del: upt_Suc)
    have nxt: "CidQueue_next q = Some (Some (t, cq_offset q, cq_offset q + ?n), ?q2)"
      using it ids r(1) cur by (simp add: CidQueue_next_def Let_def add.commute del: upt_Suc)
    have b: "cw_cids (window q) (cq_offset q + ?n) = Some (CidData c (Some t))"
      using here by simp
    have win: "window ?q2 = \<lparr>cw_cids = cw_cids (window q) |` {cq_offset q + ?n..},
        cw_active = cq_offset q + ?n, cw_reserved = cq_offset q + ?n\<rparr>"
      using s2 by (auto simp: window_def res_len_def restrict_map_def fun_eq_iff simp del: upt_Suc)
    moreover have "window_ok \<dots>"
      using window_ok_cut [of "window q" "cq_offset q + ?n"] inv b by blast
    ultimately have "cq_inv ?q2"
      using inv by (intro cq_invI [where w = "window ?q2"]) (simp_all del: upt_Suc)
    moreover have "window_next (window q) = (Some (t, cq_offset q, cq_offset q + ?n), window ?q2)"
      unfolding window_next_def Let_def first win using more b by (simp add: add.assoc)
    ultimately show ?thesis
      using nxt by (metis fst_conv snd_conv)
  qed
qed

lemma CidQueue_next_reserved_refines:
  assumes "cq_inv q"
  shows "\<exists>q'. CidQueue_next_reserved q = Some (fst (window_next_reserved (window q)), q') \<and> cq_inv q'
    \<and> window q' = snd (window_next_reserved (window q))"
proof -
  obtain d0 ids where it: "iter_from_reserved q = Some ((0, d0) # ids)"
    and alt: "(ids = [] \<and> dom (cw_cids (window q)) \<subseteq> {..cw_reserved (window q)}) \<or>
     (\<exists>i c t rest. ids = (i, CidData c (Some t)) # rest \<and> 0 < i \<and> res_len q + i < CidQueue_LEN
        \<and> \<not> dom (cw_cids (window q)) \<subseteq> {..cw_reserved (window q)}
        \<and> first_from (Suc (cw_reserved (window q))) (cw_cids (window q)) = cq_offset q + res_len q + i
        \<and> slot q (res_len q + i) = Some (CidData c (Some t))
        \<and> (\<forall>j. res_len q < j \<and> j < res_len q + i \<longrightarrow> slot q j = None))"
    using reserved_ids [OF assms] by blast
  note inv = assms [unfolded cq_inv_def]
  have r: "cq_cursor_reserved q = (cq_cursor q + res_len q) mod CidQueue_LEN"
    using reserved_len_eq inv by blast
  from alt show ?thesis
  proof (elim disjE exE conjE)
    assume "ids = []" "dom (cw_cids (window q)) \<subseteq> {..cw_reserved (window q)}"
    then show ?thesis
      using assms it by (simp add: CidQueue_next_reserved_def window_next_reserved_def)
  next
    fix i c t rest
    assume ids: "ids = (i, CidData c (Some t)) # rest" and i: "0 < i" "res_len q + i < CidQueue_LEN"
      and more: "\<not> dom (cw_cids (window q)) \<subseteq> {..cw_reserved (window q)}"
      and first: "first_from (Suc (cw_reserved (window q))) (cw_cids (window q)) = cq_offset q + res_len q + i"
      and here: "slot q (res_len q + i) = Some (CidData c (Some t))"
    let ?n = "res_len q + i"
    let ?q2 = "q\<lparr>cq_cursor_reserved := (cq_cursor q + ?n) mod CidQueue_LEN\<rparr>"
    have cur: "(cq_cursor_reserved q + i) mod CidQueue_LEN = (cq_cursor q + ?n) mod CidQueue_LEN"
      unfolding r by (simp add: mod_simps add.assoc)
    have nxt: "CidQueue_next_reserved q = Some (Some c, ?q2)"
      using it ids cur by (simp add: CidQueue_next_reserved_def)
    have "res_len q' = ?n" if "cq_cursor q' = cq_cursor q" "cq_cursor_reserved q' = (cq_cursor q + ?n) mod CidQueue_LEN" for q'
    proof -
      have lt: "cq_cursor q' < CidQueue_LEN" "cq_cursor_reserved q' < CidQueue_LEN"
        using that inv by simp_all
      then have "(cq_cursor q + ?n) mod CidQueue_LEN = (cq_cursor q + res_len q') mod CidQueue_LEN"
        using reserved_len_eq(3) [of q'] that by metis
      then show ?thesis
        using ring_eq [OF i(2) reserved_len_eq(2) [OF lt]] by metis
    qed
    from this [of ?q2] have "res_len ?q2 = ?n"
      by fastforce
    then have win: "window ?q2 = (window q)\<lparr>cw_reserved := cq_offset q + ?n\<rparr>"
      by (simp add: window_def slot_def fun_eq_iff)
    have "window_ok ((window q)\<lparr>cw_reserved := cq_offset q + ?n\<rparr>)"
      using inv here window_cids_add [of q ?n] by (auto simp: window_ok_def simp del: window_cids_add)
    then have "cq_inv ?q2"
      using inv win by (intro cq_invI [where w = "window ?q2"]) simp_all
    moreover have "window_next_reserved (window q) = (Some c, window ?q2)"
      unfolding window_next_reserved_def Let_def first win using more here by (simp add: add.assoc)
    ultimately show ?thesis
      using nxt by (metis fst_conv snd_conv)
  qed
qed

lemma CidQueue_remaining_refines:
  assumes "cq_inv q"
  shows "\<exists>n. CidQueue_remaining q = Some n"
  using reserved_ids [OF assms] by (auto simp: CidQueue_remaining_def)

lemma CidQueue_active_refines:
  assumes "cq_inv q"
  shows "CidQueue_active q = Some (cid_of (the (cw_cids (window q) (cw_active (window q)))))"
proof -
  obtain d where "slot q 0 = Some d"
    using cq_inv_slot(1) [OF assms] by blast
  then show ?thesis
    using assms by (cases d) (auto simp: CidQueue_active_def slot_def cq_inv_def window_cids)
qed

lemma CidQueue_update_initial_cid_refines:
  assumes "cq_inv q" and "cq_offset q = 0"
  shows "\<exists>q'. CidQueue_update_initial_cid cid q = Some q' \<and> cq_inv q'
    \<and> window q' = window_update_initial_cid cid (window q)"
proof -
  let ?q = "q\<lparr>cq_buffer := (cq_buffer q)[cq_cursor q := Some (CidData cid None)]\<rparr>"
  note inv = assms(1) [unfolded cq_inv_def]
  have "slot ?q k = (if k = 0 then Some (CidData cid None) else slot q k)" for k
    using slot_upd [of q 0 "Some (CidData cid None)" k] inv by (simp add: CidQueue_LEN_def)
  then have win: "window ?q = window_update_initial_cid cid (window q)"
    using assms(2) by (auto simp: window_def window_update_initial_cid_def fun_eq_iff res_len_def)
  have "window_ok (window_update_initial_cid cid (window q))"
    using inv assms(2) by (auto simp: window_ok_def window_update_initial_cid_def)
  then have "cq_inv ?q"
    using inv win by (intro cq_invI [where w = "window ?q"]) simp_all
  then show ?thesis
    using win assms(2) by (simp add: CidQueue_update_initial_cid_def)
qed

lemma slots_ok:
  assumes "length (cq_buffer q) = CidQueue_LEN" "cq_cursor q < CidQueue_LEN" "cq_cursor_reserved q < CidQueue_LEN"
    and "slot q 0 \<noteq> None" "slot q (res_len q) \<noteq> None"
    and "\<And>k d. slot q k = Some d \<Longrightarrow> 0 < cq_offset q + k \<Longrightarrow> token_of d \<noteq> None"
  shows "cq_inv q"
proof -
  have "n < cq_offset q + CidQueue_LEN" if "slot q (n - cq_offset q) = Some d" for n d
    using that by (auto simp: slot_def split: if_splits)
  then have "dom (cw_cids (window q)) \<subseteq> {cq_offset q..<cq_offset q + CidQueue_LEN}"
    by (auto simp: window_cids split: if_splits)
  moreover have "token_of d \<noteq> None" if "0 < n" "cw_cids (window q) n = Some d" for n d
    using that assms(6) [of "n - cq_offset q" d] by (cases "cq_offset q = 0") (auto simp: window_cids split: if_splits)
  ultimately have "window_ok (window q)"
    using assms(4,5) window_cids_add [of q 0] by (auto simp: window_ok_def)
  then show ?thesis
    using assms(1-3) by (simp add: cq_inv_def)
qed

text \<open>The queue after the retired ids are dropped and the new one is stored, before the cursor moves to a known id.\<close>

lemma insert_slots:
  assumes "cq_inv q" and "rc \<le> index" and "index < CidQueue_LEN + rc"
    and "q' = q\<lparr>cq_buffer := (clear_slots (cq_cursor q) [0..<min rc CidQueue_LEN] (cq_buffer q))
                 [(cq_cursor q + index) mod CidQueue_LEN := Some d],
               cq_cursor := (cq_cursor q + rc) mod CidQueue_LEN\<rparr>"
  shows "slot q' k = (if k = index - rc then Some d else slot q (rc + k))"
proof -
  note inv = assms(1) [unfolded cq_inv_def]
  let ?q1 = "q\<lparr>cq_buffer := clear_slots (cq_cursor q) [0..<min rc CidQueue_LEN] (cq_buffer q)\<rparr>"
  let ?q2 = "?q1\<lparr>cq_cursor := (cq_cursor q + rc) mod CidQueue_LEN\<rparr>"
  have "slot ?q1 k = (if k < min rc CidQueue_LEN then None else slot q k)" for k
    using slot_clear [of q "min rc CidQueue_LEN" k] inv by simp
  then have "slot ?q2 k = slot q (rc + k)" for k
    using slot_advance [of rc ?q1 ?q2 k] by (simp add: slot_def)
  moreover have "(cq_cursor ?q2 + (index - rc)) mod CidQueue_LEN = (cq_cursor q + index) mod CidQueue_LEN"
    using assms(2) mod_add_left_eq [of "cq_cursor q + rc" CidQueue_LEN "index - rc"] by (simp add: add.assoc)
  then have "q' = ?q2\<lparr>cq_buffer := (cq_buffer ?q2)[(cq_cursor ?q2 + (index - rc)) mod CidQueue_LEN := Some d]\<rparr>"
    unfolding assms(4) by simp
  ultimately show ?thesis
    using slot_upd [of ?q2 "index - rc" "Some d" k] inv assms(2,3) by simp
qed

lemma CidQueue_insert_refines:
  assumes "cq_inv q" and "ncid_retire_prior_to cid \<le> ncid_sequence cid"
  shows "\<exists>q'. CidQueue_insert cid q = Some (fst (window_insert cid (window q)), q') \<and> cq_inv q'
    \<and> window q' = snd (window_insert cid (window q))"
proof -
  note inv = assms(1) [unfolded cq_inv_def]
  define n p a where npa: "n = ncid_sequence cid" "p = ncid_retire_prior_to cid" "a = cq_offset q"
  define d where "d = CidData (ncid_id cid) (Some (ncid_reset_token cid))"
  define m where "m = ((cw_cids (window q))(n \<mapsto> d)) |` {p..}"
  note ins = CidQueue_insert_def [of cid q, folded npa d_def, unfolded Let_def]
  note win = window_insert_def [of cid "window q", folded npa d_def, unfolded Let_def, unfolded window_simps, folded npa m_def]
  consider "n < a" | "a \<le> n" "n \<ge> max a p + CidQueue_LEN" | "a \<le> n" "n < max a p + CidQueue_LEN" "p \<le> a"
    | "a \<le> n" "n < max a p + CidQueue_LEN" "a < p"
    by linarith
  then show ?thesis
  proof cases
    case 1
    then show ?thesis
      using assms(1) by (simp add: ins win)
  next
    case 2
    then have "n - a \<ge> CidQueue_LEN + (p - a)"
      by (auto simp: max_def split: if_splits)
    then show ?thesis
      using 2 assms(1) by (simp add: ins win)
  next
    case 3
    let ?q = "q\<lparr>cq_buffer := (cq_buffer q)[(cq_cursor q + (n - a)) mod CidQueue_LEN := Some d]\<rparr>"
    have lt: "n - a < CidQueue_LEN"
      using 3 by (simp add: max_def split: if_splits)
    then have slot: "slot ?q k = (if k = n - a then Some d else slot q k)" for k
      using slot_upd inv by blast
    have "CidQueue_insert cid q = Some (Inr None, ?q)"
      using 3 lt by (simp add: ins clear_slots_def)
    moreover have "cq_inv ?q"
    proof (rule slots_ok)
      show "token_of e \<noteq> None" if "slot ?q k = Some e" "0 < cq_offset ?q + k" for k e
        using that cq_inv_slot(3) [OF assms(1), of k e] slot [of k] by (auto simp: d_def split: if_splits)
      have "res_len ?q = res_len q"
        by (simp add: res_len_def)
      then show "slot ?q 0 \<noteq> None" "slot ?q (res_len ?q) \<noteq> None"
        using slot cq_inv_slot(1,2) [OF assms(1)] by auto
    qed (use inv in simp_all)
    moreover have "cw_cids (window ?q) = m"
      using 3 slot unfolding m_def by (auto simp: fun_eq_iff window_cids restrict_map_def npa)
    then have "window ?q = (window q)\<lparr>cw_cids := m\<rparr>"
      by (simp add: window_def res_len_def)
    ultimately show ?thesis
      using 3 by (simp add: win)
  next
    case 4
    define q1 where "q1 = q\<lparr>cq_buffer := (clear_slots (cq_cursor q) [0..<min (p - a) CidQueue_LEN] (cq_buffer q))
                 [(cq_cursor q + (n - a)) mod CidQueue_LEN := Some d],
               cq_cursor := (cq_cursor q + (p - a)) mod CidQueue_LEN\<rparr>"
    have le: "p - a \<le> n - a" "n - a < CidQueue_LEN + (p - a)" "p \<le> n"
      using 4 assms(2) by (auto simp: npa)
    then have slot: "slot q1 k = (if k = n - p then Some d else slot q (p - a + k))" for k
      using insert_slots [OF assms(1) le(1,2) q1_def, of k] 4 by simp
    then have "slot q1 (n - p) = Some d" "n - p < CidQueue_LEN"
      using le 4 by simp_all
    then obtain i e rest where ids: "iter_from_active q1 = (i, e) # rest" and i: "i < CidQueue_LEN"
      and e: "slot q1 i = Some e" and gap: "\<forall>k. k < i \<longrightarrow> slot q1 k = None"
      using ids_from_alt [of "slot q1" 0 CidQueue_LEN] unfolding iter_from_active_eq by auto
    have tok: "token_of x \<noteq> None" if "slot q1 k = Some x" for k x
      using that slot [of k] cq_inv_slot(3) [OF assms(1), of "p - a + k" x] 4 by (auto simp: d_def split: if_splits)
    obtain c t where ct: "e = CidData c (Some t)"
      using tok [OF e] by (cases e) auto
    let ?q2 = "q1\<lparr>cq_cursor := (cq_cursor q1 + i) mod CidQueue_LEN,
      cq_cursor_reserved := (cq_cursor q1 + i) mod CidQueue_LEN, cq_offset := p + i\<rparr>"
    have slot2: "slot ?q2 k = slot q1 (i + k)" for k
      using slot_advance [of i q1 ?q2 k] gap by simp
    have ins2: "CidQueue_insert cid q = Some (Inr (Some ((a, min (p + i) (a + CidQueue_LEN)), t)), ?q2)"
      using 4 le ids ct unfolding q1_def by (simp add: ins npa(3) [symmetric])
    have "cq_inv ?q2"
    proof (rule slots_ok)
      show "token_of x \<noteq> None" if "slot ?q2 k = Some x" "0 < cq_offset ?q2 + k" for k x
        using that tok [of "i + k"] slot2 by simp
      show "slot ?q2 0 \<noteq> None" "slot ?q2 (res_len ?q2) \<noteq> None"
        using slot2 [of 0] e by simp_all
      show "length (cq_buffer ?q2) = CidQueue_LEN"
        using inv by (simp add: q1_def)
    qed simp_all
    moreover have mid: "m k = (if p \<le> k then slot q1 (k - p) else None)" for k
      using 4 le(3) slot [of "k - p"] unfolding m_def by (auto simp: window_cids restrict_map_def npa)
    then have "cw_cids (window ?q2) k = m k" for k
      using slot2 [of "k - (p + i)"] gap by (auto simp: window_cids)
    then have "window ?q2 = \<lparr>cw_cids = m, cw_active = p + i, cw_reserved = p + i\<rparr>"
      by (simp add: window_def fun_eq_iff res_len_def)
    moreover have "first_from p m = p + i"
      by (rule first_from_eq) (use mid e gap in auto)
    moreover have "m (p + i) = Some e"
      using mid e by simp
    ultimately show ?thesis
      using 4 ins2 ct by (simp add: win)
  qed
qed

section \<open>What the users of the queue rely on\<close>

lemma cq_inv_window: "cq_inv q \<Longrightarrow> window_ok (window q)"
  by (simp add: cq_inv_def)

text \<open>
  The interface of a store of remote connection ids: it implements the operations of the window.
  A client never sees the ring buffer.
\<close>

locale cid_store =
  fixes ok :: "'q \<Rightarrow> bool" and view :: "'q \<Rightarrow> CidWindow"
    and new :: "ConnectionId \<Rightarrow> 'q"
    and insert :: "NewConnectionId \<Rightarrow> 'q \<Rightarrow> ((InsertError + (range \<times> byte list) option) \<times> 'q) option"
    and advance :: "'q \<Rightarrow> ((byte list \<times> range) option \<times> 'q) option"
    and reserve :: "'q \<Rightarrow> (ConnectionId option \<times> 'q) option"
  assumes view_ok: "ok q \<Longrightarrow> window_ok (view q)"
    and new_view: "ok (new cid) \<and> view (new cid) = \<lparr>cw_cids = [0 \<mapsto> CidData cid None], cw_active = 0, cw_reserved = 0\<rparr>"
    and insert_view: "ok q \<Longrightarrow> ncid_retire_prior_to f \<le> ncid_sequence f \<Longrightarrow>
      \<exists>q'. insert f q = Some (fst (window_insert f (view q)), q') \<and> ok q' \<and> view q' = snd (window_insert f (view q))"
    and advance_view: "ok q \<Longrightarrow>
      \<exists>q'. advance q = Some (fst (window_next (view q)), q') \<and> ok q' \<and> view q' = snd (window_next (view q))"
    and reserve_view: "ok q \<Longrightarrow>
      \<exists>q'. reserve q = Some (fst (window_next_reserved (view q)), q') \<and> ok q' \<and> view q' = snd (window_next_reserved (view q))"
begin

lemma ids_insert:
  assumes "ok q" and "insert f q = Some (r, q')" and "ncid_retire_prior_to f \<le> ncid_sequence f"
  shows "ok q'" and "cw_active (view q) \<le> cw_active (view q')"
    and "cid_of ` ran (cw_cids (view q')) \<subseteq> Set.insert (ncid_id f) (cid_of ` ran (cw_cids (view q)))"
    and "r = Inr (Some ((s, e), t)) \<Longrightarrow> s = cw_active (view q) \<and> s < e \<and> e \<le> cw_active (view q') \<and> e \<le> s + CidQueue_LEN"
proof -
  have q': "r = fst (window_insert f (view q))" "ok q'" "view q' = snd (window_insert f (view q))"
    using insert_view [OF assms(1,3)] assms(2) by auto
  show "ok q'" by (rule q'(2))
  let ?w = "view q" and ?p = "ncid_retire_prior_to f" and ?n = "ncid_sequence f"
  let ?m = "((cw_cids ?w)(?n \<mapsto> CidData (ncid_id f) (Some (ncid_reset_token f)))) |` {?p..}"
  have "\<exists>i. ?p \<le> i \<and> ?m i \<noteq> None"
    using assms(3) by (intro exI [of _ ?n]) (simp add: restrict_map_def)
  then have first: "?p \<le> first_from ?p ?m"
    unfolding first_from_def by (rule LeastI2_ex) simp
  then show "cw_active (view q) \<le> cw_active (view q')"
    by (simp add: q'(3) window_insert_def Let_def)
  have "cid_of ` ran ?m \<subseteq> Set.insert (ncid_id f) (cid_of ` ran (cw_cids ?w))"
    by (auto simp: ran_def restrict_map_def split: if_splits)
  moreover have "cw_cids (view q') = cw_cids ?w \<or> cw_cids (view q') = ?m"
    unfolding q'(3) window_insert_def Let_def by (simp split: if_split)
  ultimately show "cid_of ` ran (cw_cids (view q')) \<subseteq> Set.insert (ncid_id f) (cid_of ` ran (cw_cids ?w))"
    by (elim disjE) (simp_all only:, blast)
  show "s = cw_active (view q) \<and> s < e \<and> e \<le> cw_active (view q') \<and> e \<le> s + CidQueue_LEN" if "r = Inr (Some ((s, e), t))"
  proof -
    define b where "b = first_from ?p ?m"
    have "cw_active ?w < ?p \<and> s = cw_active ?w \<and> e = min b (cw_active ?w + CidQueue_LEN) \<and> cw_active (view q') = b"
      using that unfolding q'(1,3) window_insert_def Let_def b_def [symmetric] by (auto split: if_splits)
    then show ?thesis
      using first by (simp add: b_def CidQueue_LEN_def)
  qed
qed

lemma ids_advance:
  assumes "ok q" and "advance q = Some (r, q')"
  shows "ok q'" and "cw_active (view q) \<le> cw_active (view q')"
    and "cid_of ` ran (cw_cids (view q')) \<subseteq> cid_of ` ran (cw_cids (view q))"
    and "r = Some (t, s, e) \<Longrightarrow> s = cw_active (view q) \<and> s < e \<and> e = cw_active (view q')"
proof -
  have q': "r = fst (window_next (view q))" "ok q'" "view q' = snd (window_next (view q))"
    using advance_view [OF assms(1)] assms(2) by auto
  show "ok q'" by (rule q'(2))
  have le: "cw_active (view q) \<le> cw_reserved (view q)"
    using view_ok [OF assms(1)] by (simp add: window_ok_def)
  let ?w = "view q"
  have "Suc (cw_reserved ?w) \<le> first_from (Suc (cw_reserved ?w)) (cw_cids ?w)" if "\<not> dom (cw_cids ?w) \<subseteq> {..cw_reserved ?w}"
  proof -
    have "\<exists>i. Suc (cw_reserved ?w) \<le> i \<and> cw_cids ?w i \<noteq> None"
      using that by (auto simp: subset_iff not_le Suc_le_eq)
    then show ?thesis
      unfolding first_from_def by (rule LeastI2_ex) simp
  qed
  then have "view q' = ?w \<and> r = None \<or> Suc (cw_reserved ?w) \<le> cw_active (view q')
      \<and> r = Some (the (token_of (the (cw_cids ?w (cw_active (view q'))))), cw_active ?w, cw_active (view q'))"
    unfolding q'(1,3) window_next_def Let_def by simp
  then show "cw_active (view q) \<le> cw_active (view q')"
    "r = Some (t, s, e) \<Longrightarrow> s = cw_active (view q) \<and> s < e \<and> e = cw_active (view q')"
    using le by auto
  show "cid_of ` ran (cw_cids (view q')) \<subseteq> cid_of ` ran (cw_cids (view q))"
    by (auto simp: q'(3) window_next_def Let_def ran_def restrict_map_def split: if_splits)
qed

end

interpretation cq: cid_store cq_inv window CidQueue_new CidQueue_insert CidQueue_next CidQueue_next_reserved
  by unfold_locales (simp_all add: CidQueue_new_ok CidQueue_insert_refines CidQueue_next_refines
      CidQueue_next_reserved_refines cq_inv_window)

section \<open>Properties\<close>


text \<open>A queue with ids 0 and 2, and a frame that brings id 3 and retires the ids below 1.\<close>

definition demo_cid :: "nat \<Rightarrow> nat \<Rightarrow> NewConnectionId" where
  "demo_cid n p = \<lparr>ncid_path_id = None, ncid_sequence = n, ncid_retire_prior_to = p,
     ncid_id = [of_nat n], ncid_reset_token = replicate 16 (of_nat n)\<rparr>"

definition demo_queue :: CidQueue where
  "demo_queue = \<lparr>cq_buffer = [Some (CidData [255] None), None, Some (CidData [2] (Some (replicate 16 2))), None, None],
     cq_cursor = 0, cq_offset = 0, cq_cursor_reserved = 0\<rparr>"

lemma eval_LEN:
  "replicate 5 x = [x, x, x, x, x]" "(a # b # c # xs)[2 := y] = a # b # y # xs" "(a # b # c # d # xs)[3 := y] = a # b # c # y # xs"
  "[0..<5] = [0, 1, 2, 3, 4]"
  by (simp_all add: numeral_eq_Suc upt_rec)

lemma demo_queue_run: "CidQueue_insert (demo_cid 2 0) (CidQueue_new [255]) = Some (Inr None, demo_queue)"
  by (simp add: CidQueue_insert_def CidQueue_new_def demo_cid_def demo_queue_def CidQueue_LEN_def clear_slots_def
      eval_LEN)

lemma demo_queue_ok: "cq_inv demo_queue"
  using cq.insert_view [of "CidQueue_new [255]" "demo_cid 2 0"] cq.new_view [of "[255]"] demo_queue_run
  by (auto simp: demo_cid_def)


end
