(* ===== verification/Remote_Cids.thy ===== *)
theory Remote_Cids
  imports Cid_Queue Transport_Error
begin

text \<open>
  How a connection uses the connection ids of its peer (\<open>noq-proto/src/connection/mod.rs\<close>): the
  queues of all paths (\<open>Connection::remote_cids\<close>), the queue of ids to retire
  (\<open>pending.retire_cids\<close>) and the reset tokens passed to the endpoint.  The operations are the
  handling of a \<open>NEW_CONNECTION_ID\<close> frame, the switch to an unused id, the id of an off-path
  probe, sending and losing \<open>RETIRE_CONNECTION_ID\<close> frames, abandoning a path, and the
  replacement of the initial id during the handshake.
\<close>

section \<open>State and operations\<close>

record RemoteCids =
  rc_queues :: "PathId \<rightharpoonup> CidQueue"
  rc_retire :: "(PathId \<times> nat) list"
  rc_retire_sent :: "(PathId \<times> nat) list"
  rc_tokens :: "(PathId \<times> byte list) list"
  rc_abandoned :: "PathId set"

record CidPolicy =
  multipath_negotiated :: bool
  local_max_path_id :: nat
  is_server :: bool

definition MAX_PENDING_RETIRED_CIDS :: nat where
  "MAX_PENDING_RETIRED_CIDS = CidQueue_LEN * 10"

definition retire_range :: "PathId \<Rightarrow> range \<Rightarrow> (PathId \<times> nat) list" where
  "retire_range p r = map (Pair p) [fst r..<snd r]"

definition update_remote_cid :: "PathId \<Rightarrow> RemoteCids \<Rightarrow> RemoteCids option" where
  "update_remote_cid p s =
     (case rc_queues s p of
        None \<Rightarrow> Some s
      | Some q \<Rightarrow> do {
          (res, q) \<leftarrow> CidQueue_next q;
          let s = s\<lparr>rc_queues := (rc_queues s)(p \<mapsto> q)\<rparr>;
          case res of
            None \<Rightarrow> Some s
          | Some (token, retired) \<Rightarrow>
              Some (s\<lparr>rc_retire := rc_retire s @ retire_range p retired,
                      rc_tokens := rc_tokens s @ [(p, token)]\<rparr>) })"

definition on_new_connection_id :: "CidPolicy \<Rightarrow> NewConnectionId \<Rightarrow> RemoteCids \<Rightarrow>
    ((TransportError + unit) \<times> RemoteCids) option" where
  "on_new_connection_id c f s =
     (if ncid_path_id f \<noteq> None \<and> \<not> multipath_negotiated c then Some (Inl PROTOCOL_VIOLATION, s)
      else if (case ncid_path_id f of None \<Rightarrow> False | Some p \<Rightarrow> path_num p > local_max_path_id c)
      then Some (Inl PROTOCOL_VIOLATION, s)
      else
        let p = (case ncid_path_id f of None \<Rightarrow> PathId 0 | Some p \<Rightarrow> p) in
        if p \<in> rc_abandoned s then Some (Inr (), s)
        else do {
          let q = (case rc_queues s p of None \<Rightarrow> CidQueue_new (ncid_id f) | Some q \<Rightarrow> q);
          let s = s\<lparr>rc_queues := (rc_queues s)(p \<mapsto> q)\<rparr>;
          active \<leftarrow> CidQueue_active q;
          if active = [] then Some (Inl PROTOCOL_VIOLATION, s)
          else if ncid_retire_prior_to f > ncid_sequence f then Some (Inl PROTOCOL_VIOLATION, s)
          else do {
            (res, q) \<leftarrow> CidQueue_insert f q;
            let s = s\<lparr>rc_queues := (rc_queues s)(p \<mapsto> q)\<rparr>;
            let switch = (\<lambda>s. if is_server c \<and> p = PathId 0
                 \<and> (case rc_queues s (PathId 0) of None \<Rightarrow> False | Some q \<Rightarrow> CidQueue_active_seq q = 0)
               then map_option (Pair (Inr ())) (update_remote_cid (PathId 0) s) else Some (Inr (), s));
            case res of
              Inr None \<Rightarrow> switch s
            | Inr (Some (retired, token)) \<Rightarrow>
                if length (rc_retire s) + (snd retired - fst retired) > MAX_PENDING_RETIRED_CIDS
                then Some (Inl CONNECTION_ID_LIMIT_ERROR, s)
                else switch (s\<lparr>rc_retire := rc_retire s @ retire_range p retired,
                               rc_tokens := rc_tokens s @ [(p, token)]\<rparr>)
            | Inl ExceedsLimit \<Rightarrow> Some (Inl CONNECTION_ID_LIMIT_ERROR, s)
            | Inl Retired \<Rightarrow> Some (Inr (), s\<lparr>rc_retire := rc_retire s @ [(p, ncid_sequence f)]\<rparr>) } })"

definition off_path_cid :: "PathId \<Rightarrow> RemoteCids \<Rightarrow> (ConnectionId option \<times> RemoteCids) option" where
  "off_path_cid p s =
     (case rc_queues s p of
        None \<Rightarrow> Some (None, s)
      | Some q \<Rightarrow> do {
          (res, q) \<leftarrow> CidQueue_next_reserved q;
          let s = s\<lparr>rc_queues := (rc_queues s)(p \<mapsto> q)\<rparr>;
          case res of
            Some c \<Rightarrow> Some (Some c, s)
          | None \<Rightarrow> do { c \<leftarrow> CidQueue_active q; Some (Some c, s) } })"

definition replace_initial_cid :: "ConnectionId \<Rightarrow> RemoteCids \<Rightarrow> RemoteCids option" where
  "replace_initial_cid cid s = do {
     q \<leftarrow> rc_queues s (PathId 0);
     q \<leftarrow> CidQueue_update_initial_cid cid q;
     Some (s\<lparr>rc_queues := (rc_queues s)(PathId 0 \<mapsto> q)\<rparr>) }"

definition write_retire_cid :: "RemoteCids \<Rightarrow> RemoteCids" where
  "write_retire_cid s =
     (if rc_retire s = [] then s
      else s\<lparr>rc_retire := butlast (rc_retire s), rc_retire_sent := last (rc_retire s) # rc_retire_sent s\<rparr>)"

definition lose_retire_cid :: "PathId \<times> nat \<Rightarrow> RemoteCids \<Rightarrow> RemoteCids" where
  "lose_retire_cid x s =
     (if x \<in> set (rc_retire_sent s)
      then s\<lparr>rc_retire_sent := remove1 x (rc_retire_sent s), rc_retire := rc_retire s @ [x]\<rparr> else s)"

definition abandon_path :: "PathId \<Rightarrow> RemoteCids \<Rightarrow> RemoteCids" where
  "abandon_path p s = s\<lparr>rc_abandoned := Set.insert p (rc_abandoned s)\<rparr>"

definition write_path_abandon :: "PathId \<Rightarrow> RemoteCids \<Rightarrow> RemoteCids" where
  "write_path_abandon p s = (if p \<in> rc_abandoned s then s\<lparr>rc_queues := (rc_queues s)(p := None)\<rparr> else s)"

datatype cid_op =
    NewCid CidPolicy NewConnectionId | UpdateCid PathId | OffPath PathId | InitialCid ConnectionId
  | SendRetire | LoseRetire "PathId \<times> nat" | Abandon PathId | SendAbandon PathId

text \<open>
  One operation, with the ids that the peer has announced for each path.  The initial id is
  replaced during the handshake only, when no other id is known and path 0 is in use.
\<close>

fun cid_exec :: "cid_op \<Rightarrow> RemoteCids \<Rightarrow> RemoteCids option" where
  "cid_exec (NewCid c f) s = map_option snd (on_new_connection_id c f s)"
| "cid_exec (UpdateCid p) s = update_remote_cid p s"
| "cid_exec (OffPath p) s = map_option snd (off_path_cid p s)"
| "cid_exec (InitialCid cid) s = replace_initial_cid cid s"
| "cid_exec SendRetire s = Some (write_retire_cid s)"
| "cid_exec (LoseRetire x) s = Some (lose_retire_cid x s)"
| "cid_exec (Abandon p) s = Some (abandon_path p s)"
| "cid_exec (SendAbandon p) s = Some (write_path_abandon p s)"

fun cid_enabled :: "cid_op \<Rightarrow> RemoteCids \<Rightarrow> bool" where
  "cid_enabled (InitialCid cid) s = (case rc_queues s (PathId 0) of None \<Rightarrow> False | Some q \<Rightarrow> CidQueue_active_seq q = 0)"
| "cid_enabled _ s = True"

fun announced :: "cid_op \<Rightarrow> (PathId \<Rightarrow> ConnectionId set) \<Rightarrow> PathId \<Rightarrow> ConnectionId set" where
  "announced (NewCid c f) H = (let p = (case ncid_path_id f of None \<Rightarrow> PathId 0 | Some p \<Rightarrow> p) in H(p := Set.insert (ncid_id f) (H p)))"
| "announced (InitialCid cid) H = H(PathId 0 := Set.insert cid (H (PathId 0)))"
| "announced _ H = H"

definition cid_init :: "ConnectionId \<Rightarrow> RemoteCids" where
  "cid_init cid = \<lparr>rc_queues = [PathId 0 \<mapsto> CidQueue_new cid], rc_retire = [], rc_retire_sent = [], rc_tokens = [], rc_abandoned = {}\<rparr>"

inductive cid_step :: "RemoteCids \<times> (PathId \<Rightarrow> ConnectionId set) \<Rightarrow> RemoteCids \<times> (PathId \<Rightarrow> ConnectionId set) \<Rightarrow> bool" where
  "cid_enabled op s \<Longrightarrow> cid_exec op s = Some t \<Longrightarrow> cid_step (s, H) (t, announced op H)"

section \<open>The invariant\<close>

definition cids_known :: "CidQueue \<Rightarrow> ConnectionId set" where
  "cids_known q = cid_of ` ran (cw_cids (window q))"

definition asked :: "RemoteCids \<Rightarrow> (PathId \<times> nat) set" where
  "asked s = set (rc_retire s) \<union> set (rc_retire_sent s)"

definition rc_inv :: "RemoteCids \<Rightarrow> (PathId \<Rightarrow> ConnectionId set) \<Rightarrow> bool" where
  "rc_inv s H \<longleftrightarrow> (\<forall>p q. rc_queues s p = Some q \<longrightarrow> cq_inv q \<and> cids_known q \<subseteq> H p)
     \<and> (\<forall>p n. (p, n) \<in> asked s \<longrightarrow> (case rc_queues s p of None \<Rightarrow> p \<in> rc_abandoned s | Some q \<Rightarrow> n < CidQueue_active_seq q))"

lemma rc_invI:
  assumes "\<And>p q. rc_queues s p = Some q \<Longrightarrow> cq_inv q \<and> cids_known q \<subseteq> H p"
    and "\<And>p n. (p, n) \<in> asked s \<Longrightarrow> (case rc_queues s p of None \<Rightarrow> p \<in> rc_abandoned s | Some q \<Rightarrow> n < CidQueue_active_seq q)"
  shows "rc_inv s H"
  using assms by (simp add: rc_inv_def)

lemma rc_invD:
  assumes "rc_inv s H"
  shows "rc_queues s p = Some q \<Longrightarrow> cq_inv q" "rc_queues s p = Some q \<Longrightarrow> cids_known q \<subseteq> H p"
    and "(p, n) \<in> asked s \<Longrightarrow> (case rc_queues s p of None \<Rightarrow> p \<in> rc_abandoned s | Some q \<Rightarrow> n < CidQueue_active_seq q)"
  using assms by (auto simp: rc_inv_def)

lemma rc_put_queue:
  assumes "rc_inv s H" and "cq_inv q" and "cids_known q \<subseteq> H p"
    and "case rc_queues s p of None \<Rightarrow> p \<notin> rc_abandoned s | Some q0 \<Rightarrow> CidQueue_active_seq q0 \<le> CidQueue_active_seq q"
    and "\<And>p' n. (p', n) \<in> set ps \<Longrightarrow> p' = p \<and> n < CidQueue_active_seq q"
    and "rc_queues t = (rc_queues s)(p \<mapsto> q)" "rc_retire t = rc_retire s @ ps" "rc_retire_sent t = rc_retire_sent s"
      "rc_abandoned t = rc_abandoned s"
  shows "rc_inv t H"
proof (rule rc_invI)
  show "cq_inv q' \<and> cids_known q' \<subseteq> H p'" if "rc_queues t p' = Some q'" for p' q'
    using that assms(2,3,6) rc_invD(1,2) [OF assms(1), of p' q'] by (auto split: if_splits)
  show "case rc_queues t p' of None \<Rightarrow> p' \<in> rc_abandoned t | Some q' \<Rightarrow> n < CidQueue_active_seq q'"
    if "(p', n) \<in> asked t" for p' n
  proof -
    have "(p', n) \<in> set ps \<or> (p', n) \<in> asked s"
      using that assms(7,8) by (auto simp: asked_def)
    then show ?thesis
      using assms(4,5,6,9) rc_invD(3) [OF assms(1), of p' n] by (auto split: option.splits)
  qed
qed

lemma rc_announce: "rc_inv s H \<Longrightarrow> rc_inv s (H(p := Set.insert c (H p)))"
  by (auto simp: rc_inv_def)

lemma active_known:
  assumes "cq_inv q"
  shows "\<exists>c. CidQueue_active q = Some c \<and> c \<in> cids_known q"
proof -
  obtain d where "cw_cids (window q) (cw_active (window q)) = Some d"
    using cq.view_ok [OF assms] by (auto simp: window_ok_def)
  then show ?thesis
    using CidQueue_active_refines [OF assms] by (auto simp: cids_known_def intro: ranI)
qed

lemma active_seq_window: "CidQueue_active_seq q = cw_active (window q)"
  by (simp add: CidQueue_active_seq_def)

section \<open>Every operation keeps the invariant\<close>

lemma update_remote_cid_ok:
  assumes "rc_inv s H"
  shows "\<exists>t. update_remote_cid p s = Some t \<and> rc_inv t H"
proof (cases "rc_queues s p")
  case (Some q)
  note q = rc_invD(1,2) [OF assms Some]
  obtain res q' where nxt: "CidQueue_next q = Some (res, q')"
    using cq.advance_view [OF q(1)] by blast
  note adv = cq.ids_advance [OF q(1) nxt]
  have put: "rc_inv t H" if "rc_queues t = (rc_queues s)(p \<mapsto> q')" "rc_retire t = rc_retire s @ ps"
    "rc_retire_sent t = rc_retire_sent s" "rc_abandoned t = rc_abandoned s"
    "\<And>p' n. (p', n) \<in> set ps \<Longrightarrow> p' = p \<and> n < CidQueue_active_seq q'" for t ps
    by (rule rc_put_queue [OF assms adv(1) _ _ that(5) that(1-4)])
      (use q adv Some in \<open>auto simp: cids_known_def active_seq_window\<close>)
  show ?thesis
  proof (cases res)
    case None
    then show ?thesis
      using Some nxt put [of _ "[]"] by (simp add: update_remote_cid_def)
  next
    case (Some x)
    then obtain token a b where x: "res = Some (token, (a, b))"
      by (metis prod.collapse)
    then have "b = CidQueue_active_seq q'"
      using adv(4) by (auto simp: active_seq_window)
    then have "rc_inv (s\<lparr>rc_queues := (rc_queues s)(p \<mapsto> q'), rc_retire := rc_retire s @ retire_range p (a, b),
        rc_tokens := rc_tokens s @ [(p, token)]\<rparr>) H"
      by (intro put [of _ "retire_range p (a, b)"]) (auto simp: retire_range_def)
    then show ?thesis
      using \<open>rc_queues s p = Some q\<close> nxt x by (simp add: update_remote_cid_def)
  qed
qed (use assms in \<open>simp add: update_remote_cid_def\<close>)

lemma off_path_cid_ok:
  assumes "rc_inv s H"
  shows "\<exists>c t. off_path_cid p s = Some (c, t) \<and> rc_inv t H"
proof (cases "rc_queues s p")
  case (Some q)
  note q = rc_invD(1,2) [OF assms Some]
  obtain res q' where nxt: "CidQueue_next_reserved q = Some (res, q')" and q': "cq_inv q'"
    and win: "window q' = snd (window_next_reserved (window q))"
    using cq.reserve_view [OF q(1)] by blast
  have "cids_known q' = cids_known q" "CidQueue_active_seq q' = CidQueue_active_seq q"
    using win by (simp_all add: cids_known_def active_seq_window window_next_reserved_def Let_def del: window_simps)
  then have "rc_inv (s\<lparr>rc_queues := (rc_queues s)(p \<mapsto> q')\<rparr>) H"
    by (intro rc_put_queue [OF assms q', of p "[]"]) (use q Some in auto)
  then show ?thesis
    using Some nxt active_known [OF q'] by (auto simp: off_path_cid_def Let_def split: option.split)
qed (use assms in \<open>simp add: off_path_cid_def\<close>)

lemma replace_initial_cid_ok:
  assumes "rc_inv s H" and "cid_enabled (InitialCid cid) s"
  shows "\<exists>t. replace_initial_cid cid s = Some t \<and> rc_inv t (announced (InitialCid cid) H)"
proof -
  obtain q where some: "rc_queues s (PathId 0) = Some q" and zero: "cq_offset q = 0"
    using assms(2) by (auto simp: CidQueue_active_seq_def split: option.splits)
  note q = rc_invD(1,2) [OF assms(1) some]
  obtain q' where upd: "CidQueue_update_initial_cid cid q = Some q'" and q': "cq_inv q'"
    and win: "window q' = window_update_initial_cid cid (window q)"
    using CidQueue_update_initial_cid_refines [OF q(1) zero] by blast
  have "ran (cw_cids (window q')) \<subseteq> Set.insert (CidData cid None) (ran (cw_cids (window q)))"
    unfolding win window_update_initial_cid_def by (auto simp: ran_def)
  then have "cids_known q' \<subseteq> Set.insert cid (cids_known q)" "CidQueue_active_seq q' = CidQueue_active_seq q"
    using win by (auto simp: cids_known_def active_seq_window window_update_initial_cid_def simp del: window_simps)
  then have "rc_inv (s\<lparr>rc_queues := (rc_queues s)(PathId 0 \<mapsto> q')\<rparr>) (H(PathId 0 := Set.insert cid (H (PathId 0))))"
    by (intro rc_put_queue [OF rc_announce [OF assms(1)] q', of "PathId 0" _ _ "[]"])
      (use q(2) some in \<open>auto simp del: window_simps\<close>)
  then show ?thesis
    using some upd by (simp add: replace_initial_cid_def)
qed

lemma insert_result_cases:
  fixes res :: "InsertError + (range \<times> byte list) option"
  obtains "res = Inl Retired" | "res = Inl ExceedsLimit" | "res = Inr None" | x y token where "res = Inr (Some ((x, y), token))"
proof (cases res)
  case (Inl e)
  then show ?thesis
    using that(1,2) by (cases e) auto
next
  case (Inr r)
  then show ?thesis
    using that(3,4) by (cases r) auto
qed

lemma window_insert_retired:
  assumes "fst (window_insert f w) = Inl Retired"
  shows "ncid_sequence f < cw_active w" and "snd (window_insert f w) = w"
proof -
  show "ncid_sequence f < cw_active w"
    using assms unfolding window_insert_def Let_def by (simp split: if_split_asm)
  then show "snd (window_insert f w) = w"
    unfolding window_insert_def Let_def by simp
qed

text \<open>The server switches away from the initial id; the switch is one more update.\<close>

lemma on_new_connection_id_ok:
  assumes "rc_inv s H"
  shows "\<exists>r t. on_new_connection_id c f s = Some (r, t) \<and> rc_inv t (announced (NewCid c f) H)"
proof -
  define p where "p = (case ncid_path_id f of None \<Rightarrow> PathId 0 | Some p \<Rightarrow> p)"
  define q where "q = (case rc_queues s p of None \<Rightarrow> CidQueue_new (ncid_id f) | Some q \<Rightarrow> q)"
  let ?H = "H(p := Set.insert (ncid_id f) (H p))"
  have H: "announced (NewCid c f) H = ?H"
    by (simp add: p_def Let_def)
  have s: "rc_inv s ?H"
    using rc_announce [OF assms] by blast
  note def = on_new_connection_id_def [of c f s, folded p_def, unfolded Let_def, folded q_def]
  show ?thesis
  proof (cases "(ncid_path_id f \<noteq> None \<and> \<not> multipath_negotiated c)
      \<or> (case ncid_path_id f of None \<Rightarrow> False | Some p \<Rightarrow> path_num p > local_max_path_id c) \<or> p \<in> rc_abandoned s")
    case True
    then show ?thesis
      unfolding def H using s by auto
  next
    case False
    then have g: "\<not> (ncid_path_id f \<noteq> None \<and> \<not> multipath_negotiated c)"
      "\<not> (case ncid_path_id f of None \<Rightarrow> False | Some p \<Rightarrow> path_num p > local_max_path_id c)" "p \<notin> rc_abandoned s"
      by blast+
    have q: "cq_inv q" "cids_known q \<subseteq> ?H p"
      using rc_invD(1,2) [OF s, of p] cq.new_view [of "ncid_id f"]
      by (auto simp: q_def cids_known_def split: option.splits)
    have put: "rc_inv t ?H" if "cq_inv q'" "cids_known q' \<subseteq> ?H p" "CidQueue_active_seq q \<le> CidQueue_active_seq q'"
      "rc_queues t = (rc_queues s)(p \<mapsto> q')" "rc_retire t = rc_retire s @ ps" "rc_retire_sent t = rc_retire_sent s"
      "rc_abandoned t = rc_abandoned s" "\<And>p' n. (p', n) \<in> set ps \<Longrightarrow> p' = p \<and> n < CidQueue_active_seq q'" for t q' ps
      by (rule rc_put_queue [OF s that(1,2) _ that(8) that(4-7)]) (use that(3) False in \<open>auto simp: q_def split: option.split\<close>)
    obtain a where a: "CidQueue_active q = Some a"
      using active_known [OF q(1)] by blast
    define s1 where "s1 = s\<lparr>rc_queues := (rc_queues s)(p \<mapsto> q)\<rparr>"
    have s1: "rc_inv s1 ?H"
      by (rule put [OF q, of _ "[]"]) (simp_all add: s1_def)
    show ?thesis
    proof (cases "a = [] \<or> ncid_retire_prior_to f > ncid_sequence f")
      case True
      then show ?thesis
        unfolding def H using False a s1 by (auto simp: s1_def)
    next
      case not: False
      then have le: "a \<noteq> []" "\<not> ncid_retire_prior_to f > ncid_sequence f"
        by blast+
      obtain res q' where ins: "CidQueue_insert f q = Some (res, q')"
        using cq.insert_view [OF q(1), of f] le by auto
      note ids = cq.ids_insert [OF q(1) ins]
      have q': "cq_inv q'" "cids_known q' \<subseteq> ?H p" "CidQueue_active_seq q \<le> CidQueue_active_seq q'"
        using ids(1-3) le q(2) unfolding cids_known_def active_seq_window fun_upd_same by (simp, meson insertI1 insert_subset not_le subset_insertI2 subset_trans, simp)
      define s2 where "s2 = s\<lparr>rc_queues := (rc_queues s)(p \<mapsto> q')\<rparr>"
      have put2: "rc_inv t ?H" if "rc_queues t = rc_queues s2" "rc_retire t = rc_retire s2 @ ps" "rc_retire_sent t = rc_retire_sent s2"
        "rc_abandoned t = rc_abandoned s2" "\<And>p' n. (p', n) \<in> set ps \<Longrightarrow> p' = p \<and> n < CidQueue_active_seq q'" for t ps
        by (rule put [OF q', of t ps]) (use that in \<open>simp_all add: s2_def\<close>)
      have s2: "rc_inv s2 ?H"
        by (rule put2 [of _ "[]"]) simp_all
      have switch: "\<exists>r t. (if b then map_option (Pair (Inr ())) (update_remote_cid (PathId 0) s') else Some (Inr (), s')) = Some (r, t)
          \<and> rc_inv t ?H" if "rc_inv s' ?H" for b and s' :: RemoteCids
        using update_remote_cid_ok [OF that, of "PathId 0"] that by auto
      consider "res = Inl Retired" | "res = Inl ExceedsLimit" | "res = Inr None" | x y token where "res = Inr (Some ((x, y), token))"
        by (rule insert_result_cases)
      note cases = this
      define server_switch where "server_switch s' \<longleftrightarrow> is_server c \<and> p = PathId 0
          \<and> (case rc_queues s' (PathId 0) of None \<Rightarrow> False | Some q \<Rightarrow> CidQueue_active_seq q = 0)" for s' :: RemoteCids
      have body: "on_new_connection_id c f s =
          (let switch = (\<lambda>s. if server_switch s then map_option (Pair (Inr ())) (update_remote_cid (PathId 0) s) else Some (Inr (), s)) in
           case res of
              Inr None \<Rightarrow> switch s2
            | Inr (Some (retired, token)) \<Rightarrow>
                if length (rc_retire s2) + (snd retired - fst retired) > MAX_PENDING_RETIRED_CIDS
                then Some (Inl CONNECTION_ID_LIMIT_ERROR, s2)
                else switch (s2\<lparr>rc_retire := rc_retire s2 @ retire_range p retired, rc_tokens := rc_tokens s2 @ [(p, token)]\<rparr>)
            | Inl ExceedsLimit \<Rightarrow> Some (Inl CONNECTION_ID_LIMIT_ERROR, s2)
            | Inl Retired \<Rightarrow> Some (Inr (), s2\<lparr>rc_retire := rc_retire s2 @ [(p, ncid_sequence f)]\<rparr>))"
        unfolding def if_not_P [OF g(1)] if_not_P [OF g(2)] if_not_P [OF g(3)] a ins bind.bind_lunit if_not_P [OF le(1)] if_not_P [OF le(2)]
        by (simp add: Let_def server_switch_def s2_def split: sum.split option.split InsertError.split) auto
      from cases show ?thesis
      proof cases
        case 1
        then have "ncid_sequence f < CidQueue_active_seq q'"
          using cq.insert_view [OF q(1), of f] ins le window_insert_retired [of f "window q"]
          unfolding active_seq_window by (auto simp del: window_simps)
        then have "rc_inv (s2\<lparr>rc_retire := rc_retire s2 @ [(p, ncid_sequence f)]\<rparr>) ?H"
          by (intro put2 [of _ "[(p, ncid_sequence f)]"]) auto
        then show ?thesis
          unfolding body 1 H by auto
      next
        case 2
        then show ?thesis
          unfolding body H using s2 by auto
      next
        case 3
        have "on_new_connection_id c f s =
            (if server_switch s2 then map_option (Pair (Inr ())) (update_remote_cid (PathId 0) s2) else Some (Inr (), s2))"
          unfolding body 3 by simp
        then show ?thesis
          unfolding H using switch [OF s2] by fastforce
      next
        case 4
        then have "y \<le> CidQueue_active_seq q'"
          using ids(4) le by (auto simp: active_seq_window simp del: window_simps)
        define s3 where "s3 = s2\<lparr>rc_retire := rc_retire s2 @ retire_range p (x, y), rc_tokens := rc_tokens s2 @ [(p, token)]\<rparr>"
        have s3: "rc_inv s3 ?H"
          using \<open>y \<le> CidQueue_active_seq q'\<close>
          by (intro put2 [of _ "retire_range p (x, y)"]) (auto simp: retire_range_def s3_def)
        have "on_new_connection_id c f s = Some (Inl CONNECTION_ID_LIMIT_ERROR, s2) \<or> on_new_connection_id c f s =
            (if server_switch s3 then map_option (Pair (Inr ())) (update_remote_cid (PathId 0) s3) else Some (Inr (), s3))"
          unfolding body 4 by (simp add: s3_def)
        then show ?thesis
          unfolding H using switch [OF s3] s2 by fastforce
      qed
    qed
  qed
qed

lemma rc_inv_same:
  assumes "rc_inv s H" and "rc_queues t = rc_queues s" "rc_abandoned s \<subseteq> rc_abandoned t" "asked t \<subseteq> asked s"
  shows "rc_inv t H"
proof (rule rc_invI)
  show "case rc_queues t p of None \<Rightarrow> p \<in> rc_abandoned t | Some q \<Rightarrow> n < CidQueue_active_seq q" if "(p, n) \<in> asked t" for p n
    using rc_invD(3) [OF assms(1), of p n] subsetD [OF assms(4) that] assms(2) subsetD [OF assms(3), of p]
    by (auto split: option.splits)
qed (use assms rc_invD in auto)

lemma simple_cid_ops_ok:
  assumes "rc_inv s H"
  shows "rc_inv (write_retire_cid s) H" "rc_inv (lose_retire_cid x s) H" "rc_inv (abandon_path p s) H" "rc_inv (write_path_abandon p s) H"
proof -
  have "set (butlast xs) \<union> Set.insert (last xs) Y = set xs \<union> Y" if "xs \<noteq> []" for xs :: "(PathId \<times> nat) list" and Y
    using that by (cases xs rule: rev_cases) auto
  then have "asked (write_retire_cid s) = asked s"
    by (auto simp: asked_def write_retire_cid_def)
  then show "rc_inv (write_retire_cid s) H"
    by (intro rc_inv_same [OF assms]) (simp_all add: write_retire_cid_def)
  have "asked (lose_retire_cid x s) \<subseteq> asked s"
    by (auto simp: asked_def lose_retire_cid_def dest: notin_set_remove1)
  then show "rc_inv (lose_retire_cid x s) H"
    by (intro rc_inv_same [OF assms]) (simp_all add: lose_retire_cid_def)
  show "rc_inv (abandon_path p s) H"
    by (rule rc_inv_same [OF assms]) (auto simp: abandon_path_def asked_def)
  show "rc_inv (write_path_abandon p s) H"
  proof (rule rc_invI)
    show "case rc_queues (write_path_abandon p s) p' of None \<Rightarrow> p' \<in> rc_abandoned (write_path_abandon p s)
        | Some q \<Rightarrow> n < CidQueue_active_seq q" if "(p', n) \<in> asked (write_path_abandon p s)" for p' n
      using rc_invD(3) [OF assms, of p' n] that
      by (cases "p \<in> rc_abandoned s") (auto simp: write_path_abandon_def asked_def split: option.splits)
  qed (use rc_invD [OF assms] in \<open>auto simp: write_path_abandon_def split: if_splits\<close>)
qed

lemma cid_exec_ok:
  assumes "rc_inv s H" and "cid_enabled op s"
  shows "\<exists>t. cid_exec op s = Some t \<and> rc_inv t (announced op H)"
proof (cases op)
  case (NewCid c f)
  then show ?thesis
    using on_new_connection_id_ok [OF assms(1), of c f] by auto
next
  case (UpdateCid p)
  then show ?thesis
    using update_remote_cid_ok [OF assms(1)] by simp
next
  case (OffPath p)
  then show ?thesis
    using off_path_cid_ok [OF assms(1), of p] by auto
next
  case (InitialCid cid)
  then show ?thesis
    using replace_initial_cid_ok [OF assms(1)] assms(2) by simp
qed (use simple_cid_ops_ok [OF assms(1)] in simp_all)

definition cid_start :: "RemoteCids \<times> (PathId \<Rightarrow> ConnectionId set) \<Rightarrow> bool" where
  "cid_start x \<longleftrightarrow> (\<exists>cid. x = (cid_init cid, (\<lambda>_. {})(PathId 0 := {cid})))"

interpretation cids_life: invariant_system cid_start cid_step "\<lambda>(s, H). rc_inv s H"
proof
  show "case x of (s, H) \<Rightarrow> rc_inv s H" if "cid_start x" for x
    using that cq.new_view by (auto simp: cid_start_def cid_init_def rc_inv_def asked_def cids_known_def split: if_splits)
  show "case y of (t, H') \<Rightarrow> rc_inv t H'" if "case x of (s, H) \<Rightarrow> rc_inv s H" and "cid_step x y" for x y
    using that(2,1) by cases (use cid_exec_ok in fastforce)
qed

section \<open>Properties\<close>

text \<open>
  C6. Whatever \<open>NEW_CONNECTION_ID\<close> frames the peer sends, in any order with switching,
  probing, retiring and abandoning paths: no operation on the connection ids panics, the id in use
  on a path is one that the peer announced for that path, and an id that the peer is asked to
  retire (queued or sent) is never the one in use nor one that will be used later.
\<close>

theorem remote_cids_safe:
  assumes "cid_step\<^sup>*\<^sup>* (cid_init cid, (\<lambda>_. {})(PathId 0 := {cid})) (s, H)"
  shows "(cid_enabled op s \<longrightarrow> cid_exec op s \<noteq> None)
    \<and> (\<forall>p q. rc_queues s p = Some q \<longrightarrow> (\<exists>c \<in> H p. CidQueue_active q = Some c))
    \<and> (\<forall>p q n. rc_queues s p = Some q \<longrightarrow> (p, n) \<in> set (rc_retire s) \<union> set (rc_retire_sent s) \<longrightarrow> n < CidQueue_active_seq q)"
proof -
  have inv: "rc_inv s H"
    using cids_life.inv_reachable [of "(cid_init cid, (\<lambda>_. {})(PathId 0 := {cid}))" "(s, H)"] assms by (auto simp: cid_start_def)
  have "\<exists>c \<in> H p. CidQueue_active q = Some c" if "rc_queues s p = Some q" for p q
    using rc_invD(1,2) [OF inv that] active_known by blast
  moreover have "n < CidQueue_active_seq q"
    if "rc_queues s p = Some q" "(p, n) \<in> set (rc_retire s) \<union> set (rc_retire_sent s)" for p q n
    using rc_invD(3) [OF inv, of p n] that by (simp add: asked_def)
  moreover have "cid_enabled op s \<longrightarrow> cid_exec op s \<noteq> None"
    using cid_exec_ok [OF inv, of op] by auto
  ultimately show ?thesis
    by blast
qed

definition demo_policy :: CidPolicy where
  "demo_policy = \<lparr>multipath_negotiated = False, local_max_path_id = 0, is_server = False\<rparr>"

text \<open>A client learns the id 1 and is told to retire the initial id.\<close>

definition demo_retired :: RemoteCids where
  "demo_retired = \<lparr>rc_queues = [PathId 0 \<mapsto>
      \<lparr>cq_buffer = [None, Some (CidData [1] (Some (replicate 16 1))), None, None, None],
       cq_cursor = 1, cq_offset = 1, cq_cursor_reserved = 1\<rparr>],
     rc_retire = [(PathId 0, 0)], rc_retire_sent = [], rc_tokens = [(PathId 0, replicate 16 1)], rc_abandoned = {}\<rparr>"

lemma demo_first_frame:
  "on_new_connection_id demo_policy (demo_cid 1 1) (cid_init [9]) = Some (Inr (), demo_retired)"
  by (simp add: Let_def on_new_connection_id_def demo_policy_def demo_cid_def cid_init_def demo_retired_def CidQueue_active_def
      CidQueue_insert_def CidQueue_new_def CidQueue_LEN_def clear_slots_def iter_from_active_def map_filter_simps
      eval_LEN retire_range_def MAX_PENDING_RETIRED_CIDS_def)

theorem remote_cids_safe_witness:
  "cid_exec (UpdateCid (PathId 0)) demo_retired \<noteq> None
     \<and> (PathId 0, 0) \<in> set (rc_retire demo_retired)
     \<and> 0 < CidQueue_active_seq (the (rc_queues demo_retired (PathId 0)))"
proof -
  have "cid_step (cid_init [9], (\<lambda>_. {})(PathId 0 := {[9]})) (demo_retired, announced (NewCid demo_policy (demo_cid 1 1)) ((\<lambda>_. {})(PathId 0 := {[9]})))"
    by (rule cid_step.intros) (simp_all add: demo_first_frame [unfolded One_nat_def])
  then have "cid_step\<^sup>*\<^sup>* (cid_init [9], (\<lambda>_. {})(PathId 0 := {[9]})) (demo_retired, announced (NewCid demo_policy (demo_cid 1 1)) ((\<lambda>_. {})(PathId 0 := {[9]})))"
    by (rule r_into_rtranclp)
  from remote_cids_safe [OF this, of "UpdateCid (PathId 0)"] show ?thesis
    by (simp add: demo_retired_def)
qed

section \<open>Findings\<close>

text \<open>Frames that are accepted one after the other.\<close>

fun accept_frames :: "CidPolicy \<Rightarrow> NewConnectionId list \<Rightarrow> RemoteCids \<Rightarrow> RemoteCids option" where
  "accept_frames c [] s = Some s"
| "accept_frames c (f # fs) s =
     (case on_new_connection_id c f s of Some (Inr _, s) \<Rightarrow> accept_frames c fs s | _ \<Rightarrow> None)"

lemma retired_frame:
  "rc_queues s = rc_queues demo_retired \<Longrightarrow> rc_abandoned s = {} \<Longrightarrow>
     on_new_connection_id demo_policy (demo_cid 0 0) s = Some (Inr (), s\<lparr>rc_retire := rc_retire s @ [(PathId 0, 0)]\<rparr>)"
  by (simp add: Let_def on_new_connection_id_def demo_policy_def demo_cid_def demo_retired_def CidQueue_active_def CidQueue_insert_def)

lemma retired_frames:
  "rc_queues s = rc_queues demo_retired \<Longrightarrow> rc_abandoned s = {} \<Longrightarrow>
     \<exists>t. accept_frames demo_policy (replicate n (demo_cid 0 0)) s = Some t \<and> length (rc_retire t) = length (rc_retire s) + n"
proof (induction n arbitrary: s)
  case (Suc n)
  then show ?case
    using Suc.IH [of "s\<lparr>rc_retire := rc_retire s @ [(PathId 0, 0)]\<rparr>"] by (auto simp: retired_frame)
qed simp

text \<open>
  C40. The number of queued \<open>RETIRE_CONNECTION_ID\<close> frames is not bounded: although the handler
  limits them to \<open>MAX_PENDING_RETIRED_CIDS\<close> for newly retired ids, every repetition of a frame
  for an id that is already retired is accepted and queues one more.
\<close>

theorem retire_cids_unbounded:
  "\<exists>s. accept_frames demo_policy (demo_cid 1 1 # replicate n (demo_cid 0 0)) (cid_init [9]) = Some s
     \<and> length (rc_retire s) = Suc n"
  using retired_frames [of demo_retired n] by (simp add: demo_first_frame [unfolded One_nat_def]) (simp add: demo_retired_def)

text \<open>
  A reserved id becomes the active one when \<open>retire_prior_to\<close> retires the ids before it, although
  reserved ids are meant to be skipped: it was used to probe another address already.
\<close>

lemma reserved_cid_reused:
  "\<exists>q q' q'' r. CidQueue_insert (demo_cid 1 0) (CidQueue_new [9]) = Some (Inr None, q)
     \<and> CidQueue_next_reserved q = Some (Some [1], q')
     \<and> CidQueue_insert (demo_cid 2 1) q' = Some (r, q'')
     \<and> CidQueue_active q'' = Some [1]"
  by (simp add: demo_cid_def CidQueue_insert_def CidQueue_new_def CidQueue_next_reserved_def CidQueue_LEN_def clear_slots_def
      iter_from_active_def iter_from_reserved_def reserved_len_def CidQueue_active_def map_filter_simps eval_LEN)

end
