(* ===== verification/Packet_Number.thy ===== *)
theory Packet_Number
  imports Var_Int
begin

text \<open>
  Truncated packet numbers, \<open>PacketNumber\<close> of \<open>noq-proto/src/packet.rs\<close>: a sender writes the
  low bytes of a packet number, as many as the receiver needs to find the number again from the
  largest one it has received.  The numbers are 64-bit words.
\<close>

section \<open>Definitions\<close>

datatype PacketNumber = U8 byte | U16 u16 | U24 u32 | U32 u32

definition u64_checked_add :: "u64 \<Rightarrow> u64 \<Rightarrow> u64 option" where
  "u64_checked_add a b = (if unat a + unat b < 2 ^ 64 then Some (a + b) else None)"

definition u64_checked_sub :: "u64 \<Rightarrow> u64 \<Rightarrow> u64 option" where
  "u64_checked_sub a b = (if b \<le> a then Some (a - b) else None)"

definition u64_checked_mul :: "u64 \<Rightarrow> u64 \<Rightarrow> u64 option" where
  "u64_checked_mul a b = (if unat a * unat b < 2 ^ 64 then Some (a * b) else None)"

definition PacketNumber_new :: "u64 \<Rightarrow> u64 \<Rightarrow> PacketNumber option" where
  "PacketNumber_new n largest_acked = do {
     d \<leftarrow> u64_checked_sub n largest_acked;
     range \<leftarrow> u64_checked_mul d 2;
     if range < push_bit 8 1 then Some (U8 (ucast n))
     else if range < push_bit 16 1 then Some (U16 (ucast n))
     else if range < push_bit 24 1 then Some (U24 (ucast n))
     else if range < push_bit 32 1 then Some (U32 (ucast n))
     else None }"

fun PacketNumber_len :: "PacketNumber \<Rightarrow> nat" where
  "PacketNumber_len (U8 _) = 1"
| "PacketNumber_len (U16 _) = 2"
| "PacketNumber_len (U24 _) = 3"
| "PacketNumber_len (U32 _) = 4"

fun PacketNumber_encode :: "PacketNumber \<Rightarrow> byte list" where
  "PacketNumber_encode (U8 x) = put_u8 x"
| "PacketNumber_encode (U16 x) = put_u16 x"
| "PacketNumber_encode (U24 x) = be_bytes 3 (unat x)"
| "PacketNumber_encode (U32 x) = put_u32 x"

text \<open>
  \<open>Buf::get_uint\<close> panics on a short buffer, the codec of \<open>coding.rs\<close> returns an error: the
  outer option is the panic, the inner one the error.
\<close>

definition PacketNumber_decode :: "nat \<Rightarrow> byte list \<Rightarrow> (PacketNumber \<times> byte list) option option" where
  "PacketNumber_decode len r =
     (if len = 1 then Some (map_option (map_prod U8 id) (u8_decode r))
      else if len = 2 then Some (map_option (map_prod U16 id) (u16_decode r))
      else if len = 3 then map_option (\<lambda>(x, r). Some (U24 (of_nat x), r)) (get_be 3 r)
      else if len = 4 then Some (map_option (map_prod U32 id) (u32_decode r))
      else None)"

definition PacketNumber_decode_len :: "byte \<Rightarrow> nat" where
  "PacketNumber_decode_len tag = 1 + unat (tag AND 3)"

fun PacketNumber_tag :: "PacketNumber \<Rightarrow> byte" where
  "PacketNumber_tag (U8 _) = 0"
| "PacketNumber_tag (U16 _) = 1"
| "PacketNumber_tag (U24 _) = 2"
| "PacketNumber_tag (U32 _) = 3"

fun truncated :: "PacketNumber \<Rightarrow> u64" where
  "truncated (U8 x) = ucast x"
| "truncated (U16 x) = ucast x"
| "truncated (U24 x) = ucast x"
| "truncated (U32 x) = ucast x"

definition PacketNumber_expand :: "PacketNumber \<Rightarrow> u64 \<Rightarrow> u64 option" where
  "PacketNumber_expand self expected =
     (let nbits = PacketNumber_len self * 8;
          win = push_bit nbits 1;
          hwin = win div 2;
          mask = win - 1;
          candidate = (expected AND NOT mask) OR truncated self in
      if (case u64_checked_sub expected hwin of None \<Rightarrow> False | Some x \<Rightarrow> candidate \<le> x)
      then u64_checked_add candidate win
      else do {
        top \<leftarrow> u64_checked_add expected hwin;
        if candidate > top \<and> candidate > win then u64_checked_sub candidate win
        else Some candidate })"

section \<open>Arithmetic of the window\<close>

lemma multiple_bound:
  assumes "(w :: int) dvd d" and "- w < d" and "d < w"
  shows "d = 0"
  using assms zdvd_not_zless [of d w] zdvd_not_zless [of "- d" w] by (metis dvd_minus_iff minus_less_iff neg_0_less_iff_less not_less_iff_gr_or_eq)

text \<open>The number in the window around the expected one with the given low bits.\<close>

lemma window_unique:
  fixes n e t h :: nat
  assumes t: "n mod (2 * h) = t" and low: "e < n + h" and high: "n \<le> e + h" and h: "0 < h"
  defines "c \<equiv> e div (2 * h) * (2 * h) + t"
  shows "(if h \<le> e \<and> c \<le> e - h then c + 2 * h
      else if c > e + h \<and> c > 2 * h then c - 2 * h else c) = n"
proof -
  let ?w = "2 * h"
  have tw: "t < ?w"
    using t h by (metis mod_less_divisor mult_pos_pos zero_less_numeral)
  have c: "c \<le> e - e mod ?w + t" "e - e mod ?w + t \<le> c" "e mod ?w < ?w" "e mod ?w \<le> e"
    using h by (simp_all add: c_def minus_mod_eq_div_mult)
  have "int ?w dvd int n - int c"
    by (metis (no_types, lifting) c_def mod_eq_dvd_iff mod_mult_self3 of_nat_mod t mod_mod_trivial)
  then have dvd: "int ?w dvd int n - int c" "int ?w dvd int n - int c - int ?w" "int ?w dvd int n - int c + int ?w"
    by simp_all
  have eq: "- int ?w < int n - int c \<Longrightarrow> int n - int c < int ?w \<Longrightarrow> int n = int c"
    using multiple_bound [OF dvd(1)] by linarith
  have up: "0 < int n - int c \<Longrightarrow> int n - int c < 2 * int ?w \<Longrightarrow> int n = int c + int ?w"
    using multiple_bound [OF dvd(2)] by linarith
  have down: "int n - int c < 0 \<Longrightarrow> - (2 * int ?w) < int n - int c \<Longrightarrow> int n = int c - int ?w"
    using multiple_bound [OF dvd(3)] by linarith
  show ?thesis
  proof (cases "h \<le> e \<and> c \<le> e - h")
    case True
    then have "int n = int c + int ?w"
      using low high c tw by (intro up) linarith+
    then show ?thesis
      using True by simp
  next
    case False
    then have above: "e < c + h"
      by linarith
    show ?thesis
    proof (cases "c > e + h")
      case True
      then have n: "int n = int c - int ?w"
        using low high c tw by (intro down) linarith+
      have "c \<noteq> ?w"
      proof
        assume "c = ?w"
        then have "e < h"
          using True by simp
        then show False
          using \<open>c = ?w\<close> tw by (simp add: c_def)
      qed
      then have "c > ?w" "n = c - ?w"
        using n by linarith+
      then show ?thesis
        using True False by auto
    next
      case below: False
      then have "int n = int c"
        using low high above by (intro eq) linarith+
      then show ?thesis
        using False below by auto
    qed
  qed
qed

section \<open>Round trip\<close>

lemma unat_candidate:
  fixes e t :: u64
  assumes "unat t < 2 ^ w" and "w < 64"
  shows "unat ((e AND NOT (push_bit w 1 - 1)) OR t) = unat e div 2 ^ w * 2 ^ w + unat t"
proof -
  have "(e AND NOT (mask w)) + take_bit w e = (e AND NOT (mask w)) OR take_bit w e"
    by (rule disjunctive_add) (auto simp: bit_simps)
  also have "\<dots> = e"
    by (rule bit_eqI) (auto simp: bit_simps)
  finally have "e AND NOT (mask w) = e - take_bit w e"
    by (simp add: algebra_simps)
  then have "e AND NOT (push_bit w 1 - 1) = e - take_bit w e"
    by (simp add: mask_eq_exp_minus_1)
  moreover have m: "unat (take_bit w e) = unat e mod 2 ^ w"
    unfolding unsigned_take_bit_eq by (simp add: take_bit_nat_def)
  moreover have "take_bit w e \<le> e"
    unfolding word_le_nat_alt m by simp
  ultimately have "unat (e AND NOT (push_bit w 1 - 1)) = unat e div 2 ^ w * 2 ^ w"
    by (simp add: unat_sub minus_mod_eq_div_mult)
  then show ?thesis
    using or_nat_disjoint [OF assms(1)] by (simp add: unsigned_or_eq)
qed

lemma unat_pow:
  assumes "w < 64"
  shows "unat (push_bit w 1 :: u64) = 2 ^ w"
proof -
  have "(2 :: nat) ^ w < 2 ^ 64"
    using assms by (intro power_strict_increasing) simp_all
  then show ?thesis
    unfolding unsigned_push_bit_eq by (simp add: take_bit_nat_def push_bit_nat_def)
qed

lemma expand_unat:
  fixes n e :: u64
  assumes w: "w = PacketNumber_len pn * 8" and t: "unat (truncated pn) = unat n mod 2 ^ w"
    and n: "unat n < 2 ^ 62" and low: "unat e < unat n + 2 ^ (w - 1)" and high: "unat n \<le> unat e + 2 ^ (w - 1)"
  shows "PacketNumber_expand pn e = Some n"
proof -
  let ?c = "(e AND NOT (push_bit w 1 - 1)) OR truncated pn"
  let ?h = "2 ^ (w - 1) :: nat"
  have w': "w \<in> {8, 16, 24, 32}"
    by (cases pn) (simp_all add: w)
  then have win: "2 ^ w = 2 * ?h" "?h \<le> 2 ^ 31" "0 < ?h" "w < 64"
    by auto
  have c: "unat ?c = unat e div (2 * ?h) * (2 * ?h) + unat (truncated pn)"
    using unat_candidate [of "truncated pn" w e] t win by simp
  have h: "unat (push_bit w 1 div 2 :: u64) = ?h" and ww: "unat (push_bit w 1 :: u64) = 2 * ?h"
    using unat_pow [OF win(4)] win(1) by (simp_all add: unat_div)
  have e: "unat e < 2 ^ 62 + 2 ^ 31"
    using low n win(2) by linarith
  have "unat (truncated pn) < 2 * ?h"
    using t win(1) by simp
  then have "unat ?c < 2 ^ 62 + 2 ^ 31 + 2 * 2 ^ 31"
    using e c win(2) div_times_less_eq_dividend [of "unat e" "2 * ?h"] by linarith
  note bounds = this e
  have uniq: "(if ?h \<le> unat e \<and> unat ?c \<le> unat e - ?h then unat ?c + 2 * ?h
      else if unat ?c > unat e + ?h \<and> unat ?c > 2 * ?h then unat ?c - 2 * ?h else unat ?c) = unat n"
    unfolding c by (rule window_unique [OF t [unfolded win(1), symmetric] low high win(3)])
  define C W H where CWH: "C = ?c" "W = (push_bit w 1 :: u64)" "H = W div 2"
  note facts = uniq [folded CWH] bounds(1) [folded CWH] h [folded CWH, folded CWH(3)] ww [folded CWH]
  have def: "PacketNumber_expand pn e =
      (if (case u64_checked_sub e H of None \<Rightarrow> False | Some x \<Rightarrow> C \<le> x) then u64_checked_add C W
       else do { top \<leftarrow> u64_checked_add e H; if C > top \<and> C > W then u64_checked_sub C W else Some C })"
    unfolding PacketNumber_expand_def w Let_def CWH ..
  have sub: "u64_checked_sub a b = (if unat b \<le> unat a then Some (a - b) else None)"
    and le: "a \<le> b \<longleftrightarrow> unat a \<le> unat b" and lt: "a < b \<longleftrightarrow> unat a < unat b" for a b :: u64
    by (simp_all add: u64_checked_sub_def word_le_nat_alt word_less_nat_alt)
  have dif: "unat (a - b) = unat a - unat b" if "unat b \<le> unat a" for a b :: u64
    using that by (simp add: unat_sub word_le_nat_alt)
  have sum: "u64_checked_add a b = Some (a + b)" "unat (a + b) = unat a + unat b" if "unat a + unat b < 2 ^ 64" for a b :: u64
    using that by (simp_all add: u64_checked_add_def unat_word_ariths)
  show ?thesis
  proof (cases "?h \<le> unat e \<and> unat C \<le> unat e - ?h")
    case True
    have "unat C + unat W < 2 ^ 64"
      using facts(2,4) win(2) by simp
    then have "u64_checked_add C W = Some (C + W)" "unat (C + W) = unat n"
      using facts(1,4) True sum [of C W] by simp_all
    then show ?thesis
      using True facts(3) unfolding def sub le by (simp add: dif word_unat_eq_iff)
  next
    case False
    have "unat e + unat H < 2 ^ 64"
      using facts(3) bounds(2) win(2) by simp
    note top = sum [OF this]
    have no: "\<not> (case u64_checked_sub e H of None \<Rightarrow> False | Some x \<Rightarrow> C \<le> x)"
      using False facts(3) unfolding sub le by (auto simp: dif)
    have n: "(if unat C > unat e + ?h \<and> unat C > 2 * ?h then unat C - 2 * ?h else unat C) = unat n"
      using facts(1) unfolding if_not_P [OF False] .
    show ?thesis
      unfolding def if_not_P [OF no] unfolding top(1) bind.bind_lunit sub lt top(2) facts(3,4)
      using n facts(4) dif [of W C] by (auto simp: word_unat_eq_iff split: if_splits)
  qed
qed

lemma new_cases:
  assumes "la \<le> n"
  shows "PacketNumber_new n la =
     (let d = unat n - unat la in
      if d < 2 ^ 7 then Some (U8 (ucast n)) else if d < 2 ^ 15 then Some (U16 (ucast n))
      else if d < 2 ^ 23 then Some (U24 (ucast n)) else if d < 2 ^ 31 then Some (U32 (ucast n)) else None)"
proof -
  define d where "d = n - la"
  have d: "unat d = unat n - unat la"
    using assms by (simp add: d_def unat_sub)
  show ?thesis
  proof (cases "unat d * 2 < 2 ^ 64")
    case True
    then have r: "unat (d * 2) = unat d * 2"
      by (simp add: unat_word_ariths)
    have lt: "d * 2 < push_bit w 1 \<longleftrightarrow> unat d * 2 < 2 ^ w" if "w < 64" for w
      unfolding word_less_nat_alt r unat_pow [OF that] ..
    have "PacketNumber_new n la = (if d * 2 < push_bit 8 1 then Some (U8 (ucast n)) else if d * 2 < push_bit 16 1 then Some (U16 (ucast n))
        else if d * 2 < push_bit 24 1 then Some (U24 (ucast n)) else if d * 2 < push_bit 32 1 then Some (U32 (ucast n)) else None)"
      using assms True unfolding PacketNumber_new_def u64_checked_sub_def u64_checked_mul_def d_def [symmetric]
      by simp
    also have "\<dots> = (if unat d * 2 < 2 ^ 8 then Some (U8 (ucast n)) else if unat d * 2 < 2 ^ 16 then Some (U16 (ucast n))
        else if unat d * 2 < 2 ^ 24 then Some (U24 (ucast n)) else if unat d * 2 < 2 ^ 32 then Some (U32 (ucast n)) else None)"
      using lt [of 8] lt [of 16] lt [of 24] lt [of 32] by simp
    finally show ?thesis
      unfolding d [symmetric] Let_def by simp
  next
    case False
    then show ?thesis
      using assms d by (simp add: PacketNumber_new_def u64_checked_sub_def u64_checked_mul_def d_def [symmetric] Let_def)
  qed
qed

lemma new_SomeD:
  assumes "PacketNumber_new n la = Some pn"
  shows "la \<le> n" and "unat n - unat la < 2 ^ (PacketNumber_len pn * 8 - 1)"
    and "pn \<in> {U8 (ucast n), U16 (ucast n), U24 (ucast n), U32 (ucast n)}"
proof -
  show le: "la \<le> n"
    using assms by (simp add: PacketNumber_new_def u64_checked_sub_def split: if_splits)
  show "unat n - unat la < 2 ^ (PacketNumber_len pn * 8 - 1)" "pn \<in> {U8 (ucast n), U16 (ucast n), U24 (ucast n), U32 (ucast n)}"
    using assms unfolding new_cases [OF le] Let_def by (auto split: if_splits)
qed

lemma unat_ucast_mod: "unat (ucast (n :: u64) :: byte) = unat n mod 2 ^ 8" "unat (ucast n :: u16) = unat n mod 2 ^ 16" "unat (ucast n :: u32) = unat n mod 2 ^ 32"
  by (simp_all add: unsigned_ucast_eq take_bit_nat_def)

lemma unat_truncated: "unat (ucast (x :: byte) :: u64) = unat x" "unat (ucast (y :: u16) :: u64) = unat y" "unat (ucast (z :: u32) :: u64) = unat z"
proof -
  have "unat x < 256" "unat y < 65536" "unat z < 4294967296"
    using unsigned_less [where w = x and 'a = nat] unsigned_less [where w = y and 'a = nat] unsigned_less [where w = z and 'a = nat] by simp_all
  then show "unat (ucast x :: u64) = unat x" "unat (ucast y :: u64) = unat y" "unat (ucast z :: u64) = unat z"
    by (simp_all add: unsigned_ucast_eq take_bit_nat_eq_self_iff)
qed

text \<open>What is written and read back has the low bytes of the number.\<close>

lemma decode_encode:
  assumes "PacketNumber_new n la = Some pn"
  shows "\<exists>pn'. PacketNumber_decode (PacketNumber_decode_len (PacketNumber_tag pn)) (PacketNumber_encode pn @ rest) = Some (Some (pn', rest))
    \<and> PacketNumber_len pn' = PacketNumber_len pn
    \<and> unat (truncated pn') = unat n mod 2 ^ (PacketNumber_len pn * 8)"
proof -
  have len: "PacketNumber_decode_len (PacketNumber_tag pn) = PacketNumber_len pn"
    by (cases pn) (simp_all add: PacketNumber_decode_len_def)
  have dec3: "get_be 3 (be_bytes 3 m @ rest) = Some (m mod 2 ^ 24, rest)" for m
    by (simp add: get_be_def from_be_be_bytes)
  have "unat (of_nat (unat n mod 2 ^ 32 mod 2 ^ 24) :: u32) = unat n mod 2 ^ 24"
    by (simp add: unat_of_nat mod_mod_cancel)
  then show ?thesis
    using new_SomeD(3) [OF assms] u8.dec_enc [of "ucast n" rest] u16.dec_enc [of "ucast n" rest] u32.dec_enc [of "ucast n" rest]
    unfolding len by (auto simp: PacketNumber_decode_def unat_truncated unat_ucast_mod dec3)
qed

section \<open>Properties\<close>

text \<open>
  C18. Packet numbers survive truncation.  A number \<open>n\<close> less than \<open>2^31\<close> above the largest
  acknowledged one can be encoded; the length is the one in the tag; and a receiver that reads it
  back and expects \<open>e\<close> (one more than the largest number it has received, hence at least the
  acknowledged one) expands it to \<open>n\<close>, unless \<open>n\<close> is half a window or more behind \<open>e\<close>.
\<close>

theorem PacketNumber_roundtrip:
  assumes "largest_acked \<le> n" and "unat n - unat largest_acked < 2 ^ 31" and "unat n < 2 ^ 62"
  shows "\<exists>pn pn'. PacketNumber_new n largest_acked = Some pn
    \<and> length (PacketNumber_encode pn) = PacketNumber_len pn
    \<and> PacketNumber_decode (PacketNumber_decode_len (PacketNumber_tag pn)) (PacketNumber_encode pn @ rest) = Some (Some (pn', rest))
    \<and> (\<forall>e. largest_acked \<le> e \<longrightarrow> unat e < unat n + 2 ^ (PacketNumber_len pn * 8 - 1) \<longrightarrow> PacketNumber_expand pn' e = Some n)"
proof -
  have "PacketNumber_new n largest_acked \<noteq> None"
    using assms(2) by (simp add: new_cases [OF assms(1)] Let_def)
  then obtain pn where pn: "PacketNumber_new n largest_acked = Some pn"
    by blast
  from decode_encode [OF pn] obtain pn' where dec:
    "PacketNumber_decode (PacketNumber_decode_len (PacketNumber_tag pn)) (PacketNumber_encode pn @ rest) = Some (Some (pn', rest))"
    "PacketNumber_len pn' = PacketNumber_len pn" "unat (truncated pn') = unat n mod 2 ^ (PacketNumber_len pn * 8)"
    by blast
  have "PacketNumber_expand pn' e = Some n"
    if "largest_acked \<le> e" "unat e < unat n + 2 ^ (PacketNumber_len pn * 8 - 1)" for e
    by (rule expand_unat [OF refl])
      (use that dec assms(3) new_SomeD(2) [OF pn] in \<open>simp_all add: word_le_nat_alt\<close>)
  moreover have "length (PacketNumber_encode pn) = PacketNumber_len pn"
    by (cases pn) (simp_all add: put_u8_def put_u16_def put_u32_def)
  ultimately show ?thesis
    using pn dec(1) by blast
qed

theorem PacketNumber_roundtrip_witness:
  "\<exists>pn pn'. PacketNumber_new 0xac5c02 0xabe8b3 = Some pn
    \<and> PacketNumber_decode (PacketNumber_decode_len (PacketNumber_tag pn)) (PacketNumber_encode pn) = Some (Some (pn', []))
    \<and> PacketNumber_expand pn' 0xac5b00 = Some 0xac5c02"
proof -
  obtain pn pn' where p: "PacketNumber_new 0xac5c02 0xabe8b3 = Some pn"
    "PacketNumber_decode (PacketNumber_decode_len (PacketNumber_tag pn)) (PacketNumber_encode pn) = Some (Some (pn', []))"
    "\<forall>e. 0xabe8b3 \<le> e \<longrightarrow> unat e < unat (0xac5c02 :: u64) + 2 ^ (PacketNumber_len pn * 8 - 1) \<longrightarrow> PacketNumber_expand pn' e = Some 0xac5c02"
    using PacketNumber_roundtrip [of "0xabe8b3" "0xac5c02" "[]"] by auto
  moreover have "PacketNumber_expand pn' 0xac5b00 = Some 0xac5c02"
    by (rule p(3) [rule_format]) (simp_all add: trans_less_add1)
  ultimately show ?thesis
    by blast
qed

end
