(* ===== verification/Packet_Space.thy ===== *)
theory Packet_Space
  imports Range_Set Frame
begin

text \<open>
  The receiving side of a packet number space (\<open>noq-proto/src/connection/spaces.rs\<close>): \<open>Dedup\<close>,
  which discards packets received before, and \<open>PendingAcks\<close>, which decides what to acknowledge
  and when.  Packet numbers and times are natural numbers, the window of \<open>Dedup\<close> is a word of 128
  bits.
\<close>

section \<open>Duplicate detection\<close>

record Dedup =
  d_window :: u128
  d_next :: nat

definition Dedup_default :: Dedup where
  "Dedup_default = \<lparr>d_window = 0, d_next = 0\<rparr>"

definition WINDOW_SIZE :: nat where
  "WINDOW_SIZE = 1 + 16 * 8"

definition BITFIELD_SIZE :: nat where
  "BITFIELD_SIZE = 16 * 8"

definition Dedup_highest :: "Dedup \<Rightarrow> nat option" where
  "Dedup_highest d = csub (d_next d) 1"

definition u128_checked_shl :: "nat \<Rightarrow> u128 \<Rightarrow> u128 option" where
  "u128_checked_shl n w = (if n < 128 then Some (push_bit n w) else None)"

definition Dedup_insert :: "nat \<Rightarrow> Dedup \<Rightarrow> (bool \<times> Dedup) option" where
  "Dedup_insert packet d =
     (case csub packet (d_next d) of
        Some diff \<Rightarrow>
          Some (False, d\<lparr>d_window := (case u128_checked_shl (min diff (2 ^ 32 - 1)) (push_bit 1 (d_window d) OR 1) of
                                        None \<Rightarrow> 0 | Some w \<Rightarrow> w),
                         d_next := packet + 1\<rparr>)
      | None \<Rightarrow> do {
          highest \<leftarrow> Dedup_highest d;
          behind \<leftarrow> csub highest packet;
          if behind < WINDOW_SIZE then
            (case csub behind 1 of
               Some b \<Rightarrow>
                 let mask = push_bit b 1 in
                 Some (d_window d AND mask \<noteq> 0, d\<lparr>d_window := d_window d OR mask\<rparr>)
             | None \<Rightarrow> Some (True, d))
          else Some (True, d) })"

definition leading_zeros :: "u128 \<Rightarrow> nat" where
  "leading_zeros w = length (takeWhile (\<lambda>k. \<not> bit w (127 - k)) [0..<128])"

definition smallest_missing_in_interval :: "nat \<Rightarrow> nat \<Rightarrow> Dedup \<Rightarrow> nat option option" where
  "smallest_missing_in_interval lower_bound upper_bound d = do {
     assert_opt (lower_bound \<le> upper_bound);
     highest \<leftarrow> Dedup_highest d;
     assert_opt (upper_bound \<le> highest);
     let lower_bound = lower_bound + 1;
     let upper_bound = upper_bound - 1;
     behind \<leftarrow> csub highest upper_bound;
     start_offset \<leftarrow> csub (max behind 1) 1;
     if start_offset \<ge> BITFIELD_SIZE then Some None
     else do {
       let end_offset_exclusive = highest - lower_bound;
       let range_len = min (end_offset_exclusive - start_offset) BITFIELD_SIZE;
       if range_len = 0 then Some None
       else do {
         let mask = (if range_len = BITFIELD_SIZE then - 1 else push_bit start_offset (push_bit range_len 1 - 1));
         let gaps = NOT (d_window d) AND mask;
         smallest_missing_offset \<leftarrow> csub 128 (leading_zeros gaps);
         smallest_missing_packet \<leftarrow> csub highest smallest_missing_offset;
         Some (if smallest_missing_packet \<le> upper_bound then Some smallest_missing_packet else None) } } }"

definition missing_in_interval :: "nat \<Rightarrow> nat \<Rightarrow> Dedup \<Rightarrow> bool option" where
  "missing_in_interval lower_bound upper_bound d =
     map_option (\<lambda>r. r \<noteq> None) (smallest_missing_in_interval lower_bound upper_bound d)"

text \<open>
  The window stands for a set of packet numbers: bit \<open>k\<close> is the packet \<open>k + 2\<close> below \<open>next\<close>.
\<close>

definition dedup_inv :: "nat set \<Rightarrow> Dedup \<Rightarrow> bool" where
  "dedup_inv S d \<longleftrightarrow> (\<forall>n \<in> S. n < d_next d) \<and> (0 < d_next d \<longrightarrow> d_next d - 1 \<in> S)
     \<and> (\<forall>k < 128. k + 2 \<le> d_next d \<longrightarrow> bit (d_window d) k \<longleftrightarrow> d_next d - 2 - k \<in> S)"

lemma dedup_inv_default: "dedup_inv {} Dedup_default"
  by (simp add: dedup_inv_def Dedup_default_def)

lemma dedup_inv_bit:
  assumes "dedup_inv S d" and "p + 1 < d_next d" and "d_next d - 1 - p \<le> 128"
  shows "bit (d_window d) (d_next d - 2 - p) \<longleftrightarrow> p \<in> S"
proof -
  let ?k = "d_next d - 2 - p"
  have "?k < 128" "?k + 2 \<le> d_next d" "d_next d - 2 - ?k = p"
    using assms(2,3) by simp_all
  then show ?thesis
    using assms(1) unfolding dedup_inv_def by metis
qed

lemma bit_shifted:
  "bit (push_bit n (push_bit 1 w OR 1) :: u128) k \<longleftrightarrow> k < 128 \<and> n \<le> k \<and> (k = n \<or> n < k \<and> bit w (k - n - 1))"
  unfolding bit_push_bit_iff bit_or_iff bit_1_iff by auto

lemma insert_new:
  assumes "dedup_inv S d" and "d_next d \<le> p"
  shows "\<exists>d'. Dedup_insert p d = Some (False, d') \<and> dedup_inv (insert p S) d' \<and> p \<notin> S"
proof -
  let ?diff = "p - d_next d"
  define w where "w = (case u128_checked_shl (min ?diff (2 ^ 32 - 1)) (push_bit 1 (d_window d) OR 1) of None \<Rightarrow> 0 | Some w \<Rightarrow> w)"
  have bits: "bit w k \<longleftrightarrow> ?diff \<le> k \<and> (k = ?diff \<or> ?diff < k \<and> bit (d_window d) (k - ?diff - 1))" if "k < 128" for k
  proof (cases "?diff < 128")
    case True
    then have "min ?diff (2 ^ 32 - 1) = ?diff"
      by simp
    then have "w = push_bit ?diff (push_bit 1 (d_window d) OR 1)"
      unfolding w_def u128_checked_shl_def using True by (simp only: if_True option.case)
    then show ?thesis
      using that bit_shifted [of ?diff "d_window d" k] by simp
  next
    case False
    then have "\<not> min ?diff (2 ^ 32 - 1) < 128"
      by simp
    then have "w = 0"
      unfolding w_def u128_checked_shl_def by (simp only: if_False option.case)
    then show ?thesis
      using that False by simp
  qed
  have "bit w k \<longleftrightarrow> p + 1 - 2 - k \<in> insert p S" if k: "k < 128" "k + 2 \<le> p + 1" for k
  proof -
    have ne: "p + 1 - 2 - k \<noteq> p"
      using k by simp
    consider "k < ?diff" | "k = ?diff" | "?diff < k"
      by linarith
    then show ?thesis
    proof cases
      case 1
      then have "d_next d \<le> p + 1 - 2 - k"
        using k by simp
      then show ?thesis
        using assms(1) 1 bits [OF k(1)] ne by (auto simp: dedup_inv_def)
    next
      case 2
      then have "p + 1 - 2 - k = d_next d - 1" "0 < d_next d"
        using k assms(2) by simp_all
      then show ?thesis
        using assms(1) 2 bits [OF k(1)] by (simp add: dedup_inv_def)
    next
      case 3
      then have "k - ?diff - 1 < 128" "k - ?diff - 1 + 2 \<le> d_next d" "d_next d - 2 - (k - ?diff - 1) = p + 1 - 2 - k"
        using k assms(2) by simp_all
      then have "bit (d_window d) (k - ?diff - 1) \<longleftrightarrow> p + 1 - 2 - k \<in> S"
        using assms(1) unfolding dedup_inv_def by metis
      then show ?thesis
        using 3 bits [OF k(1)] ne by auto
    qed
  qed
  then have "dedup_inv (insert p S) (d\<lparr>d_window := w, d_next := p + 1\<rparr>)"
    using assms by (auto simp: dedup_inv_def)
  moreover have "p \<notin> S"
    using assms by (auto simp: dedup_inv_def)
  ultimately show ?thesis
    using assms(2) by (simp add: Dedup_insert_def w_def)
qed

lemma bit_mask_1: "b < 128 \<Longrightarrow> bit (push_bit b 1 :: u128) k \<longleftrightarrow> k = b"
  by (auto simp: bit_simps)

lemma insert_old:
  assumes "dedup_inv S d" and "p < d_next d"
  shows "\<exists>dup d'. Dedup_insert p d = Some (dup, d') \<and> d_next d' = d_next d
    \<and> (if p + WINDOW_SIZE < d_next d then dup \<and> d' = d
       else (dup \<longleftrightarrow> p \<in> S) \<and> dedup_inv (insert p S) d')"
proof -
  have high: "Dedup_highest d = Some (d_next d - 1)" "d_next d - 1 \<in> S"
    using assms by (auto simp: Dedup_highest_def dedup_inv_def)
  have none: "csub p (d_next d) = None"
    using assms(2) by simp
  have ins: "Dedup_insert p d =
      (let behind = d_next d - 1 - p in
       if behind < WINDOW_SIZE then
         (case csub behind 1 of
            Some b \<Rightarrow> let mask = push_bit b 1 in Some (d_window d AND mask \<noteq> 0, d\<lparr>d_window := d_window d OR mask\<rparr>)
          | None \<Rightarrow> Some (True, d))
       else Some (True, d))"
    unfolding Dedup_insert_def none high(1) using assms(2) by (simp add: Let_def)
  show ?thesis
  proof (cases "p + WINDOW_SIZE < d_next d")
    case True
    then have "\<not> d_next d - 1 - p < WINDOW_SIZE"
      by simp
    then have "Dedup_insert p d = Some (True, d)"
      unfolding ins Let_def by (simp only: if_False)
    then show ?thesis
      using True by (intro exI [of _ True] exI [of _ d]) simp
  next
    case False
    then have lt: "d_next d - 1 - p < WINDOW_SIZE"
      using assms(2) by (simp add: WINDOW_SIZE_def)
    show ?thesis
    proof (cases "d_next d - 1 = p")
      case True
      then show ?thesis
        using high lt False assms(1) by (intro exI [of _ True] exI [of _ d]) (simp add: ins Let_def csub_None insert_absorb)
    next
      case ne: False
      define b where "b = d_next d - 2 - p"
      have b: "b < 128" "d_next d - 1 - p = Suc b" "p + 1 < d_next d" "d_next d - 1 - p \<le> 128"
        using ne lt assms(2) by (auto simp: b_def WINDOW_SIZE_def)
      let ?d = "d\<lparr>d_window := d_window d OR push_bit b 1\<rparr>"
      have "Dedup_insert p d = Some (d_window d AND push_bit b 1 \<noteq> 0, ?d)"
        using lt b(2) by (simp add: ins Let_def)
      moreover have "d_window d AND push_bit b 1 \<noteq> 0 \<longleftrightarrow> bit (d_window d) b"
        unfolding bit_iff_and_push_bit_not_eq_0 ..
      moreover have "bit (d_window d) b \<longleftrightarrow> p \<in> S"
        using dedup_inv_bit [OF assms(1) b(3,4)] by (simp add: b_def)
      moreover have "dedup_inv (insert p S) ?d"
      proof -
        have "bit (d_window ?d) k \<longleftrightarrow> d_next d - 2 - k \<in> insert p S" if k: "k < 128" "k + 2 \<le> d_next d" for k
        proof -
          have "bit (d_window ?d) k \<longleftrightarrow> bit (d_window d) k \<or> k = b"
            using bit_mask_1 [OF b(1), of k] by (simp add: bit_or_iff)
          moreover have "d_next d - 2 - k = p \<longleftrightarrow> k = b"
            using k b(3) by (auto simp: b_def)
          moreover have "bit (d_window d) k \<longleftrightarrow> d_next d - 2 - k \<in> S"
            using assms(1) k by (simp add: dedup_inv_def)
          ultimately show ?thesis
            by auto
        qed
        then show ?thesis
          using assms by (auto simp: dedup_inv_def)
      qed
      ultimately show ?thesis
        using False by (intro exI [of _ "d_window d AND push_bit b 1 \<noteq> 0"] exI [of _ ?d]) simp
    qed
  qed
qed

lemma leading_zeros_0 [simp]: "leading_zeros 0 = 128"
  unfolding leading_zeros_def by (subst takeWhile_eq_all_conv [THEN iffD2]) simp_all

lemma leading_zeros_top:
  assumes "bit w b" and "b < 128" and "\<And>k. b < k \<Longrightarrow> \<not> bit w k"
  shows "leading_zeros w = 127 - b"
proof -
  have "[0..<128] = [0..<127 - b] @ (127 - b) # [Suc (127 - b)..<128]"
    using assms(2) upt_add_eq_append [of 0 "127 - b" "Suc b"] by (simp add: upt_conv_Cons)
  moreover have "takeWhile (\<lambda>k. \<not> bit w (127 - k)) ([0..<127 - b] @ (127 - b) # xs) = [0..<127 - b]" for xs
  proof (subst takeWhile_append2)
    show "\<not> bit w (127 - k)" if "k \<in> set [0..<127 - b]" for k
      using that assms(2) by (intro assms(3)) auto
    show "[0..<127 - b] @ takeWhile (\<lambda>k. \<not> bit w (127 - k)) ((127 - b) # xs) = [0..<127 - b]"
      using assms(1,2) by simp
  qed
  ultimately show ?thesis
    unfolding leading_zeros_def by (metis diff_zero length_upt)
qed

lemma top_bit:
  assumes "(w :: u128) \<noteq> 0"
  obtains b where "bit w b" "b < 128" "\<And>k. b < k \<Longrightarrow> \<not> bit w k"
proof -
  have fin: "finite {k. bit w k}"
    by (rule finite_subset [of _ "{..<128}"]) (auto dest: bit_imp_le_length)
  moreover have "{k. bit w k} \<noteq> {}"
    using assms bit_eq_iff [of w 0] by auto
  ultimately have b: "bit w (Max {k. bit w k})" and le: "k \<le> Max {k. bit w k}" if "bit w k" for k
    using Max_in [of "{k. bit w k}"] that by auto
  obtain k where "bit w k"
    using \<open>{k. bit w k} \<noteq> {}\<close> by blast
  note top = b [OF this]
  show thesis
  proof (rule that [OF top])
    show "Max {k. bit w k} < 128"
      using bit_imp_le_length [OF top] by simp
    show "\<not> bit w k" if "Max {k. bit w k} < k" for k
      using le [of k] that by (simp only: not_le [symmetric]) blast
  qed
qed

lemma bit_interval:
  assumes "n < 128"
  shows "bit (push_bit m (push_bit n 1 - 1) :: u128) k \<longleftrightarrow> m \<le> k \<and> k < m + n \<and> k < 128"
  using assms by (auto simp: bit_push_bit_iff bit_mask_iff simp flip: mask_eq_exp_minus_1)

lemma smallest_missing_spec:
  assumes inv: "dedup_inv S d" and le: "lower \<le> upper" "upper < d_next d"
  shows "\<exists>r. smallest_missing_in_interval lower upper d = Some r \<and>
    (case r of
       None \<Rightarrow> (\<forall>p. lower < p \<and> p < upper \<and> d_next d \<le> p + WINDOW_SIZE \<longrightarrow> p \<in> S)
     | Some m \<Rightarrow> lower < m \<and> m < upper \<and> m \<notin> S
         \<and> (\<forall>p. lower < p \<and> p < m \<and> d_next d \<le> p + WINDOW_SIZE \<longrightarrow> p \<in> S))"
proof -
  define h where "h = d_next d - 1"
  have h: "Dedup_highest d = Some h" "upper \<le> h" "d_next d = h + 1"
    using le by (auto simp: Dedup_highest_def h_def)
  define start where "start = max (h - (upper - 1)) 1 - 1"
  define len where "len = min (h - (lower + 1) - start) BITFIELD_SIZE"
  define gaps where "gaps = NOT (d_window d) AND (if len = BITFIELD_SIZE then - 1 else push_bit start (push_bit len 1 - 1))"
  have le2: "upper - 1 \<le> h" "1 \<le> max (h - (upper - 1)) 1"
    using h(2) by simp_all
  have eq: "smallest_missing_in_interval lower upper d =
      (if start \<ge> BITFIELD_SIZE then Some None else if len = 0 then Some None
       else do {
         off \<leftarrow> csub 128 (leading_zeros gaps);
         m \<leftarrow> csub h off;
         Some (if m \<le> upper - 1 then Some m else None) })"
  proof -
    have a: "assert_opt (lower \<le> upper) = Some ()" "assert_opt (upper \<le> h) = Some ()"
      using le(1) h(2) by simp_all
    show ?thesis
      unfolding smallest_missing_in_interval_def a h(1) bind.bind_lunit csub_Some [OF le2(1)] Let_def
      unfolding csub_Some [OF le2(2)] bind.bind_lunit start_def [symmetric] len_def [symmetric] gaps_def [symmetric] ..
  qed
  have bits: "bit gaps k \<longleftrightarrow> k < 128 \<and> \<not> bit (d_window d) k \<and> (len = BITFIELD_SIZE \<or> start \<le> k \<and> k < start + len)" for k
  proof (cases "len = BITFIELD_SIZE")
    case True
    then show ?thesis
      by (simp add: gaps_def bit_and_iff bit_not_iff)
  next
    case False
    then have "len < 128"
      by (simp add: len_def BITFIELD_SIZE_def)
    then show ?thesis
      using bit_interval [of len start k] False unfolding gaps_def if_not_P [OF False] bit_and_iff bit_not_iff by auto
  qed
  have window: "bit (d_window d) (h - 1 - p) \<longleftrightarrow> p \<in> S" if "p < h" "h \<le> p + 128" for p
    using dedup_inv_bit [OF inv, of p] that h(3) by simp
  have missing: "start < BITFIELD_SIZE \<and> len \<noteq> 0 \<and> bit gaps (h - 1 - p)"
    if p: "lower < p" "p < upper" "d_next d \<le> p + WINDOW_SIZE" "p \<notin> S" for p
  proof -
    have w: "p < h" "h \<le> p + 128"
      using p h by (simp_all add: WINDOW_SIZE_def)
    have "start \<le> h - 1 - p" "h - 1 - p < h - (lower + 1)" "h - 1 - p < 128"
      using p w h(2) by (auto simp: start_def)
    then show ?thesis
      using window [OF w] p(4) by (auto simp: bits len_def BITFIELD_SIZE_def)
  qed
  show ?thesis
  proof (cases "start \<ge> BITFIELD_SIZE \<or> len = 0")
    case True
    then have "p \<in> S" if "lower < p" "p < upper" "d_next d \<le> p + WINDOW_SIZE" for p
      using missing [OF that] by (cases "p \<in> S") auto
    then show ?thesis
      using True by (auto simp: eq)
  next
    case False
    then have fit: "start < BITFIELD_SIZE" "0 < len" and end_pos: "start < h - (lower + 1)"
      by (auto simp: len_def)
    show ?thesis
    proof (cases "gaps = 0")
      case True
      then have "smallest_missing_in_interval lower upper d = Some None"
        using False end_pos h(2) by (simp add: eq)
      moreover have "p \<in> S" if "lower < p" "p < upper" "d_next d \<le> p + WINDOW_SIZE" for p
        using missing [OF that] True by (cases "p \<in> S") auto
      ultimately show ?thesis
        by simp
    next
      case nz: False
      obtain b where b: "bit gaps b" "b < 128" and top: "\<And>k. b < k \<Longrightarrow> \<not> bit gaps k"
        using top_bit [OF nz] by blast
      have b_end: "b < h - (lower + 1)"
        using b(1) fit b(2) by (auto simp: bits len_def BITFIELD_SIZE_def split: if_splits)
      define m where "m = h - 1 - b"
      have m: "lower < m" "m < h" "h \<le> m + 128" "h - 1 - m = b" "h - Suc b = m" "Suc b \<le> h"
        using b_end b(2) by (auto simp: m_def)
      have "m \<notin> S"
        using window [OF m(2,3)] m(4) b(1) by (simp add: bits)
      moreover have res: "smallest_missing_in_interval lower upper d = Some (if m \<le> upper - 1 then Some m else None)"
        using False leading_zeros_top [OF b top] b(2) m(5,6) by (simp add: eq)
      moreover have "p \<in> S" if "lower < p" "p < upper" "p < m" "d_next d \<le> p + WINDOW_SIZE" for p
      proof -
        have "b < h - 1 - p"
          using that(3) m by linarith
        then show ?thesis
          using missing [OF that(1,2,4)] top by blast
      qed
      ultimately show ?thesis
        using m(1) by (cases "m \<le> upper - 1") auto
    qed
  qed
qed

section \<open>Acknowledgements to send\<close>

record PendingAcks =
  pak_immediate_ack_required :: bool
  pak_ack_eliciting_since_last_ack_sent :: nat
  pak_non_ack_eliciting_since_last_ack_sent :: nat
  pak_ack_eliciting_threshold :: nat
  pak_reordering_threshold :: nat
  pak_earliest_ack_eliciting_since_last_ack_sent :: "nat option"
  pak_ranges :: ArrayRangeSet
  pak_largest_packet :: "(nat \<times> nat) option"
  pak_largest_ack_eliciting_packet :: "nat option"
  pak_largest_acked :: "nat option"

definition MAX_ACK_BLOCKS :: nat where
  "MAX_ACK_BLOCKS = 64"

definition LAZY_ACK_THRESHOLD :: nat where
  "LAZY_ACK_THRESHOLD = 10"

definition PendingAcks_new :: PendingAcks where
  "PendingAcks_new =
     \<lparr>pak_immediate_ack_required = False, pak_ack_eliciting_since_last_ack_sent = 0,
      pak_non_ack_eliciting_since_last_ack_sent = 0, pak_ack_eliciting_threshold = 1, pak_reordering_threshold = 1,
      pak_earliest_ack_eliciting_since_last_ack_sent = None, pak_ranges = [], pak_largest_packet = None,
      pak_largest_ack_eliciting_packet = None, pak_largest_acked = None\<rparr>"

definition set_ack_frequency_params :: "AckFrequency \<Rightarrow> PendingAcks \<Rightarrow> PendingAcks" where
  "set_ack_frequency_params f a =
     a\<lparr>pak_ack_eliciting_threshold := unat (into_inner (af_ack_eliciting_threshold f)),
       pak_reordering_threshold := unat (into_inner (af_reordering_threshold f))\<rparr>"

definition set_immediate_ack_required :: "PendingAcks \<Rightarrow> PendingAcks" where
  "set_immediate_ack_required a = a\<lparr>pak_immediate_ack_required := True\<rparr>"

definition on_max_ack_delay_timeout :: "PendingAcks \<Rightarrow> PendingAcks" where
  "on_max_ack_delay_timeout a = a\<lparr>pak_immediate_ack_required := (pak_ack_eliciting_since_last_ack_sent a > 0)\<rparr>"

definition max_ack_delay_timeout :: "nat \<Rightarrow> PendingAcks \<Rightarrow> nat option" where
  "max_ack_delay_timeout max_ack_delay a =
     map_option (\<lambda>t. t + max_ack_delay) (pak_earliest_ack_eliciting_since_last_ack_sent a)"

definition PendingAcks_can_send :: "PendingAcks \<Rightarrow> bool" where
  "PendingAcks_can_send a \<longleftrightarrow> pak_immediate_ack_required a \<and> \<not> ars_is_empty (pak_ranges a)"

definition ack_delay :: "nat \<Rightarrow> PendingAcks \<Rightarrow> nat" where
  "ack_delay now a = (case pak_largest_packet a of None \<Rightarrow> 0 | Some (_, received_at) \<Rightarrow> now - received_at)"

definition is_out_of_order :: "nat \<Rightarrow> nat \<Rightarrow> Dedup \<Rightarrow> PendingAcks \<Rightarrow> bool option" where
  "is_out_of_order packet_number prev_largest_ack_eliciting dedup a =
     (if pak_reordering_threshold a = 0 then Some False
      else if pak_reordering_threshold a = 1 then
        if packet_number < prev_largest_ack_eliciting then Some True
        else missing_in_interval prev_largest_ack_eliciting packet_number dedup
      else
        case (pak_largest_acked a, pak_largest_ack_eliciting_packet a) of
          (Some largest_acked, Some largest_unacked) \<Rightarrow>
            if pak_reordering_threshold a > largest_acked then Some False
            else do {
              n \<leftarrow> csub largest_acked (pak_reordering_threshold a);
              let largest_reported = n + 1;
              r \<leftarrow> smallest_missing_in_interval largest_reported largest_unacked dedup;
              case r of
                None \<Rightarrow> Some False
              | Some smallest_missing_unreported \<Rightarrow> do {
                  n \<leftarrow> csub largest_unacked smallest_missing_unreported;
                  Some (n \<ge> pak_reordering_threshold a) } }
        | _ \<Rightarrow> Some False)"

definition packet_received :: "nat \<Rightarrow> nat \<Rightarrow> bool \<Rightarrow> Dedup \<Rightarrow> PendingAcks \<Rightarrow> (bool \<times> PendingAcks) option" where
  "packet_received now packet_number ack_eliciting dedup a =
     (if \<not> ack_eliciting then
        Some (False, a\<lparr>pak_non_ack_eliciting_since_last_ack_sent := pak_non_ack_eliciting_since_last_ack_sent a + 1\<rparr>)
      else do {
        let prev = (case pak_largest_ack_eliciting_packet a of None \<Rightarrow> 0 | Some pn \<Rightarrow> pn);
        let a = a\<lparr>pak_largest_ack_eliciting_packet :=
              (case pak_largest_ack_eliciting_packet a of None \<Rightarrow> Some packet_number | Some pn \<Rightarrow> Some (max pn packet_number)),
            pak_ack_eliciting_since_last_ack_sent := pak_ack_eliciting_since_last_ack_sent a + 1\<rparr>;
        let a = a\<lparr>pak_immediate_ack_required := (pak_immediate_ack_required a
              \<or> pak_ack_eliciting_since_last_ack_sent a > pak_ack_eliciting_threshold a)\<rparr>;
        out_of_order \<leftarrow> is_out_of_order packet_number prev dedup a;
        let a = a\<lparr>pak_immediate_ack_required := (pak_immediate_ack_required a \<or> out_of_order)\<rparr>;
        if pak_earliest_ack_eliciting_since_last_ack_sent a = None \<and> \<not> PendingAcks_can_send a
        then Some (True, a\<lparr>pak_earliest_ack_eliciting_since_last_ack_sent := Some now\<rparr>)
        else Some (False, a) })"

definition acks_sent :: "PendingAcks \<Rightarrow> PendingAcks" where
  "acks_sent a = a\<lparr>pak_immediate_ack_required := False, pak_ack_eliciting_since_last_ack_sent := 0,
     pak_non_ack_eliciting_since_last_ack_sent := 0, pak_earliest_ack_eliciting_since_last_ack_sent := None,
     pak_largest_acked := pak_largest_ack_eliciting_packet a\<rparr>"

definition PendingAcks_insert_one :: "nat \<Rightarrow> nat \<Rightarrow> PendingAcks \<Rightarrow> PendingAcks" where
  "PendingAcks_insert_one packet now a =
     (let a = a\<lparr>pak_ranges := snd (ars_insert_one packet (pak_ranges a))\<rparr>;
          a = (if (case pak_largest_packet a of None \<Rightarrow> True | Some (pn, _) \<Rightarrow> packet > pn)
               then a\<lparr>pak_largest_packet := Some (packet, now)\<rparr> else a) in
      if length (pak_ranges a) > MAX_ACK_BLOCKS then a\<lparr>pak_ranges := snd (ars_pop_min (pak_ranges a))\<rparr> else a)"

definition subtract_below :: "nat \<Rightarrow> PendingAcks \<Rightarrow> PendingAcks" where
  "subtract_below m a = a\<lparr>pak_ranges := snd (ars_remove (0, m + 1) (pak_ranges a))\<rparr>"

definition maybe_ack_non_eliciting :: "PendingAcks \<Rightarrow> PendingAcks" where
  "maybe_ack_non_eliciting a =
     (if pak_non_ack_eliciting_since_last_ack_sent a > LAZY_ACK_THRESHOLD
      then a\<lparr>pak_immediate_ack_required := True\<rparr> else a)"

section \<open>A packet number space as a transition system\<close>

text \<open>
  A packet is checked for duplicates when it is decrypted, entered into the ranges when it is
  authenticated, and counted when its frames have been handled; packets may be dropped in between.
  The system records the numbers of the packets that were not discarded as duplicates.
\<close>

datatype pn_op =
    CheckPacket nat | AuthPacket nat nat | FinishPacket nat nat bool | AcksSent | SubtractBelow nat
  | AckParams AckFrequency | ImmediateAck | AckTimeout | MaybeAck

type_synonym pn_space = "Dedup \<times> PendingAcks \<times> nat set"

fun pn_exec :: "pn_op \<Rightarrow> pn_space \<Rightarrow> pn_space option" where
  "pn_exec (CheckPacket p) (d, a, S) =
     map_option (\<lambda>(dup, d). (d, a, if dup then S else insert p S)) (Dedup_insert p d)"
| "pn_exec (AuthPacket p now) (d, a, S) = Some (d, PendingAcks_insert_one p now a, S)"
| "pn_exec (FinishPacket now p eliciting) (d, a, S) = map_option (\<lambda>(_, a). (d, a, S)) (packet_received now p eliciting d a)"
| "pn_exec AcksSent (d, a, S) = Some (d, acks_sent a, S)"
| "pn_exec (SubtractBelow m) (d, a, S) = Some (d, subtract_below m a, S)"
| "pn_exec (AckParams f) (d, a, S) = Some (d, set_ack_frequency_params f a, S)"
| "pn_exec ImmediateAck (d, a, S) = Some (d, set_immediate_ack_required a, S)"
| "pn_exec AckTimeout (d, a, S) = Some (d, on_max_ack_delay_timeout a, S)"
| "pn_exec MaybeAck (d, a, S) = Some (d, maybe_ack_non_eliciting a, S)"

fun pn_enabled :: "pn_op \<Rightarrow> pn_space \<Rightarrow> bool" where
  "pn_enabled (AuthPacket p now) (d, a, S) = (p \<in> S)"
| "pn_enabled (FinishPacket now p eliciting) (d, a, S) = (p \<in> S)"
| "pn_enabled _ _ = True"

definition pn_init :: pn_space where
  "pn_init = (Dedup_default, PendingAcks_new, {})"

inductive pn_step :: "pn_space \<Rightarrow> pn_space \<Rightarrow> bool" where
  "pn_enabled op x \<Longrightarrow> pn_exec op x = Some y \<Longrightarrow> pn_step x y"

definition acks_ok :: "nat set \<Rightarrow> PendingAcks \<Rightarrow> bool" where
  "acks_ok S a \<longleftrightarrow> ars_inv (pak_ranges a) \<and> ars_set (pak_ranges a) \<subseteq> S \<and> length (pak_ranges a) \<le> MAX_ACK_BLOCKS
     \<and> (\<forall>x. pak_largest_ack_eliciting_packet a = Some x \<longrightarrow> x \<in> S)
     \<and> (\<forall>x. pak_largest_acked a = Some x \<longrightarrow> (\<exists>y. pak_largest_ack_eliciting_packet a = Some y \<and> x \<le> y))"

fun pn_inv :: "pn_space \<Rightarrow> bool" where
  "pn_inv (d, a, S) = (dedup_inv S d \<and> acks_ok S a)"

lemma length_ars_merge: "length (ars_merge r rs) \<le> Suc (length rs)"
  by (induction r rs rule: ars_merge.induct) auto

lemma length_ars_insert_loop: "length (snd (ars_insert_loop b x s)) \<le> Suc (length s)"
proof (induction s arbitrary: b)
  case (Cons r rs)
  have "length (ars_merge q rs) \<le> Suc (Suc (length rs))" for q
    using length_ars_merge [of q rs] by simp
  then show ?case
    using Cons.IH by (simp add: Let_def case_prod_beta)
qed simp

lemma length_ars_remove_loop: "fst x = 0 \<Longrightarrow> length (snd (ars_remove_loop b x s)) \<le> length s"
proof (induction s arbitrary: b)
  case (Cons r rs)
  have "length (snd (ars_remove_loop b x rs)) \<le> length rs" for b
    using Cons by blast
  then show ?case
    using Cons.prems by (simp add: Let_def case_prod_beta range_is_empty_def le_SucI)
qed simp

lemma insert_one_ok:
  assumes "acks_ok S a" and "p \<in> S"
  shows "acks_ok S (PendingAcks_insert_one p now a)"
proof -
  let ?r = "snd (ars_insert_one p (pak_ranges a))"
  have inv: "ars_inv (pak_ranges a)" "ars_set (pak_ranges a) \<subseteq> S" "length (pak_ranges a) \<le> MAX_ACK_BLOCKS"
    using assms(1) by (auto simp: acks_ok_def)
  have r: "ars_inv ?r" "ars_set ?r \<subseteq> S" "length ?r \<le> Suc MAX_ACK_BLOCKS"
    using inv assms(2) ars_insert_inv [of "pak_ranges a" "(p, p + 1)"] ars_insert_set [of "pak_ranges a" "(p, p + 1)"]
      length_ars_insert_loop [of False "(p, p + 1)" "pak_ranges a"]
    by (auto simp: ars_insert_one_def ars_insert_def rset_def range_is_empty_def)
  then have pop: "ars_inv (snd (ars_pop_min ?r))" "ars_set (snd (ars_pop_min ?r)) \<subseteq> S" "length ?r > MAX_ACK_BLOCKS \<Longrightarrow> length (snd (ars_pop_min ?r)) \<le> MAX_ACK_BLOCKS"
    by (auto simp: ars_pop_min_def split: list.splits)
  show ?thesis
    using assms(1) r pop by (auto simp: acks_ok_def PendingAcks_insert_one_def Let_def)
qed

lemma subtract_below_ok:
  assumes "acks_ok S a"
  shows "acks_ok S (subtract_below m a)"
  using assms ars_remove_inv [of "pak_ranges a" "(0, m + 1)"] ars_remove_set [of "pak_ranges a" "(0, m + 1)"]
    length_ars_remove_loop [of "(0, m + 1)" False "pak_ranges a"]
  by (auto simp: acks_ok_def subtract_below_def ars_remove_def range_is_empty_def)

lemma out_of_order_total:
  assumes d: "dedup_inv S d" and a: "acks_ok S a" and p: "p \<in> S"
    and "pak_largest_ack_eliciting_packet a = Some y" "p \<le> y"
  shows "is_out_of_order p prev d a \<noteq> None"
proof -
  have lt: "p < d_next d" "y < d_next d" "y \<in> S"
    using d p a assms(4) by (auto simp: dedup_inv_def acks_ok_def)
  have first: "prev \<le> p \<Longrightarrow> missing_in_interval prev p d \<noteq> None"
    using smallest_missing_spec [OF d _ lt(1), of prev] by (auto simp: missing_in_interval_def)
  have second: "\<exists>r. smallest_missing_in_interval l y d = Some r \<and> (\<forall>m. r = Some m \<longrightarrow> m \<le> y)" if "l \<le> y" for l
    using smallest_missing_spec [OF d that lt(2)] by (auto split: option.splits)
  have le: "x \<le> y" if "pak_largest_acked a = Some x" for x
    using a that assms(4) by (auto simp: acks_ok_def)
  consider "pak_reordering_threshold a = 0" | "pak_reordering_threshold a = 1" | "1 < pak_reordering_threshold a"
    by linarith
  then show ?thesis
  proof cases
    case 2
    then show ?thesis
      using first by (auto simp: is_out_of_order_def ex_bool_eq not_less)
  next
    case 3
    show ?thesis
    proof (cases "pak_largest_acked a")
      case None
      then show ?thesis
        using 3 by (simp add: is_out_of_order_def)
    next
      case (Some x)
      show ?thesis
      proof (cases "pak_reordering_threshold a \<le> x")
        case True
        then have "x - pak_reordering_threshold a + 1 \<le> y"
          using le [OF Some] 3 by linarith
        from second [OF this] obtain r where
          "smallest_missing_in_interval (x - pak_reordering_threshold a + 1) y d = Some r" "\<forall>m. r = Some m \<longrightarrow> m \<le> y"
          by blast
        then show ?thesis
          using 3 Some True assms(4) by (cases r) (simp_all add: is_out_of_order_def)
      qed (use 3 Some assms(4) in \<open>simp add: is_out_of_order_def\<close>)
    qed
  qed (simp add: is_out_of_order_def)
qed

lemma packet_received_ok:
  assumes "dedup_inv S d" and "acks_ok S a" and "p \<in> S"
  shows "\<exists>b a'. packet_received now p eliciting d a = Some (b, a') \<and> acks_ok S a'"
proof (cases eliciting)
  case True
  define prev where "prev = (case pak_largest_ack_eliciting_packet a of None \<Rightarrow> 0 | Some pn \<Rightarrow> pn)"
  define y where "y = (case pak_largest_ack_eliciting_packet a of None \<Rightarrow> p | Some pn \<Rightarrow> max pn p)"
  define a1 where "a1 = a\<lparr>pak_largest_ack_eliciting_packet := Some y,
      pak_ack_eliciting_since_last_ack_sent := pak_ack_eliciting_since_last_ack_sent a + 1,
      pak_immediate_ack_required := (pak_immediate_ack_required a
        \<or> pak_ack_eliciting_since_last_ack_sent a + 1 > pak_ack_eliciting_threshold a)\<rparr>"
  have y: "p \<le> y" "y \<in> S"
    using assms(2,3) by (auto simp: y_def acks_ok_def max_def split: option.splits)
  have a1: "acks_ok S a1"
    using assms(2) y by (fastforce simp: acks_ok_def a1_def y_def split: option.splits)
  obtain late where late: "is_out_of_order p prev d a1 = Some late"
    using out_of_order_total [OF assms(1) a1 assms(3) _ y(1)] by (auto simp: a1_def)
  let ?a2 = "a1\<lparr>pak_immediate_ack_required := (pak_immediate_ack_required a1 \<or> late)\<rparr>"
  have upd: "(case pak_largest_ack_eliciting_packet a of None \<Rightarrow> Some p | Some pn \<Rightarrow> Some (max pn p)) = Some y"
    by (simp add: y_def split: option.split)
  have "packet_received now p eliciting d a =
      (if pak_earliest_ack_eliciting_since_last_ack_sent ?a2 = None \<and> \<not> PendingAcks_can_send ?a2
       then Some (True, ?a2\<lparr>pak_earliest_ack_eliciting_since_last_ack_sent := Some now\<rparr>) else Some (False, ?a2))"
    unfolding packet_received_def prev_def [symmetric] upd using True late by (simp add: a1_def Let_def)
  then have "packet_received now p eliciting d a = Some (True, ?a2\<lparr>pak_earliest_ack_eliciting_since_last_ack_sent := Some now\<rparr>)
      \<or> packet_received now p eliciting d a = Some (False, ?a2)"
    by argo
  moreover have "acks_ok S ?a2" "acks_ok S (?a2\<lparr>pak_earliest_ack_eliciting_since_last_ack_sent := Some now\<rparr>)"
    using a1 by (simp_all add: acks_ok_def)
  ultimately show ?thesis
    by blast
qed (use assms(2) in \<open>simp add: packet_received_def acks_ok_def ex_bool_eq\<close>)

lemma simple_ack_ops_ok:
  assumes "acks_ok S a"
  shows "acks_ok S (acks_sent a)" "acks_ok S (set_ack_frequency_params f a)" "acks_ok S (set_immediate_ack_required a)"
    "acks_ok S (on_max_ack_delay_timeout a)" "acks_ok S (maybe_ack_non_eliciting a)"
  using assms by (auto simp: acks_ok_def acks_sent_def set_ack_frequency_params_def set_immediate_ack_required_def
      on_max_ack_delay_timeout_def maybe_ack_non_eliciting_def)

lemma check_packet_ok:
  assumes "dedup_inv S d"
  shows "\<exists>dup d'. Dedup_insert p d = Some (dup, d') \<and> dedup_inv (if dup then S else insert p S) d'
    \<and> (dup \<longrightarrow> p \<in> S \<or> p + WINDOW_SIZE < d_next d) \<and> (\<not> dup \<longrightarrow> p \<notin> S)"
proof (cases "d_next d \<le> p")
  case True
  then show ?thesis
    using insert_new [OF assms True] by auto
next
  case False
  then obtain dup d' where ins: "Dedup_insert p d = Some (dup, d')"
    and res: "if p + WINDOW_SIZE < d_next d then dup \<and> d' = d else (dup \<longleftrightarrow> p \<in> S) \<and> dedup_inv (insert p S) d'"
    using insert_old [OF assms, of p] by (auto simp: not_le)
  show ?thesis
  proof (cases "p + WINDOW_SIZE < d_next d")
    case True
    then show ?thesis
      using ins res assms by (simp add: ex_bool_eq)
  next
    case False
    then show ?thesis
      using ins res by (cases dup) (auto simp: insert_absorb ex_bool_eq)
  qed
qed

lemma acks_ok_mono: "acks_ok S a \<Longrightarrow> S \<subseteq> T \<Longrightarrow> acks_ok T a"
  by (auto simp: acks_ok_def)

lemma pn_exec_ok:
  assumes "pn_inv x" and "pn_enabled op x"
  shows "\<exists>y. pn_exec op x = Some y \<and> pn_inv y"
proof -
  obtain d a S where x: "x = (d, a, S)"
    by (cases x)
  with assms(1) have inv: "dedup_inv S d" "acks_ok S a"
    by auto
  show ?thesis
  proof (cases op)
    case (CheckPacket p)
    obtain dup d' where "Dedup_insert p d = Some (dup, d')" "dedup_inv (if dup then S else insert p S) d'"
      using check_packet_ok [OF inv(1), of p] by blast
    moreover have "acks_ok (if dup then S else insert p S) a"
      using acks_ok_mono [OF inv(2), of "insert p S"] inv(2) by auto
    ultimately show ?thesis
      using CheckPacket x by simp
  next
    case (FinishPacket now p eliciting)
    then obtain b a' where "packet_received now p eliciting d a = Some (b, a')" "acks_ok S a'"
      using packet_received_ok [OF inv, of p now eliciting] assms(2) x by auto
    then show ?thesis
      using FinishPacket x inv(1) by simp
  qed (use inv assms(2) x in \<open>simp_all add: insert_one_ok subtract_below_ok simple_ack_ops_ok\<close>)
qed

interpretation pn_life: invariant_system "\<lambda>x. x = pn_init" pn_step pn_inv
proof
  show "pn_inv x" if "x = pn_init" for x
    using that by (simp add: pn_init_def dedup_inv_default acks_ok_def PendingAcks_new_def)
  show "pn_inv y" if "pn_inv x" "pn_step x y" for x y
    using that(2,1) by cases (use pn_exec_ok in fastforce)
qed

section \<open>Properties\<close>

text \<open>
  C17. A packet number space, whatever packets arrive and in whatever order they are checked,
  authenticated and finished: no operation panics; a packet is let through as new only if it was
  not let through before, and is discarded only if it was or if it is more than a window behind the
  highest one; only packets that were let through are acknowledged, in at most
  \<open>MAX_ACK_BLOCKS\<close> ranges.
\<close>

theorem pn_space_safe:
  assumes "pn_step\<^sup>*\<^sup>* pn_init (d, a, S)"
  shows "(pn_enabled op (d, a, S) \<longrightarrow> pn_exec op (d, a, S) \<noteq> None)
    \<and> (\<forall>p. \<exists>dup d'. Dedup_insert p d = Some (dup, d')
          \<and> (dup \<longrightarrow> p \<in> S \<or> p + WINDOW_SIZE < d_next d) \<and> (\<not> dup \<longrightarrow> p \<notin> S))
    \<and> ars_inv (pak_ranges a) \<and> ars_set (pak_ranges a) \<subseteq> S \<and> length (pak_ranges a) \<le> MAX_ACK_BLOCKS"
proof -
  have inv: "pn_inv (d, a, S)"
    using pn_life.inv_reachable [OF refl assms] .
  then have d: "dedup_inv S d" and a: "acks_ok S a"
    by simp_all
  have "pn_enabled op (d, a, S) \<longrightarrow> pn_exec op (d, a, S) \<noteq> None"
    using pn_exec_ok [OF inv, of op] by auto
  moreover have "\<exists>dup d'. Dedup_insert p d = Some (dup, d')
      \<and> (dup \<longrightarrow> p \<in> S \<or> p + WINDOW_SIZE < d_next d) \<and> (\<not> dup \<longrightarrow> p \<notin> S)" for p
    using check_packet_ok [OF d, of p] by blast
  ultimately show ?thesis
    using a unfolding acks_ok_def by blast
qed

text \<open>A space that has received the packets 0, 1 and 5, one of them late.\<close>

lemma demo_checks:
  "Dedup_insert 1 Dedup_default = Some (False, \<lparr>d_window = 2, d_next = 2\<rparr>)"
  "Dedup_insert 5 \<lparr>d_window = 2, d_next = 2\<rparr> = Some (False, \<lparr>d_window = 0x28, d_next = 6\<rparr>)"
  "Dedup_insert 0 \<lparr>d_window = 0x28, d_next = 6\<rparr> = Some (False, \<lparr>d_window = 0x38, d_next = 6\<rparr>)"
  by (simp_all add: Dedup_insert_def Dedup_default_def u128_checked_shl_def Dedup_highest_def WINDOW_SIZE_def csub_def)

lemma demo_space: "pn_step\<^sup>*\<^sup>* pn_init (\<lparr>d_window = 0x38, d_next = 6\<rparr>, PendingAcks_insert_one 5 7 PendingAcks_new, {0, 5, 1})"
proof -
  have "pn_step pn_init (\<lparr>d_window = 2, d_next = 2\<rparr>, PendingAcks_new, {1})"
    by (rule pn_step.intros [of "CheckPacket 1"]) (simp_all add: pn_init_def demo_checks [unfolded One_nat_def])
  moreover have "pn_step (\<lparr>d_window = 2, d_next = 2\<rparr>, PendingAcks_new, {1}) (\<lparr>d_window = 0x28, d_next = 6\<rparr>, PendingAcks_new, {5, 1})"
    by (rule pn_step.intros [of "CheckPacket 5"]) (simp_all add: demo_checks)
  moreover have "pn_step (\<lparr>d_window = 0x28, d_next = 6\<rparr>, PendingAcks_new, {5, 1}) (\<lparr>d_window = 0x38, d_next = 6\<rparr>, PendingAcks_new, {0, 5, 1})"
    by (rule pn_step.intros [of "CheckPacket 0"]) (simp_all add: demo_checks)
  moreover have "pn_step (\<lparr>d_window = 0x38, d_next = 6\<rparr>, PendingAcks_new, {0, 5, 1})
      (\<lparr>d_window = 0x38, d_next = 6\<rparr>, PendingAcks_insert_one 5 7 PendingAcks_new, {0, 5, 1})"
    by (rule pn_step.intros [of "AuthPacket 5 7"]) simp_all
  ultimately show ?thesis
    by (meson converse_rtranclp_into_rtranclp rtranclp.rtrancl_refl)
qed

theorem pn_space_safe_witness:
  "pn_exec (FinishPacket 7 5 True) (\<lparr>d_window = 0x38, d_next = 6\<rparr>, PendingAcks_insert_one 5 7 PendingAcks_new, {0, 5, 1}) \<noteq> None
   \<and> ars_set (pak_ranges (PendingAcks_insert_one 5 7 PendingAcks_new)) \<subseteq> {0, 5, 1}"
  using pn_space_safe [OF demo_space, of "FinishPacket 7 5 True"] by simp

text \<open>
  C19. The search for gaps agrees with its specification.  Between two packet numbers, neither above
  the highest one received, it returns the smallest number in between that has not been received,
  of those inside the window, and nothing if there is none.
\<close>

theorem smallest_missing_correct:
  assumes "pn_step\<^sup>*\<^sup>* pn_init (d, a, S)" and "lower \<le> upper" and "upper < d_next d"
  shows "\<exists>r. smallest_missing_in_interval lower upper d = Some r \<and>
    (case r of
       None \<Rightarrow> (\<forall>p. lower < p \<and> p < upper \<and> d_next d \<le> p + WINDOW_SIZE \<longrightarrow> p \<in> S)
     | Some m \<Rightarrow> lower < m \<and> m < upper \<and> m \<notin> S
         \<and> (\<forall>p. lower < p \<and> p < m \<and> d_next d \<le> p + WINDOW_SIZE \<longrightarrow> p \<in> S))"
  using smallest_missing_spec [OF _ assms(2,3)] pn_life.inv_reachable [OF refl assms(1)] by simp

theorem smallest_missing_correct_witness:
  "\<exists>r. smallest_missing_in_interval 1 5 \<lparr>d_window = 0x38, d_next = 6\<rparr> = Some r \<and> r \<noteq> None"
  using smallest_missing_correct [OF demo_space, of 1 5]
  by (auto simp: WINDOW_SIZE_def split: option.splits)

end
