(* ===== verification/Cid_State.thy ===== *)
theory Cid_State
  imports Retransmits Transport_Error
begin

text \<open>
  The connection ids that a connection has issued, \<open>noq-proto/src/connection/cid_state.rs\<close>: which
  sequence numbers the peer has not retired, when ids expire, and up to which sequence number the
  peer is asked to retire them.  Times are natural numbers; \<open>Instant::checked_add\<close> fails beyond a
  platform limit, which is the parameter \<open>limit\<close>.
\<close>

section \<open>Definitions\<close>

record CidTimestamp =
  ct_sequence :: nat
  ct_timestamp :: nat

record CidState =
  cs_retire_timestamp :: "CidTimestamp list"
  cs_issued :: nat
  cs_active_seq :: "nat set"
  cs_prev_retire_seq :: nat
  cs_retire_seq :: nat
  cs_cid_len :: nat
  cs_cid_lifetime :: "nat option"

definition instant_checked_add :: "nat \<Rightarrow> nat \<Rightarrow> nat \<Rightarrow> nat option" where
  "instant_checked_add limit now d = (if now + d \<le> limit then Some (now + d) else None)"

definition track_lifetime :: "nat \<Rightarrow> nat \<Rightarrow> nat \<Rightarrow> CidState \<Rightarrow> CidState option" where
  "track_lifetime limit new_cid_seq now s =
     (case cs_cid_lifetime s of
        None \<Rightarrow> Some s
      | Some lifetime \<Rightarrow>
          (case instant_checked_add limit now lifetime of
             None \<Rightarrow> Some s
           | Some expire_at \<Rightarrow>
               let push = s\<lparr>cs_retire_timestamp := cs_retire_timestamp s @ [\<lparr>ct_sequence = new_cid_seq, ct_timestamp = expire_at\<rparr>]\<rparr> in
               if cs_retire_timestamp s = [] then Some push
               else if expire_at = ct_timestamp (last (cs_retire_timestamp s)) then do {
                 assert_opt (new_cid_seq > ct_sequence (last (cs_retire_timestamp s)));
                 Some (s\<lparr>cs_retire_timestamp := butlast (cs_retire_timestamp s)
                    @ [(last (cs_retire_timestamp s))\<lparr>ct_sequence := new_cid_seq\<rparr>]\<rparr>) }
               else Some push))"

fun track_all :: "nat \<Rightarrow> nat list \<Rightarrow> nat \<Rightarrow> CidState \<Rightarrow> CidState option" where
  "track_all limit [] now s = Some s"
| "track_all limit (n # ns) now s = do { s \<leftarrow> track_lifetime limit n now s; track_all limit ns now s }"

definition CidState_new :: "nat \<Rightarrow> nat \<Rightarrow> nat option \<Rightarrow> nat \<Rightarrow> nat \<Rightarrow> CidState option" where
  "CidState_new limit cid_len cid_lifetime now issued =
     track_all limit [0..<issued] now
       \<lparr>cs_retire_timestamp = [], cs_issued = issued, cs_active_seq = {0..<issued}, cs_prev_retire_seq = 0,
        cs_retire_seq = 0, cs_cid_len = cid_len, cs_cid_lifetime = cid_lifetime\<rparr>"

definition CidState_next_timeout :: "CidState \<Rightarrow> nat option" where
  "CidState_next_timeout s = (case cs_retire_timestamp s of [] \<Rightarrow> None | t # _ \<Rightarrow> Some (ct_timestamp t))"

definition any_active :: "nat \<Rightarrow> nat \<Rightarrow> CidState \<Rightarrow> bool" where
  "any_active a b s \<longleftrightarrow> list_ex (\<lambda>n. n \<in> cs_active_seq s) [a..<b]"

definition on_cid_timeout :: "CidState \<Rightarrow> bool \<times> CidState" where
  "on_cid_timeout s =
     (let unretired_ids_found = any_active (cs_prev_retire_seq s) (cs_retire_seq s) s;
          current_retire_prior_to = cs_retire_seq s;
          next_retire_sequence = (case cs_retire_timestamp s of [] \<Rightarrow> None | t # _ \<Rightarrow> Some (ct_sequence t + 1));
          s = s\<lparr>cs_retire_timestamp := (case cs_retire_timestamp s of [] \<Rightarrow> [] | _ # ts \<Rightarrow> ts)\<rparr>;
          s = (if \<not> unretired_ids_found then
                 (let s = s\<lparr>cs_prev_retire_seq := cs_retire_seq s\<rparr> in
                  case next_retire_sequence of None \<Rightarrow> s | Some n \<Rightarrow> s\<lparr>cs_retire_seq := n\<rparr>)
               else s) in
      (any_active current_retire_prior_to (cs_retire_seq s) s, s))"

definition new_cids :: "nat \<Rightarrow> IssuedCid list \<Rightarrow> nat \<Rightarrow> CidState \<Rightarrow> CidState option" where
  "new_cids limit ids now s =
     (if ids = [] then Some s
      else track_lifetime limit (ic_sequence (last ids)) now
        (s\<lparr>cs_issued := cs_issued s + length ids, cs_active_seq := cs_active_seq s \<union> ic_sequence ` set ids\<rparr>))"

definition on_cid_retirement :: "nat \<Rightarrow> nat \<Rightarrow> CidState \<Rightarrow> (TransportError + bool) \<times> CidState" where
  "on_cid_retirement sequence limit s =
     (if cs_cid_len s = 0 then (Inl PROTOCOL_VIOLATION, s)
      else if sequence > cs_issued s then (Inl PROTOCOL_VIOLATION, s)
      else let s = s\<lparr>cs_active_seq := cs_active_seq s - {sequence}\<rparr> in
        (Inr (limit > card (cs_active_seq s)), s))"

definition CidState_retire_prior_to :: "CidState \<Rightarrow> nat" where
  "CidState_retire_prior_to s = cs_retire_seq s"

definition CidState_active_seq :: "CidState \<Rightarrow> nat \<times> nat" where
  "CidState_active_seq s =
     (if cs_active_seq s = {} then (u64_max, 0) else (Min (cs_active_seq s), Max (cs_active_seq s)))"

section \<open>Invariant\<close>

fun increasing :: "nat \<Rightarrow> CidTimestamp list \<Rightarrow> bool" where
  "increasing n [] = True"
| "increasing n (t # ts) = (n \<le> ct_sequence t \<and> increasing (ct_sequence t + 1) ts)"

definition cs_inv :: "CidState \<Rightarrow> bool" where
  "cs_inv s \<longleftrightarrow> increasing (cs_retire_seq s) (cs_retire_timestamp s)
     \<and> (\<forall>t \<in> set (cs_retire_timestamp s). ct_sequence t < cs_issued s)
     \<and> cs_prev_retire_seq s \<le> cs_retire_seq s \<and> cs_retire_seq s \<le> cs_issued s
     \<and> cs_active_seq s \<subseteq> {..<cs_issued s}"

lemma increasing_mono: "increasing n ts \<Longrightarrow> m \<le> n \<Longrightarrow> increasing m ts"
  by (cases ts) auto

lemma increasing_append:
  "increasing n (ts @ us) \<longleftrightarrow> increasing n ts \<and> increasing (if ts = [] then n else ct_sequence (last ts) + 1) us"
  by (induction n ts rule: increasing.induct) auto

text \<open>
  Tracking a sequence number above all tracked ones keeps the order, and the assertion that batches
  grow holds.
\<close>

lemma track_lifetime_ok:
  assumes "increasing m (cs_retire_timestamp s)" and "\<forall>t \<in> set (cs_retire_timestamp s). ct_sequence t < n" and "m \<le> n"
  shows "\<exists>ts. track_lifetime limit n now s = Some (s\<lparr>cs_retire_timestamp := ts\<rparr>)
    \<and> increasing m ts \<and> (\<forall>t \<in> set ts. ct_sequence t \<le> n)"
proof -
  let ?ts = "cs_retire_timestamp s"
  have same: "s = s\<lparr>cs_retire_timestamp := ?ts\<rparr>" "\<forall>t \<in> set ?ts. ct_sequence t \<le> n"
    using assms(2) by auto
  have push: "increasing m (?ts @ [\<lparr>ct_sequence = n, ct_timestamp = e\<rparr>])" for e
    using assms last_in_set [of ?ts] by (auto simp: increasing_append Suc_le_eq)
  have merge: "ct_sequence (last ?ts) < n \<and> increasing m (butlast ?ts @ [(last ?ts)\<lparr>ct_sequence := n\<rparr>])
      \<and> (\<forall>t \<in> set (butlast ?ts). ct_sequence t \<le> n)" if "?ts \<noteq> []"
  proof -
    have "increasing m (butlast ?ts @ [last ?ts])" "ct_sequence (last ?ts) < n"
      using assms that last_in_set [of ?ts] by simp_all
    moreover have "\<forall>t \<in> set (butlast ?ts). ct_sequence t \<le> n"
      using same(2) by (meson in_set_butlastD)
    ultimately show ?thesis
      by (auto simp: increasing_append)
  qed
  show ?thesis
  proof (cases "cs_cid_lifetime s")
    case None
    then show ?thesis
      using same assms(1) by (intro exI [of _ ?ts]) (simp add: track_lifetime_def)
  next
    case (Some l)
    note life = this
    show ?thesis
    proof (cases "instant_checked_add limit now l")
      case None
      then show ?thesis
        using life same assms(1) by (intro exI [of _ ?ts]) (simp add: track_lifetime_def)
    next
      case (Some e)
      show ?thesis
      proof (cases "?ts \<noteq> [] \<and> e = ct_timestamp (last ?ts)")
        case True
        then show ?thesis
          using life Some merge
          by (intro exI [of _ "butlast ?ts @ [(last ?ts)\<lparr>ct_sequence := n\<rparr>]"]) (auto simp: track_lifetime_def)
      next
        case False
        then have "track_lifetime limit n now s = Some (s\<lparr>cs_retire_timestamp := ?ts @ [\<lparr>ct_sequence = n, ct_timestamp = e\<rparr>]\<rparr>)"
          using life Some by (auto simp: track_lifetime_def Let_def)
        then show ?thesis
          using push same(2) by (intro exI [of _ "?ts @ [\<lparr>ct_sequence = n, ct_timestamp = e\<rparr>]"]) auto
      qed
    qed
  qed
qed

lemma track_all_ok:
  assumes "increasing 0 (cs_retire_timestamp s)" and "\<forall>t \<in> set (cs_retire_timestamp s). ct_sequence t < a" and "a \<le> b"
  shows "\<exists>ts. track_all limit [a..<b] now s = Some (s\<lparr>cs_retire_timestamp := ts\<rparr>)
    \<and> increasing 0 ts \<and> (\<forall>t \<in> set ts. ct_sequence t < b)"
  using assms
proof (induction "b - a" arbitrary: a s)
  case 0
  then show ?case
    by (intro exI [of _ "cs_retire_timestamp s"]) simp
next
  case (Suc k)
  obtain ts where ts: "track_lifetime limit a now s = Some (s\<lparr>cs_retire_timestamp := ts\<rparr>)" "increasing 0 ts"
    "\<forall>t \<in> set ts. ct_sequence t \<le> a"
    using track_lifetime_ok [OF Suc.prems(1,2)] by blast
  have "\<exists>us. track_all limit [Suc a..<b] now (s\<lparr>cs_retire_timestamp := ts\<rparr>) = Some (s\<lparr>cs_retire_timestamp := ts\<rparr>\<lparr>cs_retire_timestamp := us\<rparr>)
      \<and> increasing 0 us \<and> (\<forall>t \<in> set us. ct_sequence t < b)"
    by (rule Suc.hyps(1)) (use Suc.hyps(2) ts in \<open>auto simp: less_Suc_eq_le\<close>)
  moreover have "[a..<b] = a # [Suc a..<b]"
    using Suc.hyps(2) by (simp add: upt_conv_Cons)
  ultimately show ?case
    using ts(1) by simp
qed

lemma CidState_new_ok: "\<exists>s. CidState_new limit len life now issued = Some s \<and> cs_inv s"
proof -
  let ?s = "\<lparr>cs_retire_timestamp = [], cs_issued = issued, cs_active_seq = {0..<issued}, cs_prev_retire_seq = 0,
        cs_retire_seq = 0, cs_cid_len = len, cs_cid_lifetime = life\<rparr>"
  show ?thesis
    using track_all_ok [of ?s 0 issued limit now] by (auto simp: CidState_new_def cs_inv_def)
qed

lemma on_cid_timeout_ok:
  assumes "cs_inv s"
  shows "cs_inv (snd (on_cid_timeout s))" and "cs_retire_seq s \<le> cs_retire_seq (snd (on_cid_timeout s))"
    and "cs_active_seq (snd (on_cid_timeout s)) = cs_active_seq s"
    and "fst (on_cid_timeout s) \<longleftrightarrow>
      (\<exists>n \<in> cs_active_seq s. cs_retire_seq s \<le> n \<and> n < cs_retire_seq (snd (on_cid_timeout s)))"
proof -
  let ?t = "snd (on_cid_timeout s)"
  have any: "any_active a b u \<longleftrightarrow> (\<exists>n \<in> cs_active_seq u. a \<le> n \<and> n < b)" for a b u
    by (auto simp: any_active_def list_ex_iff)
  show "cs_inv ?t" "cs_retire_seq s \<le> cs_retire_seq ?t"
    using assms by (auto simp: on_cid_timeout_def cs_inv_def Let_def split: list.splits intro: increasing_mono)
  show active: "cs_active_seq ?t = cs_active_seq s"
    by (simp add: on_cid_timeout_def Let_def split: list.split)
  have "fst (on_cid_timeout s) \<longleftrightarrow> any_active (cs_retire_seq s) (cs_retire_seq ?t) ?t"
    by (simp add: on_cid_timeout_def Let_def)
  then show "fst (on_cid_timeout s) \<longleftrightarrow> (\<exists>n \<in> cs_active_seq s. cs_retire_seq s \<le> n \<and> n < cs_retire_seq ?t)"
    unfolding any active .
qed

lemma new_cids_ok:
  assumes "cs_inv s" and "map ic_sequence ids = [cs_issued s..<cs_issued s + length ids]"
  shows "\<exists>t. new_cids limit ids now s = Some t \<and> cs_inv t"
proof (cases "ids = []")
  case False
  let ?s = "s\<lparr>cs_issued := cs_issued s + length ids, cs_active_seq := cs_active_seq s \<union> ic_sequence ` set ids\<rparr>"
  have "last (map ic_sequence ids) = cs_issued s + length ids - 1"
    using False unfolding assms(2) by (simp add: last_upt)
  then have seq: "ic_sequence (last ids) = cs_issued s + length ids - 1"
    using False by (simp add: last_map)
  have ids: "ic_sequence ` set ids = {cs_issued s..<cs_issued s + length ids}"
    using arg_cong [OF assms(2), of set] by simp
  obtain ts where ts: "track_lifetime limit (ic_sequence (last ids)) now ?s = Some (?s\<lparr>cs_retire_timestamp := ts\<rparr>)"
    "increasing (cs_retire_seq s) ts" "\<forall>t \<in> set ts. ct_sequence t \<le> ic_sequence (last ids)"
    using track_lifetime_ok [of "cs_retire_seq s" ?s "ic_sequence (last ids)" limit now] assms(1) False seq
    by (fastforce simp: cs_inv_def neq_Nil_conv)
  have "cs_inv (?s\<lparr>cs_retire_timestamp := ts\<rparr>)"
    using assms(1) ts(2,3) False ids seq by (fastforce simp: cs_inv_def neq_Nil_conv)
  then show ?thesis
    using ts(1) False by (simp add: new_cids_def)
qed (use assms in \<open>simp add: new_cids_def\<close>)

lemma on_cid_retirement_ok:
  assumes "cs_inv s"
  shows "cs_inv (snd (on_cid_retirement sequence limit s))"
  using assms by (auto simp: cs_inv_def on_cid_retirement_def Let_def)

section \<open>The life of the local connection ids\<close>

text \<open>The endpoint issues ids with consecutive sequence numbers.\<close>

inductive cs_step :: "nat \<Rightarrow> CidState \<Rightarrow> CidState \<Rightarrow> bool" for limit where
  issue: "map ic_sequence ids = [cs_issued s..<cs_issued s + length ids] \<Longrightarrow> new_cids limit ids now s = Some t \<Longrightarrow> cs_step limit s t"
| timeout: "cs_step limit s (snd (on_cid_timeout s))"
| retire: "cs_step limit s (snd (on_cid_retirement sequence n s))"

interpretation cs_life: invariant_system "\<lambda>s. \<exists>len life now issued. CidState_new limit len life now issued = Some s" "cs_step limit" cs_inv
  for limit
proof
  show "cs_inv s" if "\<exists>len life now issued. CidState_new limit len life now issued = Some s" for s
    using that CidState_new_ok by (metis option.inject)
  show "cs_inv t" if "cs_inv s" "cs_step limit s t" for s t
    using that(2,1)
  proof cases
    case (issue ids now)
    then show ?thesis
      using new_cids_ok [OF that(1), of ids limit now] by simp
  qed (simp_all add: on_cid_timeout_ok on_cid_retirement_ok)
qed


text \<open>Two ids whose lifetime is 10: at their expiry both are active, so that a new id has to be sent.\<close>

definition demo_cids :: CidState where
  "demo_cids = \<lparr>cs_retire_timestamp = [\<lparr>ct_sequence = 1, ct_timestamp = 15\<rparr>], cs_issued = 2, cs_active_seq = {0..<2},
     cs_prev_retire_seq = 0, cs_retire_seq = 0, cs_cid_len = 8, cs_cid_lifetime = Some 10\<rparr>"

lemma demo_cids_new: "CidState_new 100 8 (Some 10) 5 2 = Some demo_cids"
  by (simp add: CidState_new_def demo_cids_def numeral_2_eq_2 track_lifetime_def instant_checked_add_def)


text \<open>The sequence number that will be issued next is accepted in \<open>RETIRE_CONNECTION_ID\<close>.\<close>

lemma unissued_retirement_accepted:
  "fst (on_cid_retirement (cs_issued demo_cids) 3 demo_cids) = Inr True"
  by (simp add: on_cid_retirement_def demo_cids_def)

end
