(* ===== verification/Spec2Isabelle.thy ===== *)
theory Spec2Isabelle
  imports Var_Int Send_Reliability Reassembly Send_Stream Recv_Stream Packet_Builder Pending_Queue
    Transport_Parameters Streams_Findings Remote_Cids Packet_Number Packet_Space Cid_State
begin

text \<open>
  A verification development of the QUIC transport of \<^emph>\<open>noq\<close>: the sans-I/O state machine under
  \<open>noq-proto/src\<close>.  It follows a byte from the application that writes it to the application that
  reads it (write, buffer, frame, packet, loss and acknowledgement, decode, reassemble, read), with
  the codecs in between, the limits of both sides, packet numbers, and the connection ids of both sides.

  \<^bold>\<open>Conventions.\<close>  A \<open>u64\<close> or \<open>usize\<close> that counts or addresses is a \<open>nat\<close>; where widths and
  bits matter (variable-length integers, fixed-width fields, stream ids on the wire) it is a word.
  A Rust function that can panic returns an option, \<open>None\<close> being the panic: a checked
  subtraction is \<open>csub\<close>, an assertion is \<open>assert_opt\<close>, an \<open>unwrap\<close> of nothing is \<open>None\<close>.
  \<open>Result\<close> is a sum with \<open>Inl\<close> for \<open>Err\<close>.  A hash map is a partial function, a binary heap is
  the list in the order it yields, a \<open>Vec\<close> used as a stack is a list with its top first, an array
  indexed by a direction is a function.  Errors keep their code and drop their text.  Logging,
  statistics and qlog are left out.

  \<^bold>\<open>Interfaces.\<close>  Locales state what one part relies on in another, and are interpreted on the
  definitions of the model: \<open>codec\<close> (integers, addresses, connection ids), \<open>offset_set\<close> (the
  range set, used by the send buffer and the assembler), \<open>byte_queue\<close> (the segments of the send
  buffer), \<open>cid_store\<close> (the connection id queue, used by the connection), and
  \<open>invariant_system\<close> for every component that is run as a transition system (send buffer,
  assembler, transmit buffer, streams, packet number spaces, connection ids of both sides).
\<close>

section \<open>Parts of the program and theories\<close>

text \<open>
  \<^bold>\<open>Numbers and bytes.\<close>
  \<^descr> \<open>Prelude\<close> Shared types, checked arithmetic, slices, big-endian integers, the two generic
    interfaces.
  \<^descr> \<open>Var_Int\<close> \<open>varint.rs\<close> and \<open>coding.rs\<close>: encoding and decoding of variable-length
    integers and fixed-width fields.  Round trip, and the decoder's bounds.
  \<^descr> \<open>Range_Set\<close> \<open>range_set/array_range_set.rs\<close>: \<open>ArrayRangeSet\<close> with insert, remove, pop
    and the iterators; it is a canonical representation of a finite set of offsets.

  \<^bold>\<open>One stream.\<close>
  \<^descr> \<open>Send_Buffer\<close>, \<open>Send_Reliability\<close> \<open>connection/send_buffer.rs\<close>: the segments refine
    a byte queue; every operation keeps the invariant; over any interleaving of writes,
    transmissions, acknowledgements and losses nothing panics, frames carry the bytes written,
    nothing is lost, and when everything sent is acknowledged the buffer is empty.
  \<^descr> \<open>Assembler\<close>, \<open>Reassembly\<close> \<open>connection/assembler.rs\<close>: insertion, defragmentation and
    reads, ordered and unordered.  Ordered reads deliver exactly the stream, everything that has
    arrived is delivered, nothing is delivered twice, and the memory held is bounded.
  \<^descr> \<open>Stream_Id\<close>, \<open>Stream_Frame\<close> \<open>StreamId\<close>, \<open>Side\<close>, \<open>Dir\<close> of \<open>lib.rs\<close> and the
    metadata of STREAM frames.
  \<^descr> \<open>Send_Stream\<close> \<open>connection/streams/send.rs\<close>: \<open>Send\<close> and the sources of bytes.
  \<^descr> \<open>Recv_Stream\<close> \<open>connection/streams/recv.rs\<close>: \<open>Recv\<close>, with final sizes and credit.
  \<^descr> \<open>Transport_Error\<close> \<open>transport_error.rs\<close>.

  \<^bold>\<open>Frames and packets.\<close>
  \<^descr> \<open>Wire\<close>, \<open>Frame_Type\<close>, \<open>Frame\<close>, \<open>Frame_Encode\<close>, \<open>Frame_Decode\<close>
    \<open>frame.rs\<close>: all frames with their encoders and \<open>Iter\<close>, in terms of combinators for
    writers and readers.
  \<^descr> \<open>Frame_Codec\<close>, \<open>Frame_Roundtrip\<close>, \<open>Frame_Payload\<close> Every encodable frame decodes to
    itself, also in a sequence that fills a payload; the iterator ends; decoded frames are
    well-formed; the size bounds that senders reserve hold.
  \<^descr> \<open>Transmit_Buf\<close> \<open>connection/transmit_buf.rs\<close>: batches of datagrams.
  \<^descr> \<open>Retransmits\<close> \<open>Retransmits\<close>, \<open>PendingNewCids\<close> and \<open>PendingReachOutFrames\<close> of
    \<open>connection/spaces.rs\<close> and \<open>SentFrames\<close> of \<open>connection/mod.rs\<close>: what a lost packet
    carried is queued again.
  \<^descr> \<open>Packet_Builder\<close> \<open>connection/packet_builder.rs\<close> from the header on: frames never exceed
    the space of the packet.
  \<^descr> \<open>Packet_Number\<close> \<open>PacketNumber\<close> of \<open>packet.rs\<close>: a truncated packet number expands to the
    number sent.
  \<^descr> \<open>Packet_Space\<close> \<open>Dedup\<close> and \<open>PendingAcks\<close> of \<open>connection/spaces.rs\<close>: no packet is
    accepted twice, only accepted ones are acknowledged, and the search for gaps is exact.
  \<^descr> \<open>Transport_Parameters\<close> \<open>transport_parameters.rs\<close> and \<open>address_discovery.rs\<close>: what is
    written is read back, and what is read satisfies the validity conditions.
\<close>

text \<open>
  \<^bold>\<open>All streams of a connection.\<close>
  \<^descr> \<open>Pending_Queue\<close> \<open>PendingStreamsQueue\<close> of \<open>connection/streams/mod.rs\<close>: highest
    priority first, and in turn within a priority.
  \<^descr> \<open>Streams_State\<close>, \<open>Streams_Frames\<close> \<open>connection/streams/state.rs\<close>: \<open>StreamsState\<close>
    with every operation (tables, limits, flow control, incoming frames, acknowledgement and loss,
    0-RTT, events), and writing control and STREAM frames into a packet.
  \<^descr> \<open>Streams_Api\<close> \<open>Streams\<close>, \<open>RecvStream\<close>, \<open>SendStream\<close> and \<open>Chunks\<close>, what the
    application calls.
  \<^descr> \<open>Stream_Flight\<close>, \<open>Streams_Inv\<close> The invariant: counters and tables agree, both
    sides' credit is respected, and each byte sent is acknowledged, queued or in flight.
  \<^descr> \<open>Streams_Receive\<close>, \<open>Streams_Send\<close>, \<open>Streams_Limits\<close>, \<open>Streams_Transmit\<close> Each
    operation returns and keeps the invariant.
  \<^descr> \<open>Streams_System\<close> The transition system of all operations and its properties: no panic,
    each byte in exactly one place, flow control, nothing pending is forgotten, and packets carry
    what the application wrote.
  \<^descr> \<open>Streams_Findings\<close> Two runs outside the conditions of the system, see below.

  \<^bold>\<open>Connection ids.\<close>
  \<^descr> \<open>Cid_Queue\<close> \<open>cid_queue.rs\<close>: the ring buffer \<open>CidQueue\<close> implements a map from sequence
    numbers to ids with an active and a last reserved one.
  \<^descr> \<open>Remote_Cids\<close> The handling of \<open>NEW_CONNECTION_ID\<close> frames and of retirement in
    \<open>connection/mod.rs\<close>: no panic, only announced ids are used, and an id to be retired is
    not in use.
  \<^descr> \<open>Cid_State\<close> \<open>connection/cid_state.rs\<close>: the ids that the connection has issued itself,
    their expiry and their retirement by the peer.
\<close>

section \<open>Conditions, bounds and fuel\<close>

text \<open>
  \<^item> A step of the streams is an operation with \<open>streams_enabled\<close>: the application uses ids it
    was given, only frames in flight are acknowledged or lost, integers of the peer are below
    \<open>2^62\<close> as the codec ensures, a packet has a well-formed builder, and the 64-bit counter of
    the pending queue is not used up.  One condition restricts the peer: it does not finish a
    stream below data that it has sent.  \<open>Streams_Findings.reset_underflow\<close> shows that
    without it \<open>received_reset\<close> underflows.
  \<^item> In a packet number space only packets that passed the check for duplicates are acknowledged
    and counted, and the endpoint issues local connection ids with consecutive numbers
    (\<open>pn_enabled\<close>, \<open>cs_step\<close>).
  \<^item> \<open>write_stream_loop\<close> has fuel: the length of the queue plus the room of the packet, which
    \<open>write_stream_frames\<close> passes.  It is enough, because every round drops a queue entry or
    writes at least one byte; that filling a packet returns is part of the properties.
  \<^item> \<open>read_params\<close> has the length of the input as fuel, and each round consumes at least one
    byte; that it never runs out is part of \<open>params_read_valid\<close>.
  \<^item> Other loops are structural or have a measure (\<open>sb_ack_loop\<close>, \<open>Assembler_read\<close>,
    \<open>Iter_frames\<close>).
\<close>

section \<open>Not modelled\<close>

text \<open>
  \<^item> The connection driver (\<open>connection/mod.rs\<close> apart from the parts named above): it
    interleaves the modelled parts with cryptographic sessions, paths, timers and loss detection.
    The systems above therefore allow its calls in any order.
  \<^item> The 0-RTT operations \<open>zero_rtt_rejected\<close> and \<open>retransmit_all_for_0rtt\<close> are defined but
    are not steps of the transition system: the first forgets frames in flight and the second sends
    them again without declaring them lost, so the account of frames in flight does not hold
    across them.
  \<^item> Packet headers and protection (\<open>packet.rs\<close>, \<open>crypto\<close>, \<open>packet_crypto.rs\<close>), tokens
    (\<open>token.rs\<close>, \<open>bloom_token_log.rs\<close>, \<open>token_memory_cache.rs\<close>) and the endpoint
    (\<open>endpoint.rs\<close>): they depend on the cryptographic provider, which is not part of the sources.
  \<^item> Congestion control, pacing, round trip estimation, path MTU discovery and acknowledgement
    frequency: policies over wall clock time and floating point numbers that do not affect what
    the streams deliver.
  \<^item> Datagrams, NAT traversal, timers, and the sent packets and skipped packet numbers of
    \<open>spaces.rs\<close>: separate state that the modelled parts do not read, in part random.
  \<^item> Configuration, statistics, qlog, the asynchronous API (\<open>noq\<close>), the sockets (\<open>noq-udp\<close>)
    and the tools: plain data or input and output.
\<close>

end
